(* ===== verification/Hlc.thy ===== *)
theory Hlc
  imports Prelude "HOL-Library.Multiset"
begin

text \<open>
  The hybrid logical clock of mousedb (\<open>mousedb/server/exe_server/src/hlc.hpp\<close>, of which the
  client keeps an identical copy), the last-writer-wins selection of
  \<open>lib_database/src/hlce.hpp\<close>, and the lock-free update of the clock by several threads.
\<close>

section \<open>The time stamp\<close>

text \<open>\<open>struct HLC\<close>; the three-way comparison is the lexicographic one of the tuples.\<close>

datatype hlc = HLC (physical_us: u64) (logical: u16) (node_id: u32)

definition hlc_before :: "hlc \<Rightarrow> hlc \<Rightarrow> bool" where
  "hlc_before a b \<longleftrightarrow>
     physical_us a < physical_us b \<or>
     physical_us a = physical_us b \<and>
       (logical a < logical b \<or> logical a = logical b \<and> node_id a < node_id b)"

instantiation hlc :: linorder
begin

definition less_hlc :: "hlc \<Rightarrow> hlc \<Rightarrow> bool" where
  "less_hlc = hlc_before"

definition less_eq_hlc :: "hlc \<Rightarrow> hlc \<Rightarrow> bool" where
  "less_eq_hlc a b \<longleftrightarrow> a < b \<or> a = (b :: hlc)"

instance
proof
  fix x y z :: hlc
  show "(x < y) = (x \<le> y \<and> \<not> y \<le> x)"
    by (auto simp: less_hlc_def hlc_before_def less_eq_hlc_def)
  show "x \<le> x" by (simp add: less_eq_hlc_def)
  show "x \<le> y \<Longrightarrow> y \<le> z \<Longrightarrow> x \<le> z"
    by (auto simp: less_hlc_def hlc_before_def less_eq_hlc_def)
  show "x \<le> y \<Longrightarrow> y \<le> x \<Longrightarrow> x = y"
    by (auto simp: less_hlc_def hlc_before_def less_eq_hlc_def)
  show "x \<le> y \<or> y \<le> x"
    by (cases x; cases y) (auto simp: less_hlc_def hlc_before_def less_eq_hlc_def)
qed

end

lemmas hlc_less_def = less_hlc_def [unfolded fun_eq_iff hlc_before_def, rule_format]

section \<open>Packing the local clock into one atomic word\<close>

definition pack :: "u64 \<Rightarrow> u16 \<Rightarrow> u64" where
  "pack phys log = push_bit 16 phys OR ucast log"

definition unpack :: "u64 \<Rightarrow> u64 \<times> u16" where
  "unpack x = (drop_bit 16 x, ucast (x AND 0xFFFF))"

lemma ffff_mask: "(0xFFFF :: u64) = mask 16"
  by (simp add: mask_eq_exp_minus_1)

lemma bit_pack: "bit (pack phys log) n \<longleftrightarrow> n < 64 \<and> (if n < 16 then bit log n else bit phys (n - 16))"
  by (auto simp: pack_def bit_or_iff bit_push_bit_iff bit_ucast_iff dest: bit_imp_le_length)

lemma pack_unpack [simp]: "case_prod pack (unpack x) = x"
  by (rule bit_word_eqI)
    (auto simp: unpack_def ffff_mask bit_pack bit_drop_bit_eq bit_ucast_iff bit_and_iff bit_mask_iff)

lemma less_2p48_bit: "(w :: u64) < 281474976710656 \<Longrightarrow> bit w n \<Longrightarrow> n < 48"
  using less_exp_bit [of w 48 n] by simp

lemma drop_bit_pack: "phys < 2 ^ 48 \<Longrightarrow> drop_bit 16 (pack phys log) = phys"
proof (rule bit_word_eqI)
  fix n
  assume "phys < 2 ^ 48"
  then show "bit (drop_bit 16 (pack phys log)) n = bit phys n"
    using less_2p48_bit [of phys n] by (auto simp: bit_drop_bit_eq bit_pack)
qed

lemma ucast_pack: "ucast (pack phys log AND 0xFFFF) = log"
  by (rule bit_word_eqI)
    (auto simp: ffff_mask bit_ucast_iff bit_and_iff bit_mask_iff bit_pack)

lemma unpack_pack [simp]: "phys < 2 ^ 48 \<Longrightarrow> unpack (pack phys log) = (phys, log)"
  by (simp add: unpack_def drop_bit_pack ucast_pack del: power_numeral)

lemma fst_unpack_less: "fst (unpack x) < 2 ^ 48"
proof -
  have "unat x < 2 ^ 64" using unsigned_less [of x] by simp
  then have "unat x div 2 ^ 16 < 2 ^ 48" by (simp add: div_less_iff_less_mult)
  moreover have "unat (drop_bit 16 x) = unat x div 2 ^ 16"
    by (simp add: unsigned_drop_bit_eq drop_bit_eq_div unat_div)
  ultimately show ?thesis by (simp add: unpack_def word_less_nat_alt)
qed

section \<open>The clock update\<close>

text \<open>
  The body of the loop of \<open>HybridClock::advance\<close>: from the loaded word, the wall clock
  reading and the remote stamp, the physical and logical parts of the new value. The logical part
  is computed in \<open>int\<close> and stored in a \<open>uint16_t\<close>, so the increment wraps.
\<close>

definition advance_vals :: "u64 \<Rightarrow> u64 \<Rightarrow> hlc option \<Rightarrow> u64 \<times> u16" where
  "advance_vals loop now remote =
     (let (old_phys, old_log) = unpack loop in
      case remote of
        Some r \<Rightarrow>
          (let phys = max (max now (physical_us r)) old_phys;
               same_local = (phys = old_phys);
               same_remote = (phys = physical_us r);
               new_log = (if same_local \<and> same_remote then max old_log (logical r) + 1
                          else if same_local then old_log + 1
                          else if same_remote then logical r + 1
                          else 0)
           in (phys, new_log))
      | None \<Rightarrow>
          (let phys = (if now < old_phys then old_phys else now)
           in (phys, if phys = old_phys then old_log + 1 else 0)))"

text \<open>
  \<open>headroom\<close>: the environment under which nothing is cut off or wraps. The wall clock and
  the remote stamp fit the 48 bits that \<open>pack\<close> keeps, and no logical counter stands at 65535.
\<close>

definition headroom :: "u64 \<Rightarrow> u64 \<Rightarrow> hlc option \<Rightarrow> bool" where
  "headroom loop now remote \<longleftrightarrow>
     now < 2 ^ 48 \<and> snd (unpack loop) \<noteq> 0xFFFF \<and>
     (case remote of None \<Rightarrow> True | Some r \<Rightarrow> physical_us r < 2 ^ 48 \<and> logical r \<noteq> 0xFFFF)"

definition after_parts :: "u64 \<times> u16 \<Rightarrow> u64 \<times> u16 \<Rightarrow> bool" where
  "after_parts new old \<longleftrightarrow> fst old < fst new \<or> fst old = fst new \<and> snd old < snd new"

lemma u16_less_inc: "(l :: u16) \<noteq> 0xFFFF \<Longrightarrow> l < l + 1"
proof -
  assume l: "l \<noteq> 0xFFFF"
  have "unat l = 65535 \<Longrightarrow> l = 0xFFFF" by (rule unsigned_word_eqI) simp
  with l have "unat l \<noteq> 65535" by blast
  moreover have "unat l < 65536" using unsigned_less [of l] by simp
  ultimately show ?thesis by (simp add: word_less_nat_alt unat_word_ariths)
qed

lemma u16_le_less_inc [simp]:
  "(l :: u16) \<noteq> 0xFFFF \<Longrightarrow> k \<le> l \<Longrightarrow> k < l + 1"
  "l \<noteq> 0xFFFF \<Longrightarrow> \<not> l \<le> k \<Longrightarrow> k < l + 1"
  using u16_less_inc [of l] by auto

lemma advance_after_local:
  assumes "headroom loop now remote"
  shows "after_parts (advance_vals loop now remote) (unpack loop)"
  using assms
  by (auto simp: headroom_def advance_vals_def after_parts_def Let_def max_def
      split: option.splits prod.splits if_splits)

lemma advance_after_remote:
  assumes "headroom loop now (Some r)"
  shows "after_parts (advance_vals loop now (Some r)) (physical_us r, logical r)"
  using assms
  by (auto simp: headroom_def advance_vals_def after_parts_def Let_def max_def
      split: option.splits prod.splits if_splits)

lemma advance_phys_bound:
  assumes "headroom loop now remote"
  shows "fst (advance_vals loop now remote) < 2 ^ 48"
  using assms fst_unpack_less [of loop]
  by (auto simp: headroom_def advance_vals_def Let_def max_def
      split: option.splits prod.splits if_splits)

section \<open>The clock object\<close>

text \<open>
  \<open>class HybridClock\<close>. The wall clock is outside the program, so every operation takes its
  reading as \<open>now\<close>. \<open>advance\<close> is the execution in which the first compare-exchange
  succeeds; the contended loop is the step relation of the next section.
\<close>

record hybrid_clock =
  hc_node :: u32
  hc_state :: u64

definition new_clock :: "u32 \<Rightarrow> u64 \<Rightarrow> hybrid_clock" where
  "new_clock node now = \<lparr>hc_node = node, hc_state = pack now 0\<rparr>"

definition advance :: "hybrid_clock \<Rightarrow> u64 \<Rightarrow> hlc option \<Rightarrow> hlc \<times> hybrid_clock" where
  "advance c now remote =
     (let (phys, new_log) = advance_vals (hc_state c) now remote
      in (HLC phys new_log (hc_node c), c\<lparr>hc_state := pack phys new_log\<rparr>))"

definition now_send :: "hybrid_clock \<Rightarrow> u64 \<Rightarrow> hlc \<times> hybrid_clock" where
  "now_send c now = advance c now None"

definition recv_and_merge :: "hybrid_clock \<Rightarrow> u64 \<Rightarrow> hlc \<Rightarrow> hlc \<times> hybrid_clock" where
  "recv_and_merge c now remote = advance c now (Some remote)"

section \<open>Threads that share the clock\<close>

text \<open>
  \<open>advance\<close> under contention: a thread loads the packed word, computes on its copy and tries
  to swap. A failed exchange, spurious or not, reloads the word. The load, the successful and the
  failed exchange are the atomic steps; the wall clock reading of an attempt is part of its label.
  \<open>cs_issued\<close> lists the stamps returned so far, in the order of the successful exchanges.
\<close>

datatype thread_pc = Idle | Looping u64 "hlc option"

record clock_sys =
  cs_clock :: hybrid_clock
  cs_pc :: "nat \<Rightarrow> thread_pc"
  cs_issued :: "hlc list"

datatype clock_event = Load nat "hlc option" | CasOk nat u64 | CasFail nat

inductive clock_step :: "clock_sys \<Rightarrow> clock_event \<Rightarrow> clock_sys \<Rightarrow> bool" where
  load: "cs_pc s t = Idle \<Longrightarrow>
     clock_step s (Load t r) (s\<lparr>cs_pc := (cs_pc s)(t := Looping (hc_state (cs_clock s)) r)\<rparr>)"
| cas_ok: "cs_pc s t = Looping loop r \<Longrightarrow> hc_state (cs_clock s) = loop \<Longrightarrow>
     advance_vals loop now r = (phys, new_log) \<Longrightarrow>
     clock_step s (CasOk t now)
       (s\<lparr>cs_clock := (cs_clock s)\<lparr>hc_state := pack phys new_log\<rparr>,
          cs_pc := (cs_pc s)(t := Idle),
          cs_issued := cs_issued s @ [HLC phys new_log (hc_node (cs_clock s))]\<rparr>)"
| cas_fail: "cs_pc s t = Looping loop r \<Longrightarrow>
     clock_step s (CasFail t) (s\<lparr>cs_pc := (cs_pc s)(t := Looping (hc_state (cs_clock s)) r)\<rparr>)"

inductive_cases clock_stepE: "clock_step s e s'"

definition init_clock_sys :: "u32 \<Rightarrow> u64 \<Rightarrow> clock_sys" where
  "init_clock_sys node now = \<lparr>cs_clock = new_clock node now, cs_pc = (\<lambda>_. Idle), cs_issued = []\<rparr>"

definition event_headroom :: "clock_sys \<Rightarrow> clock_event \<Rightarrow> bool" where
  "event_headroom s e =
     (case e of
        CasOk t now \<Rightarrow>
          (case cs_pc s t of Looping loop r \<Rightarrow> headroom loop now r | Idle \<Rightarrow> True)
      | _ \<Rightarrow> True)"

text \<open>The states that threads reach from a fresh clock while every swap has headroom.\<close>

inductive clock_reach :: "u32 \<Rightarrow> clock_sys \<Rightarrow> bool" for node where
  init: "clock_reach node (init_clock_sys node now)"
| step: "clock_reach node s \<Longrightarrow> event_headroom s e \<Longrightarrow> clock_step s e s' \<Longrightarrow> clock_reach node s'"

definition clock_inv :: "u32 \<Rightarrow> clock_sys \<Rightarrow> bool" where
  "clock_inv node s \<longleftrightarrow>
     hc_node (cs_clock s) = node \<and> sorted_wrt (<) (cs_issued s) \<and>
     (\<forall>h \<in> set (cs_issued s). node_id h = node \<and>
        (let now = unpack (hc_state (cs_clock s)) in
         (physical_us h, logical h) = now \<or> after_parts now (physical_us h, logical h)))"

lemma after_parts_trans: "after_parts a b \<Longrightarrow> after_parts b c \<Longrightarrow> after_parts a c"
  by (auto simp: after_parts_def)

lemma after_parts_less:
  "after_parts (p, l) (physical_us h, logical h) \<Longrightarrow> h < HLC p l n"
  by (auto simp: after_parts_def hlc_less_def)

lemma clock_inv_init: "clock_inv node (init_clock_sys node now)"
  by (simp add: clock_inv_def init_clock_sys_def new_clock_def)

lemma clock_inv_step [inv_intros]:
  assumes "clock_step s e s'" "event_headroom s e" "clock_inv node s"
  shows "clock_inv node s'"
  using assms(1)
proof (cases rule: clock_step.cases)
  case (cas_ok t loop r now phys new_log)
  with assms(2) have hr: "headroom loop now r" by (simp add: event_headroom_def)
  from advance_phys_bound [OF hr] cas_ok have bound: "phys < 2 ^ 48" by simp
  have "after_parts (phys, new_log) (unpack loop)"
    using advance_after_local [OF hr] cas_ok by simp
  then have newer: "after_parts (phys, new_log) (physical_us h, logical h)"
    if "h \<in> set (cs_issued s)" for h
    using that assms(3) cas_ok after_parts_trans unfolding clock_inv_def Let_def by metis
  show ?thesis
    using assms(3) cas_ok bound newer
    by (auto simp: clock_inv_def Let_def sorted_wrt_append intro: after_parts_less)
qed (use assms(3) in \<open>auto simp: clock_inv_def\<close>)

lemma clock_reach_inv: "clock_reach node s \<Longrightarrow> clock_inv node s"
  by (induction rule: clock_reach.induct) (auto intro: clock_inv_init inv_intros)

section \<open>Last writer wins\<close>

text \<open>
  \<open>lww_select\<close> of \<open>hlce.hpp\<close> (and of \<open>exe_server/src/lww.hpp\<close>): the loop keeps the
  first element whose clock no later element exceeds; \<open>None\<close> is the end iterator of an empty
  range. \<open>clk\<close> is the member \<open>.clock\<close> of the element type.
\<close>

fun lww_scan :: "('a \<Rightarrow> hlc) \<Rightarrow> 'a \<Rightarrow> 'a list \<Rightarrow> 'a" where
  "lww_scan clk best [] = best"
| "lww_scan clk best (x # xs) = lww_scan clk (if clk best < clk x then x else best) xs"

definition lww_select :: "('a \<Rightarrow> hlc) \<Rightarrow> 'a list \<Rightarrow> 'a option" where
  "lww_select clk xs = (case xs of [] \<Rightarrow> None | x # rest \<Rightarrow> Some (lww_scan clk x rest))"

lemma lww_scan_first_max:
  "\<exists>pre post. b # xs = pre @ lww_scan clk b xs # post \<and>
     (\<forall>y \<in> set pre. clk y < clk (lww_scan clk b xs)) \<and>
     (\<forall>y \<in> set post. clk y \<le> clk (lww_scan clk b xs))"
proof (induction xs arbitrary: b)
  case Nil
  show ?case by (intro exI [of _ "[]"]) simp
next
  case (Cons x xs)
  define w where "w = (if clk b < clk x then x else b)"
  let ?m = "lww_scan clk w xs"
  obtain pre post where eq: "w # xs = pre @ ?m # post"
    and pre: "\<forall>y \<in> set pre. clk y < clk ?m" and post: "\<forall>y \<in> set post. clk y \<le> clk ?m"
    using Cons [of w] by blast
  have scan: "lww_scan clk b (x # xs) = ?m" by (simp add: w_def)
  have "clk w \<le> clk ?m"
    using eq pre by (cases pre) (auto intro: less_imp_le)
  show ?case
  proof (cases "clk b < clk x")
    case True
    then have "b # x # xs = (b # pre) @ ?m # post" "clk b < clk ?m"
      using eq \<open>clk w \<le> clk ?m\<close> by (auto simp: w_def)
    with pre post show ?thesis unfolding scan by fastforce
  next
    case False
    then have w: "w = b" "clk x \<le> clk b" by (auto simp: w_def)
    show ?thesis
    proof (cases pre)
      case Nil
      with eq have m: "?m = w" "post = xs" by (metis append_Nil list.inject)+
      then have "b # x # xs = [] @ ?m # x # post" using w by (simp only: append_Nil)
      moreover have "clk x \<le> clk ?m" using w \<open>clk w \<le> clk ?m\<close> by simp
      ultimately show ?thesis using post unfolding scan by (metis empty_iff empty_set set_ConsD)
    next
      case (Cons p pre')
      then have "b # x # xs = (b # x # pre') @ ?m # post" "clk b < clk ?m"
        using eq pre w by auto
      moreover have "clk x < clk ?m" using w \<open>clk b < clk ?m\<close> by simp
      ultimately show ?thesis using pre post Cons unfolding scan
        by (metis (no_types, lifting) list.set_intros(2) set_ConsD)
    qed
  qed
qed

lemma lww_select_Nil [simp]: "lww_select clk [] = None"
  by (simp add: lww_select_def)

lemma lww_select_None_iff [simp]: "lww_select clk xs = None \<longleftrightarrow> xs = []"
  by (simp add: lww_select_def split: list.splits)

lemma lww_select_SomeE:
  assumes "lww_select clk xs = Some x"
  obtains pre post where "xs = pre @ x # post"
    "\<And>y. y \<in> set pre \<Longrightarrow> clk y < clk x" "\<And>y. y \<in> set post \<Longrightarrow> clk y \<le> clk x"
  using assms lww_scan_first_max [of _ _ clk]
  by (auto simp: lww_select_def split: list.splits) blast

lemma lww_scan_map: "lww_scan f (g x) (map g xs) = g (lww_scan (f \<circ> g) x xs)"
  by (induction xs arbitrary: x) auto

text \<open>
  The overload on iterators of \<open>exe_server/src/lww.hpp\<close>, with positions for iterators, and the wrapper for
  containers: the same selection.
\<close>

function lww_loop :: "('a \<Rightarrow> hlc) \<Rightarrow> 'a list \<Rightarrow> nat \<Rightarrow> nat \<Rightarrow> nat" where
  "lww_loop clk xs best first =
     (if first < length xs
      then lww_loop clk xs (if clk (xs ! best) < clk (xs ! first) then first else best) (Suc first)
      else best)"
  by pat_completeness auto
termination by (relation "measure (\<lambda>(clk, xs, best, first). length xs - first)") auto

definition lww_position :: "('a \<Rightarrow> hlc) \<Rightarrow> 'a list \<Rightarrow> nat" where
  "lww_position clk xs = (if xs = [] then length xs else lww_loop clk xs 0 1)"

definition lww_select_in :: "('a \<Rightarrow> hlc) \<Rightarrow> 'a list \<Rightarrow> 'a option" where
  "lww_select_in clk c = (let it = lww_position clk c in if it = length c then None else Some (c ! it))"

declare lww_loop.simps [simp del]

lemma lww_loop_scan:
  "best < length xs \<Longrightarrow> first \<le> length xs \<Longrightarrow> lww_loop clk xs best first < length xs \<and>
     xs ! lww_loop clk xs best first = lww_scan clk (xs ! best) (drop first xs)"
proof (induction clk xs best first rule: lww_loop.induct)
  case (1 clk xs best first)
  show ?case
  proof (cases "first < length xs")
    case True
    then show ?thesis
      using 1 by (subst (1 2) lww_loop.simps) (auto simp: Cons_nth_drop_Suc [symmetric])
  next
    case False
    then show ?thesis using 1 by (subst (1 2) lww_loop.simps) auto
  qed
qed

lemma lww_select_in_eq: "lww_select_in clk xs = lww_select clk xs"
proof (cases xs)
  case (Cons x ys)
  then show ?thesis
    using lww_loop_scan [of 0 xs 1 clk]
    by (auto simp: lww_select_in_def lww_position_def lww_select_def Let_def)
qed (simp add: lww_select_in_def lww_position_def lww_select_def)

lemma lww_select_map: "lww_select f (map g xs) = map_option g (lww_select (f \<circ> g) xs)"
  by (auto simp: lww_select_def lww_scan_map split: list.splits)

lemma first_max_unique:
  assumes "pre @ x # post = pre' @ x' # post'"
    and "\<And>y. y \<in> set pre \<Longrightarrow> f y < (f x :: 'b :: linorder)" "\<And>y. y \<in> set post \<Longrightarrow> f y \<le> f x"
    and "\<And>y. y \<in> set pre' \<Longrightarrow> f y < f x'" "\<And>y. y \<in> set post' \<Longrightarrow> f y \<le> f x'"
  shows "x = x'"
proof -
  consider us where "pre = pre' @ us" "us @ x # post = x' # post'"
    | us where "pre' = pre @ us" "us @ x' # post' = x # post"
    using assms(1) by (auto simp: append_eq_append_conv2)
  then show ?thesis
  proof cases
    case 1
    then show ?thesis using assms(2,5) by (cases us) force+
  next
    case 2
    then show ?thesis using assms(3,4) by (cases us) force+
  qed
qed

lemma lww_select_set:
  assumes "set xs = set ys" and "inj_on clk (set xs)"
  shows "lww_select clk xs = lww_select clk ys"
proof (cases "xs = []")
  case True
  with assms(1) show ?thesis by simp
next
  case False
  with assms(1) obtain x y where x: "lww_select clk xs = Some x" and y: "lww_select clk ys = Some y"
    by (metis lww_select_None_iff option.exhaust set_empty)
  have x_max: "x \<in> set xs" "\<forall>z \<in> set xs. clk z \<le> clk x"
    using x by (elim lww_select_SomeE; force)+
  have "y \<in> set ys" "\<forall>z \<in> set ys. clk z \<le> clk y"
    using y by (elim lww_select_SomeE; force)+
  with x_max assms have "x = y" by (metis antisym inj_onD)
  with x y show ?thesis by simp
qed

section \<open>Properties\<close>

text \<open>C30: while no counter runs out of its field, the stamps that any number of threads obtain
  from one clock are strictly increasing in the order of their exchanges, hence distinct,
  whatever the interleaving of loads and of successful and failed exchanges.\<close>
theorem clock_issued_increasing:
  assumes "clock_reach node s"
  shows "sorted_wrt (<) (cs_issued s) \<and> distinct (cs_issued s)"
proof
  show "sorted_wrt (<) (cs_issued s)"
    using clock_reach_inv [OF assms] by (simp add: clock_inv_def)
  then show "distinct (cs_issued s)"
    by (simp add: strict_sorted_iff)
qed

text \<open>Two threads race: thread 1 loses its first exchange to thread 0, reloads and succeeds.\<close>
theorem clock_issued_increasing_witness:
  "\<exists>s. clock_reach 7 s \<and> cs_issued s = [HLC 100 1 7, HLC 100 2 7] \<and>
     sorted_wrt (<) (cs_issued s) \<and> distinct (cs_issued s)"
proof -
  let ?s0 = "init_clock_sys 7 100"
  obtain s where s: "clock_reach 7 s" "cs_issued s = [HLC 100 1 7, HLC 100 2 7]"
  proof -
    have r0: "clock_reach 7 ?s0" by (rule clock_reach.init)
    note r1 = clock_reach.step [OF r0 _ clock_step.load [of ?s0 0 None]]
    let ?s1 = "?s0\<lparr>cs_pc := (cs_pc ?s0)(0 := Looping (pack 100 0) None)\<rparr>"
    have r1: "clock_reach 7 ?s1"
      using r1 by (simp add: event_headroom_def init_clock_sys_def new_clock_def)
    let ?s2 = "?s1\<lparr>cs_pc := (cs_pc ?s1)(1 := Looping (pack 100 0) None)\<rparr>"
    have r2: "clock_reach 7 ?s2"
      using clock_reach.step [OF r1 _ clock_step.load [of ?s1 1 None]]
      by (simp add: event_headroom_def init_clock_sys_def new_clock_def)
    let ?s3 = "?s2\<lparr>cs_clock := (cs_clock ?s2)\<lparr>hc_state := pack 100 1\<rparr>,
        cs_pc := (cs_pc ?s2)(0 := Idle), cs_issued := cs_issued ?s2 @ [HLC 100 1 7]\<rparr>"
    have r3: "clock_reach 7 ?s3"
      using clock_reach.step [OF r2 _ clock_step.cas_ok [of ?s2 0 "pack 100 0" None 90 100 1]]
      by (simp add: event_headroom_def headroom_def init_clock_sys_def new_clock_def
          advance_vals_def)
    let ?s4 = "?s3\<lparr>cs_pc := (cs_pc ?s3)(1 := Looping (pack 100 1) None)\<rparr>"
    have r4: "clock_reach 7 ?s4"
      using clock_reach.step [OF r3 _ clock_step.cas_fail [of ?s3 1 "pack 100 0" None]]
      by (simp add: event_headroom_def)
    let ?s5 = "?s4\<lparr>cs_clock := (cs_clock ?s4)\<lparr>hc_state := pack 100 2\<rparr>,
        cs_pc := (cs_pc ?s4)(1 := Idle), cs_issued := cs_issued ?s4 @ [HLC 100 2 7]\<rparr>"
    have "clock_reach 7 ?s5"
      using clock_reach.step [OF r4 _ clock_step.cas_ok [of ?s4 1 "pack 100 1" None 100 100 2]]
      by (simp add: event_headroom_def headroom_def init_clock_sys_def new_clock_def
          advance_vals_def)
    then show ?thesis by (rule that) (simp add: init_clock_sys_def)
  qed
  with clock_issued_increasing [OF s(1)] show ?thesis by blast
qed

text \<open>A stamp obtained for a received remote stamp is later than that stamp and than every
  value the local clock held, and the clock then holds exactly the parts of the new stamp.\<close>
theorem recv_and_merge_dominates:
  assumes "headroom (hc_state c) now (Some r)"
  shows "r < fst (recv_and_merge c now r) \<and>
    after_parts (unpack (hc_state (snd (recv_and_merge c now r)))) (unpack (hc_state c)) \<and>
    unpack (hc_state (snd (recv_and_merge c now r))) =
      (physical_us (fst (recv_and_merge c now r)), logical (fst (recv_and_merge c now r)))"
  using advance_after_remote [OF assms] advance_after_local [OF assms]
    advance_phys_bound [OF assms]
  by (auto simp: recv_and_merge_def advance_def after_parts_less split: prod.splits)

theorem recv_and_merge_dominates_witness:
  "HLC 500 9 2 < fst (recv_and_merge (new_clock 7 100) 300 (HLC 500 9 2)) \<and>
   fst (recv_and_merge (new_clock 7 100) 300 (HLC 500 9 2)) = HLC 500 10 7"
proof -
  have h: "headroom (hc_state (new_clock 7 100)) 300 (Some (HLC 500 9 2))"
    by (simp add: headroom_def new_clock_def)
  show ?thesis
    using recv_and_merge_dominates [OF h]
    by (simp add: recv_and_merge_def advance_def advance_vals_def new_clock_def)
qed

text \<open>C40: the 48 bits kept for the physical part cannot hold the current time in microseconds.
  Once the wall clock reads \<open>2^48\<close> or more, a local event takes the bare reading with logical
  part 0, whatever was issued before: equal readings give equal stamps, and a wall clock that steps
  back gives an earlier stamp.\<close>
theorem now_send_forgets_past_2p48:
  assumes "2 ^ 48 \<le> now"
  shows "fst (now_send c now) = HLC now 0 (hc_node c)"
proof -
  have "fst (unpack (hc_state c)) < now"
    using fst_unpack_less [of "hc_state c"] assms by (rule less_le_trans)
  then show ?thesis
    by (auto simp: now_send_def advance_def advance_vals_def Let_def split: prod.splits)
qed

text \<open>Readings of May 2025, the second one a second behind the first.\<close>
theorem now_send_forgets_past_2p48_witness:
  "fst (now_send (snd (now_send (new_clock 7 1746000000000000) 1746000001000000))
      1746000000000000)
    < fst (now_send (new_clock 7 1746000000000000) 1746000001000000)"
proof -
  have "fst (now_send c 1746000000000000) = HLC 1746000000000000 0 (hc_node c)"
    and "fst (now_send c 1746000001000000) = HLC 1746000001000000 0 (hc_node c)" for c
    by (simp_all add: now_send_forgets_past_2p48)
  then show ?thesis by (simp add: hlc_less_def)
qed

text \<open>The selection returns the first of the elements with the greatest clock, and nothing
  exactly when there is no element.\<close>
theorem lww_select_first_greatest:
  "lww_select clk xs = Some x \<longleftrightarrow>
     (\<exists>pre post. xs = pre @ x # post \<and> list_all (\<lambda>y. clk y < clk x) pre \<and>
        list_all (\<lambda>y. clk y \<le> clk x) post)"
proof
  assume "lww_select clk xs = Some x"
  then show "\<exists>pre post. xs = pre @ x # post \<and> list_all (\<lambda>y. clk y < clk x) pre \<and>
      list_all (\<lambda>y. clk y \<le> clk x) post"
    by (elim lww_select_SomeE) (auto simp: list_all_iff)
next
  assume "\<exists>pre post. xs = pre @ x # post \<and> list_all (\<lambda>y. clk y < clk x) pre \<and>
      list_all (\<lambda>y. clk y \<le> clk x) post"
  then obtain pre post where xs: "xs = pre @ x # post"
    and "\<forall>y \<in> set pre. clk y < clk x" "\<forall>y \<in> set post. clk y \<le> clk x"
    by (auto simp: list_all_iff)
  moreover obtain x' where "lww_select clk xs = Some x'"
    using xs by (cases "lww_select clk xs") auto
  ultimately show "lww_select clk xs = Some x"
    by (metis first_max_unique lww_select_SomeE)
qed



end
