(* ===== verification/Arena.thy ===== *)
theory Arena
  imports Prelude
begin

text \<open>
  The single-threaded bump allocator \<open>mousedb::arena::Arena\<close> of
  \<open>lib_database/src/arena.{hpp,cpp}\<close>, and the interface \<open>allocator\<close> under which the
  concurrent arena and the key-value store use it.

  A slab obtained from \<open>new std::byte[size]\<close> is a number, its position in \<open>slabs_\<close>; a
  pointer is a base (no base is the null pointer) and a byte offset. The byte counters are natural
  numbers: \<open>arena_counters_bounded\<close> below shows that they stay below twice the memory obtained
  from \<open>new\<close>, so a \<open>size_t\<close> never wraps. \<open>new\<close> does not fail in the model.
\<close>

section \<open>Slab sizes\<close>

text \<open>\<open>align_unit\<close> is \<open>alignof(std::max_align_t)\<close>, which the platform fixes.\<close>

definition optimize_slab_size :: "nat \<Rightarrow> nat \<Rightarrow> nat" where
  "optimize_slab_size align_unit slab_size =
     (let s = max slab_size 4096;
          s = min s (2 ^ 31)
      in if s mod align_unit \<noteq> 0 then (1 + s div align_unit) * align_unit else s)"

section \<open>The allocator\<close>

record ptr =
  base :: "nat option"
  off :: nat

definition null :: ptr where
  "null = \<lparr>base = None, off = 0\<rparr>"

definition ptr_add :: "ptr \<Rightarrow> nat \<Rightarrow> ptr" where
  "ptr_add p n = p\<lparr>off := off p + n\<rparr>"

record arena =
  slab_size :: nat
  slabs :: "nat list"
  active_slab :: ptr
  active_slab_unused :: nat
  used :: nat
  unused :: nat
  total_size :: nat

definition new_arena :: "nat \<Rightarrow> nat \<Rightarrow> arena" where
  "new_arena align_unit n =
     \<lparr>slab_size = optimize_slab_size align_unit n, slabs = [], active_slab = null,
      active_slab_unused = 0, used = 0, unused = 0, total_size = 0\<rparr>"

definition slabify :: "arena \<Rightarrow> nat \<Rightarrow> ptr \<times> arena" where
  "slabify a n =
     (\<lparr>base = Some (length (slabs a)), off = 0\<rparr>,
      a\<lparr>total_size := total_size a + n, slabs := slabs a @ [n]\<rparr>)"

definition arena_allocate :: "arena \<Rightarrow> nat \<Rightarrow> ptr \<times> arena" where
  "arena_allocate a0 n =
     (let a = a0\<lparr>used := used a0 + n\<rparr> in
      if n \<ge> slab_size a then slabify a n
      else if n > active_slab_unused a then
        (let a = a\<lparr>unused := unused a + (active_slab_unused a + slab_size a - n)\<rparr>;
             (slab, a) = slabify a (slab_size a)
         in (slab, a\<lparr>active_slab := slab, active_slab_unused := slab_size a - n\<rparr>))
      else
        (ptr_add (active_slab a) (slab_size a - active_slab_unused a),
         a\<lparr>active_slab_unused := active_slab_unused a - n, unused := unused a - n\<rparr>))"

definition arena_allocate_slab :: "arena \<Rightarrow> nat \<Rightarrow> ptr \<times> arena" where
  "arena_allocate_slab a n = slabify (a\<lparr>used := used a + n\<rparr>) n"

text \<open>The two public allocation entry points as requests, so that a run is a list of them.\<close>

datatype arena_request = Allocate (req_len: nat) | Allocate_Slab (req_len: nat)

fun arena_serve :: "arena \<Rightarrow> arena_request \<Rightarrow> ptr \<times> arena" where
  "arena_serve a (Allocate n) = arena_allocate a n"
| "arena_serve a (Allocate_Slab n) = arena_allocate_slab a n"

section \<open>The interface of an allocator\<close>

type_synonym region = "ptr \<times> nat"

fun overlap :: "region \<Rightarrow> region \<Rightarrow> bool" where
  "overlap (p, n) (q, m) \<longleftrightarrow>
     0 < n \<and> 0 < m \<and> base p = base q \<and> base p \<noteq> None \<and>
     off p < off q + m \<and> off q < off p + n"

lemma overlap_sym: "overlap r s \<longleftrightarrow> overlap s r"
  by (cases r; cases s) (simp, metis)

fun alloc_run :: "('s \<Rightarrow> 'r \<Rightarrow> ptr \<times> 's) \<Rightarrow> ('r \<Rightarrow> nat) \<Rightarrow> 's \<Rightarrow> 'r list \<Rightarrow> region list \<times> 's" where
  "alloc_run alloc len s [] = ([], s)"
| "alloc_run alloc len s (r # rs) =
     (let (p, s') = alloc s r; (regs, s'') = alloc_run alloc len s' rs
      in ((p, len r) # regs, s''))"

lemma alloc_run_ConsE:
  assumes "alloc_run alloc len s (r # rs) = (regs, s'')"
  obtains p s' regs' where "alloc s r = (p, s')" "alloc_run alloc len s' rs = (regs', s'')"
    "regs = (p, len r) # regs'"
  using assms by (auto split: prod.splits)

text \<open>
  What a client may rely on: a region handed out is inside memory the allocator owns, it is
  disjoint from everything handed out before, and what was handed out stays so.
\<close>

locale allocator =
  fixes alloc :: "'s \<Rightarrow> 'r \<Rightarrow> ptr \<times> 's"
    and len :: "'r \<Rightarrow> nat"
    and owned :: "'s \<Rightarrow> region \<Rightarrow> bool"
    and inv :: "'s \<Rightarrow> bool"
  assumes inv_alloc: "inv s \<Longrightarrow> alloc s r = (p, s') \<Longrightarrow> inv s'"
    and alloc_owned: "inv s \<Longrightarrow> alloc s r = (p, s') \<Longrightarrow> 0 < len r \<Longrightarrow> owned s' (p, len r)"
    and owned_mono: "inv s \<Longrightarrow> alloc s r = (p, s') \<Longrightarrow> owned s x \<Longrightarrow> owned s' x"
    and alloc_fresh: "inv s \<Longrightarrow> alloc s r = (p, s') \<Longrightarrow> owned s x \<Longrightarrow> \<not> overlap x (p, len r)"
begin

lemma run_fresh:
  assumes "inv s" "alloc_run alloc len s rs = (regs, s')" "owned s x" "y \<in> set regs"
  shows "\<not> overlap x y"
  using assms
proof (induction rs arbitrary: s regs)
  case Nil
  then show ?case by simp
next
  case (Cons r rs)
  from Cons.prems(2) obtain p s1 regs1 where
    one: "alloc s r = (p, s1)" and rest: "alloc_run alloc len s1 rs = (regs1, s')"
    and regs: "regs = (p, len r) # regs1"
    by (rule alloc_run_ConsE)
  have "\<not> overlap x (p, len r)" 
    using Cons.prems(1) one Cons.prems(3) by (rule alloc_fresh)
  moreover have "\<not> overlap x y" if "y \<in> set regs1"
    using Cons.IH [OF _ rest _ that] Cons.prems(1,3) one by (blast intro: inv_alloc owned_mono)
  ultimately show ?case using Cons.prems(4) regs by auto
qed

lemma run_disjoint:
  assumes "inv s" "alloc_run alloc len s rs = (regs, s')"
  shows "sorted_wrt (\<lambda>x y. \<not> overlap x y) regs"
  using assms
proof (induction rs arbitrary: s regs)
  case Nil
  then show ?case by simp
next
  case (Cons r rs)
  from Cons.prems(2) obtain p s1 regs1 where
    one: "alloc s r = (p, s1)" and rest: "alloc_run alloc len s1 rs = (regs1, s')"
    and regs: "regs = (p, len r) # regs1"
    by (rule alloc_run_ConsE)
  have "inv s1" using Cons.prems(1) one by (rule inv_alloc)
  moreover have "\<not> overlap (p, len r) y" if "y \<in> set regs1" for y
  proof (cases "len r = 0")
    case True
    then show ?thesis by (cases y) simp
  next
    case False
    with Cons.prems(1) one have "owned s1 (p, len r)" by (auto intro: alloc_owned)
    with \<open>inv s1\<close> rest that show ?thesis by (blast dest: run_fresh)
  qed
  ultimately show ?case using Cons.IH rest regs by simp
qed

lemma run_owned:
  assumes "inv s" "alloc_run alloc len s rs = (regs, s')"
  shows "inv s' \<and> (\<forall>x. owned s x \<longrightarrow> owned s' x) \<and>
    (\<forall>(p, n) \<in> set regs. 0 < n \<longrightarrow> owned s' (p, n))"
  using assms
proof (induction rs arbitrary: s regs)
  case Nil
  then show ?case by simp
next
  case (Cons r rs)
  from Cons.prems(2) obtain p s1 regs1 where
    one: "alloc s r = (p, s1)" and rest: "alloc_run alloc len s1 rs = (regs1, s')"
    and regs: "regs = (p, len r) # regs1"
    by (rule alloc_run_ConsE)
  from Cons.IH [OF inv_alloc [OF Cons.prems(1) one] rest]
  have IH: "inv s'" "\<And>x. owned s1 x \<Longrightarrow> owned s' x"
    "\<forall>(p, n) \<in> set regs1. 0 < n \<longrightarrow> owned s' (p, n)" by auto
  from Cons.prems(1) one have "owned s x \<Longrightarrow> owned s' x" for x
    by (blast intro: IH owned_mono)
  moreover from Cons.prems(1) one have "0 < len r \<Longrightarrow> owned s' (p, len r)"
    by (blast intro: IH alloc_owned)
  ultimately show ?case using IH regs by auto
qed

end

section \<open>The arena is an allocator\<close>

definition arena_inv :: "arena \<Rightarrow> bool" where
  "arena_inv a \<longleftrightarrow>
     0 < slab_size a \<and> active_slab_unused a \<le> slab_size a \<and> off (active_slab a) = 0 \<and>
     active_slab_unused a \<le> unused a \<and> used a + unused a \<le> 2 * total_size a \<and>
     (case base (active_slab a) of
        None \<Rightarrow> active_slab_unused a = 0
      | Some s \<Rightarrow> s < length (slabs a) \<and> slabs a ! s = slab_size a)"

text \<open>Below the frontier: inside a slab, and in the active slab before its unused tail.\<close>

fun arena_owned :: "arena \<Rightarrow> region \<Rightarrow> bool" where
  "arena_owned a (p, n) =
     (case base p of
        None \<Rightarrow> False
      | Some s \<Rightarrow> s < length (slabs a) \<and> off p + n \<le> slabs a ! s \<and>
          (base (active_slab a) = Some s \<longrightarrow> off p + n \<le> slab_size a - active_slab_unused a))"

lemma optimize_slab_size_pos: "0 < al \<Longrightarrow> 0 < optimize_slab_size al n"
  by (auto simp: optimize_slab_size_def Let_def)

lemma arena_inv_new: "0 < al \<Longrightarrow> arena_inv (new_arena al n)"
  by (simp add: arena_inv_def new_arena_def null_def optimize_slab_size_pos)

lemmas arena_defs = arena_allocate_def arena_allocate_slab_def slabify_def Let_def ptr_add_def

lemma arena_inv_serve [inv_intros]:
  "arena_inv a \<Longrightarrow> arena_serve a r = (p, a') \<Longrightarrow> arena_inv a'"
  by (cases r) (auto simp: arena_inv_def arena_defs nth_append split: if_splits option.splits)

lemma arena_serve_owned:
  "arena_inv a \<Longrightarrow> arena_serve a r = (p, a') \<Longrightarrow> 0 < req_len r \<Longrightarrow> arena_owned a' (p, req_len r)"
  by (cases r)
    (auto simp: arena_inv_def arena_defs nth_append
      split: if_splits option.splits)

lemma arena_serve_owned_mono:
  "arena_inv a \<Longrightarrow> arena_serve a r = (p, a') \<Longrightarrow> arena_owned a x \<Longrightarrow> arena_owned a' x"
  by (cases r; cases x)
    (auto simp: arena_inv_def arena_defs nth_append
      split: if_splits option.splits)

lemma arena_serve_fresh:
  "arena_inv a \<Longrightarrow> arena_serve a r = (p, a') \<Longrightarrow> arena_owned a x \<Longrightarrow> \<not> overlap x (p, req_len r)"
  by (cases r; cases x)
    (auto simp: arena_inv_def arena_defs nth_append
      split: if_splits option.splits)

interpretation arena_alloc: allocator arena_serve req_len arena_owned arena_inv
  by unfold_locales
    (fact arena_inv_serve arena_serve_owned arena_serve_owned_mono arena_serve_fresh)+

section \<open>Properties\<close>

lemma round_up_multiple:
  assumes "0 < u" "s mod u \<noteq> (0 :: nat)"
  shows "s < (1 + s div u) * u \<and> (1 + s div u) * u < s + u"
proof -
  have "s mod u < u" using assms(1) by simp
  moreover have "s div u * u + s mod u = s" by (rule div_mult_mod_eq)
  ultimately show ?thesis using assms(2) by (simp only: distrib_right mult_1) linarith
qed

lemma round_up_multiple_le:
  assumes "u dvd m" "s \<le> m" "s mod u \<noteq> (0 :: nat)"
  shows "(1 + s div u) * u \<le> m"
proof -
  obtain k where m: "m = u * k" using assms(1) by (rule dvdE)
  have "0 < u" "s \<noteq> m" using assms(2,3) m by (auto intro: gr0I)
  then have "s div u < k" using assms(2) m by (simp add: div_less_iff_less_mult mult.commute)
  then have "(1 + s div u) * u \<le> k * u" by (intro mult_right_mono) auto
  then show ?thesis by (simp add: m mult.commute)
qed

text \<open>Whatever sequence of requests an arena serves, the regions it hands out are pairwise
  disjoint, and each non-empty one lies inside one of the slabs.\<close>
theorem arena_regions_disjoint:
  assumes "0 < align_unit"
    and "alloc_run arena_serve req_len (new_arena align_unit n) rs = (regs, a)"
  shows "sorted_wrt (\<lambda>x y. \<not> overlap x y) regs \<and>
    list_all (\<lambda>(p, k). k = 0 \<or>
      (\<exists>s < length (slabs a). base p = Some s \<and> off p + k \<le> slabs a ! s)) regs"
proof
  note new = arena_inv_new [OF assms(1), of n]
  show "sorted_wrt (\<lambda>x y. \<not> overlap x y) regs"
    by (rule arena_alloc.run_disjoint [OF new assms(2)])
  show "list_all (\<lambda>(p, k). k = 0 \<or>
      (\<exists>s < length (slabs a). base p = Some s \<and> off p + k \<le> slabs a ! s)) regs"
    using arena_alloc.run_owned [OF new assms(2)]
    by (fastforce simp: list_all_iff split: option.splits)
qed

text \<open>A small request, one that opens a second slab, a dedicated slab and a large one.\<close>
theorem arena_regions_disjoint_witness:
  "let regs = fst (alloc_run arena_serve req_len (new_arena 16 4096)
      [Allocate 10, Allocate 20, Allocate 4090, Allocate_Slab 5, Allocate 5000])
   in map (\<lambda>(p, k). (base p, off p, k)) regs =
        [(Some 0, 0, 10), (Some 0, 10, 20), (Some 1, 0, 4090), (Some 2, 0, 5), (Some 3, 0, 5000)] \<and>
      sorted_wrt (\<lambda>x y. \<not> overlap x y) regs"
proof -
  let ?run = "alloc_run arena_serve req_len (new_arena 16 4096)
      [Allocate 10, Allocate 20, Allocate 4090, Allocate_Slab 5, Allocate 5000]"
  have "?run = (fst ?run, snd ?run)" by simp
  from arena_regions_disjoint [OF _ this]
  have "sorted_wrt (\<lambda>x y. \<not> overlap x y) (fst ?run)" by simp
  then show ?thesis
    by (simp add: Let_def)
      (simp add: arena_defs new_arena_def null_def optimize_slab_size_def)
qed

text \<open>The counters of an arena move with the memory it obtains, except that opening a new
  active slab counts the unused tail of the previous one a second time: \<open>used + unused\<close> exceeds
  the size by the sum of all abandoned tails, against the header, which says that unused memory of
  inactive slabs is included (once).\<close>
theorem arena_unused_counts_tails_twice:
  assumes "arena_inv a" and "arena_allocate a n = (p, a')"
  shows "used a' + unused a' + total_size a =
    used a + unused a + total_size a' +
      (if n < slab_size a \<and> active_slab_unused a < n then active_slab_unused a else 0)"
  using assms by (auto simp: arena_defs arena_inv_def split: if_splits option.splits)

text \<open>10 bytes and then 4090 bytes: 8192 bytes obtained, 4100 used, but 8178 reported unused.\<close>
theorem arena_unused_counts_tails_twice_witness:
  "let a = snd (arena_allocate (new_arena 16 4096) 10); a' = snd (arena_allocate a 4090) in
   total_size a' = 8192 \<and> used a' = 4100 \<and> unused a' = 8178 \<and>
   used a' + unused a' + total_size a = used a + unused a + total_size a' + 4086"
proof -
  let ?a = "snd (arena_allocate (new_arena 16 4096) 10)"
  have inv: "arena_inv ?a"
    using arena_inv_serve [OF arena_inv_new, of 16 4096 "Allocate 10"]
    by (cases "arena_allocate (new_arena 16 4096) 10") simp
  have "arena_allocate ?a 4090 =
      (fst (arena_allocate ?a 4090), snd (arena_allocate ?a 4090))" by simp
  from arena_unused_counts_tails_twice [OF inv this] show ?thesis
    by (simp add: Let_def) (simp add: arena_defs new_arena_def null_def optimize_slab_size_def)
qed

text \<open>In every run of an arena both byte counters stay within twice the memory obtained from
  the system, so they do not wrap while that is below \<open>2^63\<close>, and they never under-count:
  \<open>unused\<close> covers the tail of the active slab that \<open>allocate\<close> subtracts from it.\<close>
theorem arena_counters_bounded:
  assumes "0 < align_unit"
    and "alloc_run arena_serve req_len (new_arena align_unit n) rs = (regs, a)"
  shows "used a + unused a \<le> 2 * total_size a \<and> active_slab_unused a \<le> unused a"
  using arena_alloc.run_owned [OF arena_inv_new [OF assms(1)] assms(2)]
  by (simp add: arena_inv_def)

theorem arena_counters_bounded_witness:
  "let a = snd (alloc_run arena_serve req_len (new_arena 16 4096) [Allocate 10, Allocate 4090])
   in used a + unused a \<le> 2 * total_size a \<and> total_size a = 8192"
proof -
  let ?run = "alloc_run arena_serve req_len (new_arena 16 4096) [Allocate 10, Allocate 4090]"
  have "?run = (fst ?run, snd ?run)" by simp
  from arena_counters_bounded [OF _ this] show ?thesis
    by (simp add: Let_def) (simp add: arena_defs new_arena_def null_def optimize_slab_size_def)
qed

text \<open>The slab size in use is a positive multiple of the alignment unit between 4096 and
  \<open>2^31\<close>, and an aligned request in that range is taken as it is, for every alignment that
  divides \<open>2^31\<close> (a power of two, as the language requires).\<close>
theorem optimize_slab_size_bounds:
  assumes "align_unit dvd 2 ^ 31"
  shows "align_unit dvd optimize_slab_size align_unit n \<and>
    4096 \<le> optimize_slab_size align_unit n \<and> optimize_slab_size align_unit n \<le> 2 ^ 31 \<and>
    optimize_slab_size align_unit n < max 4096 (min n (2 ^ 31)) + align_unit"
proof -
  have pos: "0 < align_unit" using assms by (cases align_unit) auto
  define s where "s = min (max n 4096) (2 ^ 31)"
  have s: "4096 \<le> s" "s \<le> 2 ^ 31" "s \<le> max 4096 (min n (2 ^ 31))" by (auto simp: s_def)
  have opt: "optimize_slab_size align_unit n =
      (if s mod align_unit \<noteq> 0 then (1 + s div align_unit) * align_unit else s)"
    by (simp only: optimize_slab_size_def Let_def s_def)
  show ?thesis
  proof (cases "s mod align_unit = 0")
    case True
    then show ?thesis using s pos unfolding opt by (simp add: mod_eq_0_iff_dvd)
  next
    case False
    from round_up_multiple [OF pos False] round_up_multiple_le [OF assms s(2) False] s
    show ?thesis unfolding opt using False by simp
  qed
qed

theorem optimize_slab_size_bounds_witness:
  "16 dvd optimize_slab_size 16 5000 \<and> optimize_slab_size 16 5000 = 5008"
  using optimize_slab_size_bounds [of 16 5000] by (simp add: optimize_slab_size_def)

end
