(* ===== verification/ConcArena.thy ===== *)
theory ConcArena
  imports Arena
begin

text \<open>
  \<open>mousedb::arena::ConcurrentArena\<close> of \<open>lib_database/src/arena.{hpp,cpp}\<close>: an arena behind
  a spin lock with per-CPU shards, each behind its own, from which small requests are carved.
  A call of \<open>allocate\<close> is broken into the steps between its lock operations; a step only touches
  data protected by the locks its thread holds, except the two relaxed atomic reads of the code.
\<close>

section \<open>Number of shards\<close>

function smear :: "nat \<Rightarrow> u64 \<Rightarrow> u64" where
  "smear i n = (if 0 < i \<and> i < 64 then smear (i * 2) (n OR drop_bit i n) else n)"
  by pat_completeness auto
termination by (relation "measure (\<lambda>(i, n). 64 - i)") auto

declare smear.simps [simp del]

definition round_up_to_power_of_two :: "u64 \<Rightarrow> u64" where
  "round_up_to_power_of_two n = (if n = 0 then 1 else smear 1 (n - 1) + 1)"

definition covers :: "u64 \<Rightarrow> nat \<Rightarrow> u64 \<Rightarrow> bool" where
  "covers n w x \<longleftrightarrow> (\<forall>i. bit x i \<longleftrightarrow> (\<exists>j. i \<le> j \<and> j < i + w \<and> bit n j))"

lemma covers_step:
  assumes "covers n w x"
  shows "covers n (w * 2) (x OR drop_bit w x)"
  unfolding covers_def
proof
  fix i
  have "bit (x OR drop_bit w x) i \<longleftrightarrow>
      (\<exists>j. i \<le> j \<and> j < i + w \<and> bit n j) \<or> (\<exists>j. i + w \<le> j \<and> j < i + w + w \<and> bit n j)"
    using assms by (simp add: covers_def bit_or_iff bit_drop_bit_eq add.commute)
  also have "\<dots> \<longleftrightarrow> (\<exists>j. i \<le> j \<and> j < i + w * 2 \<and> bit n j)"
  proof
    assume "\<exists>j. i \<le> j \<and> j < i + w * 2 \<and> bit n j"
    then obtain j where "i \<le> j" "j < i + w * 2" "bit n j" by blast
    then show "(\<exists>j. i \<le> j \<and> j < i + w \<and> bit n j) \<or> (\<exists>j. i + w \<le> j \<and> j < i + w + w \<and> bit n j)"
      by (cases "j < i + w") auto
  next
    assume "(\<exists>j. i \<le> j \<and> j < i + w \<and> bit n j) \<or> (\<exists>j. i + w \<le> j \<and> j < i + w + w \<and> bit n j)"
    then consider (low) j where "i \<le> j" "j < i + w" "bit n j"
      | (high) j where "i + w \<le> j" "j < i + w + w" "bit n j" by blast
    then show "\<exists>j. i \<le> j \<and> j < i + w * 2 \<and> bit n j"
    proof cases
      case (low j)
      then show ?thesis by (intro exI [of _ j]) simp
    next
      case (high j)
      then show ?thesis by (intro exI [of _ j]) simp
    qed
  qed
  finally show "bit (x OR drop_bit w x) i \<longleftrightarrow> (\<exists>j. i \<le> j \<and> j < i + w * 2 \<and> bit n j)" .
qed

lemma covers_one: "covers n 1 n"
  unfolding covers_def by (metis Suc_eq_plus1 le_less_Suc_eq order_refl lessI)

lemma covers_smear: "covers n i x \<Longrightarrow> 0 < i \<Longrightarrow> \<exists>w \<ge> 64. covers n w (smear i x)"
proof (induction i x rule: smear.induct)
  case (1 i x)
  show ?case
  proof (cases "i < 64")
    case True
    with 1 show ?thesis by (simp add: smear.simps [of i] covers_step)
  next
    case False
    with 1 show ?thesis by (intro exI [of _ i]) (simp add: smear.simps [of i])
  qed
qed

lemma bit_smear: "bit (smear 1 n) i \<longleftrightarrow> (\<exists>j \<ge> i. bit n j)"
proof -
  obtain w where "64 \<le> w" "covers n w (smear 1 n)"
    using covers_smear [OF covers_one] by auto
  moreover have "j < i + w" if "bit n j" for j
    using bit_imp_le_length [OF that] \<open>64 \<le> w\<close> by simp
  ultimately show ?thesis unfolding covers_def by blast
qed

lemma smear_mask:
  assumes "2 ^ k \<le> unat n" "unat n < 2 ^ Suc k"
  shows "smear 1 n = mask (Suc k)"
proof (rule bit_word_eqI)
  fix i
  assume "i < LENGTH(64)"
  have k: "k < 64"
    using order.strict_trans1 [OF assms(1) unsigned_less [of n]]
      power_strict_increasing_iff [of "2 :: nat" k 64] by simp
  have top: "bit n k"
  proof -
    have "unat n div 2 ^ k = 1" using assms by (simp add: div_nat_eqI)
    then show ?thesis by (simp add: bit_word_unat)
  qed
  have above: "\<not> bit n j" if "k < j" for j
  proof -
    have "unat n < 2 ^ j" using assms(2) that by (meson Suc_leI less_le_trans one_le_numeral power_increasing)
    then have "unat n div 2 ^ j = 0" by simp
    then show ?thesis by (simp add: bit_word_unat)
  qed
  have "(\<exists>j \<ge> i. bit n j) \<longleftrightarrow> i \<le> k"
    using top above by (meson le_trans linorder_not_less)
  then show "bit (smear 1 n) i \<longleftrightarrow> bit (mask (Suc k) :: u64) i"
    using \<open>i < LENGTH(64)\<close> by (simp only: bit_smear bit_mask_iff possible_bit_word less_Suc_eq_le simp_thms)
qed

lemma round_up_unat:
  assumes "0 < n" "unat n \<le> 2 ^ 63"
  shows "\<exists>k \<le> 63. unat (round_up_to_power_of_two n) = 2 ^ k \<and> unat n \<le> 2 ^ k \<and> 2 ^ k < 2 * unat n"
proof (cases "n = 1")
  case True
  moreover have "smear 1 0 = 0" by (rule bit_word_eqI) (simp only: bit_smear bit_0_eq, simp)
  ultimately show ?thesis by (intro exI [of _ 0]) (simp add: round_up_to_power_of_two_def)
next
  case False
  have n: "unat (n - 1) = unat n - 1" 
    using assms(1) by (intro unat_minus_one) auto
  have "unat n = unat (1 :: u64) \<Longrightarrow> n = 1" by (rule unsigned_word_eqI)
  with False assms(1) have "unat n \<noteq> 1" "unat n \<noteq> 0" by (auto simp: unat_eq_0)
  then have pos: "1 \<le> unat (n - 1)" using n by simp
  obtain k where k: "2 ^ k \<le> unat (n - 1)" "unat (n - 1) < 2 ^ Suc k"
    using ex_power_ivl1 [of 2 "unat (n - 1)"] pos by auto
  have "k < 63"
    using order.strict_trans1 [OF k(1), of "2 ^ 63"] n assms(2) pos
      power_strict_increasing_iff [of "2 :: nat" k 63] by simp
  have "round_up_to_power_of_two n = mask (Suc k) + 1"
    using assms(1) smear_mask [OF k] by (simp add: round_up_to_power_of_two_def)
  then have "round_up_to_power_of_two n = 2 ^ Suc k" by (simp add: mask_eq_exp_minus_1)
  moreover have "unat (2 ^ Suc k :: u64) = 2 ^ Suc k"
    using \<open>k < 63\<close> by (intro unat_exp) simp
  ultimately show ?thesis
    using k n \<open>k < 63\<close> by (intro exI [of _ "Suc k"]) auto
qed

section \<open>State\<close>

text \<open>
  A thread's position inside \<open>allocate\<close>, with the requested size, the shard it works on and,
  in \<open>Carve\<close>, the local variable \<open>shard_unused\<close>. A lock is the thread that holds it.
\<close>

datatype alloc_pc =
    Ready
  | Try_Arena nat
  | Want_Arena nat
  | In_Arena nat
  | Try_Shard nat
  | Want_Shard nat nat
  | In_Shard nat nat
  | Want_Refill nat nat
  | In_Refill nat nat
  | Carve nat nat nat

record shard =
  sh_begin :: ptr
  sh_unused :: nat
  sh_lock :: "nat option"

record conc_arena =
  slab_slice_size :: nat
  c_arena :: arena
  arena_lock :: "nat option"
  c_shards :: "shard list"
  c_used :: nat
  c_unused :: nat
  c_size :: nat
  c_cpu_id :: "nat \<Rightarrow> nat"
  c_pc :: "nat \<Rightarrow> alloc_pc"
  c_issued :: "region list"

text \<open>
  The constructor; \<open>num_cpus\<close> is \<open>std::thread::hardware_concurrency()\<close> and \<open>cpu_ids\<close>
  the threads' \<open>thread_local\<close> variable \<open>cpu_id_\<close>, which all arenas share.
\<close>

definition new_conc_arena :: "nat \<Rightarrow> u32 \<Rightarrow> (nat \<Rightarrow> nat) \<Rightarrow> nat \<Rightarrow> conc_arena" where
  "new_conc_arena align_unit num_cpus cpu_ids n =
     \<lparr>slab_slice_size = min (128 * 1024) (n div 8),
      c_arena = new_arena align_unit n, arena_lock = None,
      c_shards = replicate (unat (round_up_to_power_of_two (ucast num_cpus)))
        \<lparr>sh_begin = null, sh_unused = 0, sh_lock = None\<rparr>,
      c_used = 0, c_unused = 0, c_size = 0,
      c_cpu_id = cpu_ids, c_pc = (\<lambda>_. Ready), c_issued = []\<rparr>"

definition get_shard :: "conc_arena \<Rightarrow> nat \<Rightarrow> nat" where
  "get_shard c cpu_id = cpu_id AND (length (c_shards c) - 1)"

text \<open>\<open>cpu_id\<close> is the processor number that the system reports, or the hash of the thread.\<close>

definition reset_shard :: "conc_arena \<Rightarrow> nat \<Rightarrow> nat \<Rightarrow> nat \<times> conc_arena" where
  "reset_shard c t cpu_id =
     (get_shard c cpu_id, c\<lparr>c_cpu_id := (c_cpu_id c)(t := cpu_id OR length (c_shards c))\<rparr>)"

definition update_counters :: "conc_arena \<Rightarrow> conc_arena" where
  "update_counters c =
     c\<lparr>c_used := used (c_arena c), c_unused := unused (c_arena c), c_size := total_size (c_arena c)\<rparr>"

definition goto :: "conc_arena \<Rightarrow> nat \<Rightarrow> alloc_pc \<Rightarrow> conc_arena" where
  "goto c t q = c\<lparr>c_pc := (c_pc c)(t := q)\<rparr>"

definition set_shard :: "conc_arena \<Rightarrow> nat \<Rightarrow> shard \<Rightarrow> conc_arena" where
  "set_shard c i s = c\<lparr>c_shards := (c_shards c)[i := s]\<rparr>"

definition set_lock :: "conc_arena \<Rightarrow> nat \<Rightarrow> nat option \<Rightarrow> conc_arena" where
  "set_lock c i l = set_shard c i ((c_shards c ! i)\<lparr>sh_lock := l\<rparr>)"

definition issue :: "conc_arena \<Rightarrow> region \<Rightarrow> conc_arena" where
  "issue c x = c\<lparr>c_issued := c_issued c @ [x]\<rparr>"

text \<open>The first test of \<open>allocate\<close>: where a call goes before it takes any lock.\<close>

definition alloc_enter :: "conc_arena \<Rightarrow> nat \<Rightarrow> nat \<Rightarrow> alloc_pc" where
  "alloc_enter c t n =
     (if n > slab_slice_size c div 4 then Want_Arena n
      else if c_cpu_id c t = 0 \<and> sh_unused (c_shards c ! get_shard c 0) = 0 then Try_Arena n
      else Try_Shard n)"

text \<open>How much a shard asks of the arena: the remainder of the active slab if it is near a slice.\<close>

definition refill_size :: "conc_arena \<Rightarrow> nat" where
  "refill_size c =
     (if c_unused c \<ge> slab_slice_size c div 2 \<and> c_unused c < slab_slice_size c * 2
      then c_unused c else slab_slice_size c)"

section \<open>Steps\<close>

inductive conc_step :: "conc_arena \<Rightarrow> nat \<Rightarrow> conc_arena \<Rightarrow> bool" where
  enter: "c_pc c t = Ready \<Longrightarrow> conc_step c t (goto c t (alloc_enter c t n))"
| try_arena_ok: "c_pc c t = Try_Arena n \<Longrightarrow> arena_lock c = None \<Longrightarrow>
     conc_step c t (goto (c\<lparr>arena_lock := Some t\<rparr>) t (In_Arena n))"
| try_arena_busy: "c_pc c t = Try_Arena n \<Longrightarrow> arena_lock c \<noteq> None \<Longrightarrow>
     conc_step c t (goto c t (Try_Shard n))"
| lock_arena: "c_pc c t = Want_Arena n \<Longrightarrow> arena_lock c = None \<Longrightarrow>
     conc_step c t (goto (c\<lparr>arena_lock := Some t\<rparr>) t (In_Arena n))"
| from_arena: "c_pc c t = In_Arena n \<Longrightarrow> arena_allocate (c_arena c) n = (p, a) \<Longrightarrow>
     conc_step c t
       (issue (goto ((update_counters (c\<lparr>c_arena := a\<rparr>))\<lparr>arena_lock := None\<rparr>) t Ready) (p, n))"
| try_shard_ok: "c_pc c t = Try_Shard n \<Longrightarrow> i = get_shard c (c_cpu_id c t) \<Longrightarrow>
     sh_lock (c_shards c ! i) = None \<Longrightarrow>
     conc_step c t (goto (set_lock c i (Some t)) t (In_Shard n i))"
| try_shard_busy: "c_pc c t = Try_Shard n \<Longrightarrow> i = get_shard c (c_cpu_id c t) \<Longrightarrow>
     sh_lock (c_shards c ! i) \<noteq> None \<Longrightarrow> reset_shard c t cpu = (j, c') \<Longrightarrow>
     conc_step c t (goto c' t (Want_Shard n j))"
| lock_shard: "c_pc c t = Want_Shard n i \<Longrightarrow> sh_lock (c_shards c ! i) = None \<Longrightarrow>
     conc_step c t (goto (set_lock c i (Some t)) t (In_Shard n i))"
| read_shard: "c_pc c t = In_Shard n i \<Longrightarrow>
     conc_step c t
       (goto c t (if sh_unused (c_shards c ! i) < n then Want_Refill n i
                  else Carve n i (sh_unused (c_shards c ! i))))"
| lock_refill: "c_pc c t = Want_Refill n i \<Longrightarrow> arena_lock c = None \<Longrightarrow>
     conc_step c t (goto (c\<lparr>arena_lock := Some t\<rparr>) t (In_Refill n i))"
| refill: "c_pc c t = In_Refill n i \<Longrightarrow> arena_allocate (c_arena c) (refill_size c) = (p, a) \<Longrightarrow>
     conc_step c t
       (goto ((update_counters ((set_shard c i ((c_shards c ! i)\<lparr>sh_begin := p\<rparr>))\<lparr>c_arena := a\<rparr>))
            \<lparr>arena_lock := None\<rparr>) t (Carve n i (refill_size c)))"
| carve: "c_pc c t = Carve n i k \<Longrightarrow> s = c_shards c ! i \<Longrightarrow>
     conc_step c t
       (issue (goto (set_shard c i
            (s\<lparr>sh_unused := k - n, sh_begin := ptr_add (sh_begin s) n, sh_lock := None\<rparr>)) t Ready)
          (sh_begin s, n))"

inductive_cases conc_stepE: "conc_step c t c'"

inductive conc_reach :: "conc_arena \<Rightarrow> conc_arena \<Rightarrow> bool" for c0 where
  init: "conc_reach c0 c0"
| step: "conc_reach c0 c \<Longrightarrow> conc_step c t c' \<Longrightarrow> conc_reach c0 c'"

section \<open>Invariants\<close>

text \<open>Who holds which lock follows from the threads' positions.\<close>

fun holds_arena :: "alloc_pc \<Rightarrow> bool" where
  "holds_arena (In_Arena n) = True"
| "holds_arena (In_Refill n i) = True"
| "holds_arena _ = False"

fun holds_shard :: "alloc_pc \<Rightarrow> nat option" where
  "holds_shard (In_Shard n i) = Some i"
| "holds_shard (Want_Refill n i) = Some i"
| "holds_shard (In_Refill n i) = Some i"
| "holds_shard (Carve n i k) = Some i"
| "holds_shard _ = None"

text \<open>The sizes in a thread's position: only small requests go to a shard.\<close>

fun pc_sizes :: "nat \<Rightarrow> nat \<Rightarrow> alloc_pc \<Rightarrow> bool" where
  "pc_sizes sl m (Try_Arena n) \<longleftrightarrow> n \<le> sl div 4"
| "pc_sizes sl m (Try_Shard n) \<longleftrightarrow> n \<le> sl div 4"
| "pc_sizes sl m (Want_Shard n i) \<longleftrightarrow> n \<le> sl div 4 \<and> i < m"
| "pc_sizes sl m (In_Shard n i) \<longleftrightarrow> n \<le> sl div 4 \<and> i < m"
| "pc_sizes sl m (Want_Refill n i) \<longleftrightarrow> n \<le> sl div 4 \<and> i < m"
| "pc_sizes sl m (In_Refill n i) \<longleftrightarrow> n \<le> sl div 4 \<and> i < m"
| "pc_sizes sl m (Carve n i k) \<longleftrightarrow> n \<le> k \<and> i < m"
| "pc_sizes sl m _ \<longleftrightarrow> True"

definition lock_inv :: "conc_arena \<Rightarrow> bool" where
  "lock_inv c \<longleftrightarrow>
     c_shards c \<noteq> [] \<and>
     (\<forall>t. pc_sizes (slab_slice_size c) (length (c_shards c)) (c_pc c t)) \<and>
     (\<forall>t. arena_lock c = Some t \<longleftrightarrow> holds_arena (c_pc c t)) \<and>
     (\<forall>i < length (c_shards c). \<forall>t.
        sh_lock (c_shards c ! i) = Some t \<longleftrightarrow> holds_shard (c_pc c t) = Some i)"

lemma get_shard_less: "c_shards c \<noteq> [] \<Longrightarrow> get_shard c cpu < length (c_shards c)"
  using nat_and_le [of cpu "length (c_shards c) - 1"]
  by (cases "c_shards c") (auto simp: get_shard_def le_less_trans)

lemma refill_size_enough: "n \<le> slab_slice_size c div 4 \<Longrightarrow> n \<le> refill_size c"
  by (auto simp: refill_size_def)

lemmas conc_defs = goto_def set_shard_def set_lock_def issue_def update_counters_def reset_shard_def

lemma lock_inv_init: "lock_inv (new_conc_arena al ncpu ids n)"
proof -
  have "round_up_to_power_of_two (ucast ncpu) \<noteq> 0"
  proof (cases "ncpu = 0")
    case True
    then show ?thesis by (simp add: round_up_to_power_of_two_def)
  next
    case False
    have u: "unat (ucast ncpu :: u64) = unat ncpu" by (rule unat_ucast_up) simp
    then have "0 < (ucast ncpu :: u64)" "unat (ucast ncpu :: u64) \<le> 2 ^ 63"
      using False unat_less_exp [of ncpu] by (auto simp: word_less_nat_alt unat_eq_0 intro: gr0I)
    from round_up_unat [OF this] show ?thesis by auto
  qed
  then show ?thesis by (auto simp: lock_inv_def new_conc_arena_def unat_eq_0)
qed

lemma lock_inv_arena: "lock_inv c \<Longrightarrow> arena_lock c = Some t \<longleftrightarrow> holds_arena (c_pc c t)"
  by (simp only: lock_inv_def)

lemma lock_inv_shard:
  "lock_inv c \<Longrightarrow> i < length (c_shards c) \<Longrightarrow>
    sh_lock (c_shards c ! i) = Some t \<longleftrightarrow> holds_shard (c_pc c t) = Some i"
  by (simp only: lock_inv_def)

lemma pc_sizes_enter:
  "c_shards c \<noteq> [] \<Longrightarrow> pc_sizes (slab_slice_size c) (length (c_shards c)) (alloc_enter c t n)"
  by (simp add: alloc_enter_def)

lemma holds_enter [simp]:
  "holds_arena (alloc_enter c t n) = False" "holds_shard (alloc_enter c t n) = None"
  by (simp_all add: alloc_enter_def)

lemma lock_inv_step [inv_intros]:
  assumes "conc_step c t c'" "lock_inv c"
  shows "lock_inv c'"
proof -
  have sz: "pc_sizes (slab_slice_size c) (length (c_shards c)) (c_pc c t)"
    using assms(2) by (simp add: lock_inv_def)
  have al: "holds_arena (c_pc c t) \<Longrightarrow> \<forall>u. holds_arena (c_pc c u) \<longrightarrow> u = t"
    using assms(2) by (metis lock_inv_def option.inject)
  have sl: "holds_shard (c_pc c t) = Some i \<Longrightarrow> i < length (c_shards c) \<Longrightarrow>
      \<forall>u. holds_shard (c_pc c u) = Some i \<longrightarrow> u = t" for i
    using assms(2) by (metis lock_inv_def option.inject)
  from assms(1) show ?thesis
  proof (cases rule: conc_step.cases)
    case (enter n)
    then show ?thesis using sz assms(2) pc_sizes_enter [of c t n]
      by (auto simp: lock_inv_def conc_defs)
  next
    case (try_arena_ok n)
    then show ?thesis using sz assms(2) by (auto simp: lock_inv_def conc_defs)
  next
    case (try_arena_busy n)
    then show ?thesis using sz assms(2) by (auto simp: lock_inv_def conc_defs)
  next
    case (lock_arena n)
    then show ?thesis using sz assms(2) by (auto simp: lock_inv_def conc_defs)
  next
    case (from_arena n p a)
    then show ?thesis using al sz assms(2) by (auto simp: lock_inv_def conc_defs)
  next
    case (try_shard_ok n i)
    then show ?thesis using sz assms(2) get_shard_less [of c "c_cpu_id c t"]
      by (auto simp: lock_inv_def conc_defs nth_list_update)
  next
    case (try_shard_busy n i cpu j c'')
    then show ?thesis using sz assms(2) get_shard_less [of c cpu]
      by (auto simp: lock_inv_def conc_defs)
  next
    case (lock_shard n i)
    then show ?thesis using sz assms(2) by (auto simp: lock_inv_def conc_defs nth_list_update)
  next
    case (read_shard n i)
    then show ?thesis using sz assms(2) by (auto simp: lock_inv_def conc_defs)
  next
    case (lock_refill n i)
    then show ?thesis using sz assms(2) by (auto simp: lock_inv_def conc_defs)
  next
    case (refill n i p a)
    then show ?thesis using al sz assms(2) refill_size_enough [of n c]
      by (auto simp: lock_inv_def conc_defs nth_list_update)
  next
    case (carve n i k s)
    then show ?thesis using sl [of i] sz assms(2) by (auto simp: lock_inv_def conc_defs nth_list_update)
  qed
qed

text \<open>
  Memory: beside what was issued, each shard has a reserve. While the holder of its lock stands
  before \<open>Carve\<close>, the reserve's length is the thread's local variable, else the shard's counter.
\<close>

definition reserve :: "conc_arena \<Rightarrow> nat \<Rightarrow> region" where
  "reserve c i =
     (let s = c_shards c ! i in
      (sh_begin s,
       case sh_lock s of
         None \<Rightarrow> sh_unused s
       | Some t \<Rightarrow> (case c_pc c t of Carve n j k \<Rightarrow> k | _ \<Rightarrow> sh_unused s)))"

definition covered :: "arena \<Rightarrow> region \<Rightarrow> bool" where
  "covered a x \<longleftrightarrow> 0 < snd x \<longrightarrow> arena_owned a x"

definition mem_inv :: "conc_arena \<Rightarrow> bool" where
  "mem_inv c \<longleftrightarrow>
     arena_inv (c_arena c) \<and> sorted_wrt (\<lambda>x y. \<not> overlap x y) (c_issued c) \<and>
     (\<forall>x \<in> set (c_issued c). covered (c_arena c) x \<and>
        (\<forall>i < length (c_shards c). \<not> overlap x (reserve c i))) \<and>
     (\<forall>i < length (c_shards c). covered (c_arena c) (reserve c i) \<and>
        (\<forall>j < length (c_shards c). j \<noteq> i \<longrightarrow> \<not> overlap (reserve c j) (reserve c i)))"

text \<open>The counters that \<open>used()\<close>, \<open>unused()\<close> and \<open>size()\<close> read are those of the arena.\<close>

definition counters_inv :: "conc_arena \<Rightarrow> bool" where
  "counters_inv c \<longleftrightarrow>
     c_used c = used (c_arena c) \<and> c_unused c = unused (c_arena c) \<and>
     c_size c = total_size (c_arena c)"

lemma overlap_shrink:
  assumes "n \<le> k"
  shows "overlap x (b, n) \<Longrightarrow> overlap x (b, k)"
    and "overlap x (ptr_add b n, k - n) \<Longrightarrow> overlap x (b, k)"
proof -
  obtain q m where x: "x = (q, m)" by (cases x)
  show "overlap x (b, n) \<Longrightarrow> overlap x (b, k)" using assms unfolding x by (simp, elim conjE, simp)
  show "overlap x (ptr_add b n, k - n) \<Longrightarrow> overlap x (b, k)"
    using assms unfolding x by (simp add: ptr_add_def, elim conjE, simp)
qed

lemma overlap_shrink':
  assumes "n \<le> k"
  shows "overlap (b, n) x \<Longrightarrow> overlap (b, k) x"
    and "overlap (ptr_add b n, k - n) x \<Longrightarrow> overlap (b, k) x"
  using overlap_shrink [OF assms] by (simp_all add: overlap_sym)

lemma overlap_split: "\<not> overlap (b, n) (ptr_add b n, m)"
  by (simp add: ptr_add_def)

lemma overlap_empty [simp]: "snd x = 0 \<Longrightarrow> \<not> overlap x y" "snd y = 0 \<Longrightarrow> \<not> overlap x y"
  by (cases x; cases y; simp)+

lemma covered_shrink:
  assumes "covered a (b, k)" "n \<le> k"
  shows "covered a (b, n) \<and> covered a (ptr_add b n, k - n)"
  using assms by (auto simp: covered_def ptr_add_def split: option.splits)

lemma covered_allocate:
  assumes "arena_inv a" "arena_allocate a n = (p, a')"
  shows "arena_inv a'" and "covered a' (p, n)"
    and "\<And>x. covered a x \<Longrightarrow> covered a' x" and "\<And>x. covered a x \<Longrightarrow> \<not> overlap x (p, n)"
    and "\<And>x. covered a x \<Longrightarrow> \<not> overlap (p, n) x"
proof -
  have serve: "arena_serve a (Allocate n) = (p, a')" using assms(2) by simp
  show "arena_inv a'" using arena_alloc.inv_alloc [OF assms(1) serve] .
  show "covered a' (p, n)"
    using arena_alloc.alloc_owned [OF assms(1) serve] by (simp add: covered_def)
  show "covered a' x" if "covered a x" for x
    using that arena_alloc.owned_mono [OF assms(1) serve] by (simp add: covered_def)
  show fresh: "\<not> overlap x (p, n)" if "covered a x" for x
    using that arena_alloc.alloc_fresh [OF assms(1) serve, of x]
    by (cases "snd x = 0") (auto simp: covered_def)
  show "\<not> overlap (p, n) x" if "covered a x" for x
    using fresh [OF that] by (simp add: overlap_sym)
qed

lemma mem_inv_init: "0 < al \<Longrightarrow> mem_inv (new_conc_arena al ncpu ids n)"
  by (simp add: mem_inv_def new_conc_arena_def arena_inv_new reserve_def covered_def)

lemma mem_inv_cong:
  assumes "mem_inv c" "c_arena c' = c_arena c" "c_issued c' = c_issued c"
    and "length (c_shards c') = length (c_shards c)"
    and "\<And>i. i < length (c_shards c) \<Longrightarrow> reserve c' i = reserve c i"
  shows "mem_inv c'"
  using assms by (simp add: mem_inv_def)

lemma mem_inv_split:
  assumes "mem_inv c" and i: "i < length (c_shards c)" and nk: "n \<le> k"
    and upd: "c_arena c' = c_arena c" "length (c_shards c') = length (c_shards c)"
      "c_issued c' = c_issued c @ [(b, n)]"
    and ri: "reserve c i = (b, k)" and ri': "reserve c' i = (ptr_add b n, k - n)"
    and rj: "\<And>j. j < length (c_shards c) \<Longrightarrow> j \<noteq> i \<Longrightarrow> reserve c' j = reserve c j"
  shows "mem_inv c'"
proof -
  note inv = assms(1) [unfolded mem_inv_def]
  have apart: "\<not> overlap x (b, n)" "\<not> overlap (b, n) x"
    "\<not> overlap x (reserve c' i)" "\<not> overlap (reserve c' i) x"
    if "\<not> overlap x (reserve c i)" for x
    using that overlap_shrink [OF nk, of x] overlap_shrink' [OF nk, of _ x]
    unfolding ri ri' by (metis overlap_sym)+
  have cov: "covered (c_arena c) (b, n)" "covered (c_arena c) (reserve c' i)"
    using inv i covered_shrink [OF _ nk] unfolding ri' by (metis ri)+
  have split: "\<not> overlap (b, n) (reserve c' i)"
    unfolding ri' by (rule overlap_split)
  have r: "reserve c' j = (if j = i then reserve c' i else reserve c j)"
    if "j < length (c_shards c)" for j using rj that by simp
  have iss: "\<not> overlap x (reserve c i)" if "x \<in> set (c_issued c)" for x
    using inv i that by blast
  have oth: "\<not> overlap (reserve c j) (reserve c i)" if "j < length (c_shards c)" "j \<noteq> i" for j
    using inv i that by blast
  show ?thesis
    unfolding mem_inv_def upd
  proof (intro conjI ballI allI impI)
    show "arena_inv (c_arena c)" using inv by blast
    show "sorted_wrt (\<lambda>x y. \<not> overlap x y) (c_issued c @ [(b, n)])"
      using inv iss apart(1) by (simp add: sorted_wrt_append)
  next
    fix x
    assume x: "x \<in> set (c_issued c @ [(b, n)])"
    show "covered (c_arena c) x" using x inv cov(1) by auto
    fix j
    assume j: "j < length (c_shards c)"
    show "\<not> overlap x (reserve c' j)"
    proof (cases "j = i")
      case True
      then show ?thesis using x iss apart(3) split unfolding set_append by fastforce
    next
      case False
      have "x \<in> set (c_issued c) \<or> x = (b, n)" using x by auto
      then show ?thesis using False j inv apart(2) [OF oth [OF j False]] r [OF j] by metis
    qed
  next
    fix j
    assume j: "j < length (c_shards c)"
    show "covered (c_arena c) (reserve c' j)" using inv cov(2) j r [OF j] by (cases "j = i") auto
    fix l
    assume l: "l < length (c_shards c)" "l \<noteq> j"
    show "\<not> overlap (reserve c' l) (reserve c' j)"
      using inv oth apart(3,4) j l r [OF j] r [OF l(1)] by metis
  qed
qed

lemma reserve_lock_shard:
  assumes "sh_lock (c_shards c ! i) = None" "sh_lock (c_shards c ! j) \<noteq> Some t"
    and "j < length (c_shards c)"
  shows "reserve (goto (set_lock c i (Some t)) t (In_Shard n i)) j = reserve c j"
  using assms
  by (cases "i = j") (auto simp: reserve_def conc_defs Let_def split: option.splits)

lemma mem_inv_step [inv_intros]:
  assumes "conc_step c t c'" "lock_inv c" "mem_inv c"
  shows "mem_inv c'"
proof -
  have lock: "sh_lock (c_shards c ! i) = Some t \<longleftrightarrow> holds_shard (c_pc c t) = Some i"
    if "i < length (c_shards c)" for i
    using assms(2) that by (simp add: lock_inv_def)
  have sz: "pc_sizes (slab_slice_size c) (length (c_shards c)) (c_pc c t)"
    using assms(2) by (simp add: lock_inv_def)
  note inv = assms(3) [unfolded mem_inv_def]
  show ?thesis using assms(1)
  proof (cases rule: conc_step.cases)
    case (from_arena n p a)
    note al = covered_allocate [OF conjunct1 [OF inv] from_arena(3)]
    have "reserve c' i = reserve c i" if "i < length (c_shards c)" for i
      using from_arena lock [OF that]
      by (auto simp: reserve_def conc_defs Let_def split: option.splits)
    then show ?thesis
      using inv al from_arena by (auto simp: mem_inv_def conc_defs sorted_wrt_append)
  next
    case (refill n i p a)
    note al = covered_allocate [OF conjunct1 [OF inv] refill(3)]
    have "reserve c' j = reserve c j" if "j < length (c_shards c)" "j \<noteq> i" for j
      using refill that lock [OF that(1)]
      by (auto simp: reserve_def conc_defs Let_def split: option.splits)
    moreover have "reserve c' i = (p, refill_size c)"
      using refill sz lock [of i] by (simp add: reserve_def conc_defs Let_def)
    ultimately have "reserve c' j = (if j = i then (p, refill_size c) else reserve c j)"
      if "j < length (c_shards c)" for j using that by simp
    then show ?thesis
      using inv al refill by (auto simp: mem_inv_def conc_defs)
  next
    case (carve n i k s)
    have i: "i < length (c_shards c)" and nk: "n \<le> k" using sz carve by auto
    have ri: "reserve c i = (sh_begin s, k)"
      using carve lock [OF i] by (simp add: reserve_def Let_def)
    have ri': "reserve c' i = (ptr_add (sh_begin s) n, k - n)"
      using carve i by (simp add: reserve_def conc_defs Let_def)
    have rj: "reserve c' j = reserve c j" if "j < length (c_shards c)" "j \<noteq> i" for j
      using carve that lock [OF that(1)]
      by (auto simp: reserve_def conc_defs Let_def split: option.splits)
    have upd: "c_arena c' = c_arena c" "length (c_shards c') = length (c_shards c)"
      "c_issued c' = c_issued c @ [(sh_begin s, n)]"
      using carve by (simp_all add: conc_defs)
    show ?thesis using mem_inv_split [OF assms(3) i nk upd ri ri' rj] .
  next
    case (try_shard_ok n i)
    then show ?thesis
      using lock by (intro mem_inv_cong [OF assms(3)]) (auto simp: reserve_lock_shard, auto simp: conc_defs)
  next
    case (lock_shard n i)
    then show ?thesis
      using lock by (intro mem_inv_cong [OF assms(3)]) (auto simp: reserve_lock_shard, auto simp: conc_defs)
  qed (rule mem_inv_cong [OF assms(3)];
      use lock in \<open>auto simp: reserve_def conc_defs Let_def split: option.splits cong: alloc_pc.case_cong\<close>)+
qed

lemma counters_inv_step [inv_intros]: "conc_step c t c' \<Longrightarrow> counters_inv c \<Longrightarrow> counters_inv c'"
  by (erule conc_step.cases) (auto simp: counters_inv_def conc_defs)

lemma conc_reach_inv:
  assumes "conc_reach (new_conc_arena al ncpu ids n) c" "0 < al"
  shows "lock_inv c \<and> mem_inv c \<and> counters_inv c"
  using assms
proof (induction rule: conc_reach.induct)
  case init
  then show ?case
    by (simp add: lock_inv_init mem_inv_init) (simp add: counters_inv_def new_conc_arena_def new_arena_def)
qed (auto intro: inv_intros)

lemma conc_step_shards: "conc_step c t c' \<Longrightarrow> length (c_shards c') = length (c_shards c)"
  by (erule conc_step.cases) (auto simp: conc_defs)

lemma conc_reach_shards: "conc_reach c0 c \<Longrightarrow> length (c_shards c) = length (c_shards c0)"
  by (induction rule: conc_reach.induct) (auto simp: conc_step_shards)

lemma new_shards:
  "\<exists>k \<le> 63. length (c_shards (new_conc_arena al ncpu ids n)) = 2 ^ k \<and>
    max 1 (unat ncpu) \<le> 2 ^ k \<and> 2 ^ k < 2 * max 1 (unat ncpu)"
proof (cases "ncpu = 0")
  case True
  then show ?thesis
    by (intro exI [of _ 0]) (simp add: new_conc_arena_def round_up_to_power_of_two_def)
next
  case False
  have u: "unat (ucast ncpu :: u64) = unat ncpu" by (rule unat_ucast_up) simp
  have pos: "0 < unat ncpu" using False by (auto simp: unat_eq_0 intro: gr0I)
  then have "0 < (ucast ncpu :: u64)" "unat (ucast ncpu :: u64) \<le> 2 ^ 63"
    using u unat_less_exp [of ncpu] by (auto simp: word_less_nat_alt)
  from round_up_unat [OF this] u pos show ?thesis by (simp add: new_conc_arena_def)
qed

lemma and_pow2: "(x :: nat) AND (2 ^ k - 1) = x mod 2 ^ k"
  by (metis mask_eq_exp_minus_1 take_bit_eq_mask take_bit_eq_mod)

lemma or_pow2_mod: "(x OR 2 ^ k) mod 2 ^ k = (x :: nat) mod 2 ^ k"
  by (simp flip: take_bit_eq_mod)

lemma or_pow2_pos: "0 < ((x :: nat) OR 2 ^ k)"
proof (rule gr0I)
  assume z: "x OR 2 ^ k = 0"
  have "bit (x OR 2 ^ k) k" by (simp add: bit_or_iff bit_exp_iff possible_bit_def)
  then show False unfolding z by simp
qed

section \<open>Progress\<close>

text \<open>The number of steps a call has left; \<open>allocate\<close> has no loop of its own.\<close>

fun steps_left :: "alloc_pc \<Rightarrow> nat" where
  "steps_left Ready = 0"
| "steps_left (In_Arena n) = 1"
| "steps_left (Carve n i k) = 1"
| "steps_left (Want_Arena n) = 2"
| "steps_left (In_Refill n i) = 2"
| "steps_left (Want_Refill n i) = 3"
| "steps_left (In_Shard n i) = 4"
| "steps_left (Want_Shard n i) = 5"
| "steps_left (Try_Shard n) = 6"
| "steps_left (Try_Arena n) = 7"

definition advances :: "conc_arena \<Rightarrow> nat \<Rightarrow> bool" where
  "advances c t \<longleftrightarrow>
     (\<exists>c'. conc_step c t c' \<and> steps_left (c_pc c' t) < steps_left (c_pc c t))"

lemma advancesI:
  "conc_step c t c' \<Longrightarrow> steps_left (c_pc c' t) < steps_left (c_pc c t) \<Longrightarrow> advances c t"
  by (auto simp: advances_def)

lemma advances_try_shard: "c_pc c t = Try_Shard n \<Longrightarrow> advances c t"
proof (cases "sh_lock (c_shards c ! get_shard c (c_cpu_id c t)) = None")
  case True
  moreover assume "c_pc c t = Try_Shard n"
  ultimately show ?thesis by (auto intro: advancesI [OF try_shard_ok] simp: conc_defs)
next
  case False
  moreover assume "c_pc c t = Try_Shard n"
  ultimately show ?thesis
    by (auto intro!: advancesI [OF try_shard_busy [where cpu = 0]] simp: conc_defs)
qed

lemma advances_arena_holder: "holds_arena (c_pc c t) \<Longrightarrow> advances c t"
proof (cases "c_pc c t")
  case (In_Arena n)
  obtain p a where "arena_allocate (c_arena c) n = (p, a)" by fastforce
  with In_Arena show ?thesis by (intro advancesI [OF from_arena]) (auto simp: conc_defs)
next
  case (In_Refill n i)
  obtain p a where "arena_allocate (c_arena c) (refill_size c) = (p, a)" by fastforce
  with In_Refill show ?thesis by (intro advancesI [OF refill]) (auto simp: conc_defs)
qed auto

lemma advances_shard_holder:
  assumes "lock_inv c" "holds_shard (c_pc c t) = Some i"
  shows "\<exists>u. c_pc c u \<noteq> Ready \<and> advances c u"
proof (cases "c_pc c t")
  case (Want_Refill n j)
  show ?thesis
  proof (cases "arena_lock c")
    case None
    then have "advances c t" using Want_Refill
      by (intro advancesI [OF lock_refill]) (auto simp: conc_defs)
    then show ?thesis using Want_Refill by (intro exI [of _ t]) simp
  next
    case (Some u)
    then have "holds_arena (c_pc c u)" using assms(1) by (simp add: lock_inv_arena)
    then show ?thesis by (intro exI [of _ u]) (auto intro: advances_arena_holder)
  qed
next
  case (In_Shard n j)
  then have "advances c t" by (intro advancesI [OF read_shard]) (auto simp: conc_defs)
  then show ?thesis using In_Shard by (intro exI [of _ t]) simp
next
  case (In_Refill n j)
  then show ?thesis using advances_arena_holder [of c t] by (intro exI [of _ t]) simp
next
  case (Carve n j k)
  then have "advances c t" by (intro advancesI [OF carve]) (auto simp: conc_defs)
  then show ?thesis using Carve by (intro exI [of _ t]) simp
qed (use assms(2) in auto)

lemma advances_some:
  assumes "lock_inv c" "c_pc c t \<noteq> Ready"
  shows "\<exists>u. c_pc c u \<noteq> Ready \<and> advances c u"
proof -
  consider "holds_arena (c_pc c t)" | i where "holds_shard (c_pc c t) = Some i"
    | n where "c_pc c t = Try_Shard n"
    | n where "c_pc c t = Try_Arena n \<or> c_pc c t = Want_Arena n"
    | n i where "c_pc c t = Want_Shard n i"
    using assms(2) by (cases "c_pc c t") auto
  then show ?thesis
  proof cases
    case 4
    show ?thesis
    proof (cases "arena_lock c")
      case None
      then have "advances c t" using 4
        by (auto intro: advancesI [OF try_arena_ok] advancesI [OF lock_arena] simp: conc_defs)
      then show ?thesis using assms(2) by blast
    next
      case (Some u)
      then have "holds_arena (c_pc c u)" using assms(1) by (simp add: lock_inv_arena)
      then show ?thesis by (intro exI [of _ u]) (auto intro: advances_arena_holder)
    qed
  next
    case 5
    show ?thesis
    proof (cases "sh_lock (c_shards c ! i)")
      case None
      then have "advances c t" using 5
        by (auto intro!: advancesI [OF lock_shard] simp: conc_defs)
      then show ?thesis using assms(2) by blast
    next
      case (Some u)
      moreover have "i < length (c_shards c)"
        using assms(1) 5 unfolding lock_inv_def by (metis pc_sizes.simps(3))
      ultimately have "holds_shard (c_pc c u) = Some i" using assms(1) by (simp add: lock_inv_shard)
      with assms(1) show ?thesis by (rule advances_shard_holder)
    qed
  next
    case 3
    then show ?thesis using advances_try_shard [of c t] by (intro exI [of _ t]) simp
  qed (use assms in \<open>blast intro: advances_arena_holder advances_shard_holder\<close>)+
qed

section \<open>A call without contention\<close>

text \<open>
  The whole of \<open>allocate\<close> when thread \<open>t\<close> finds every lock free, as under a caller's lock.
\<close>

definition conc_allocate :: "conc_arena \<Rightarrow> nat \<Rightarrow> nat \<Rightarrow> ptr \<times> conc_arena" where
  "conc_allocate c t n =
     (if n > slab_slice_size c div 4 \<or>
         c_cpu_id c t = 0 \<and> sh_unused (c_shards c ! get_shard c 0) = 0
      then
        (let (p, a) = arena_allocate (c_arena c) n
         in (p, issue (update_counters (c\<lparr>c_arena := a\<rparr>)) (p, n)))
      else
        (let i = get_shard c (c_cpu_id c t);
             s = c_shards c ! i;
             (k, s, c) =
               (if sh_unused s < n then
                  (let k = refill_size c; (p, a) = arena_allocate (c_arena c) k
                   in (k, s\<lparr>sh_begin := p\<rparr>, update_counters (c\<lparr>c_arena := a\<rparr>)))
                else (sh_unused s, s, c))
         in (sh_begin s,
             issue (set_shard c i (s\<lparr>sh_unused := k - n, sh_begin := ptr_add (sh_begin s) n\<rparr>))
               (sh_begin s, n))))"

definition quiescent :: "conc_arena \<Rightarrow> bool" where
  "quiescent c \<longleftrightarrow> lock_inv c \<and> mem_inv c \<and> counters_inv c \<and> c_pc c = (\<lambda>_. Ready)"

lemma quiescent_unlocked:
  assumes "quiescent c"
  shows "arena_lock c = None" and "i < length (c_shards c) \<Longrightarrow> sh_lock (c_shards c ! i) = None"
proof -
  show "arena_lock c = None"
    using assms lock_inv_arena [of c] by (cases "arena_lock c") (auto simp: quiescent_def)
  show "sh_lock (c_shards c ! i) = None" if "i < length (c_shards c)"
    using assms lock_inv_shard [of c, OF _ that]
    by (cases "sh_lock (c_shards c ! i)") (auto simp: quiescent_def)
qed

lemma reach_step1:
  "conc_reach c0 c \<Longrightarrow> conc_step c t c' \<Longrightarrow> c' = c'' \<Longrightarrow> conc_reach c0 c''"
  by (auto intro: conc_reach.step)

lemma pc_idem: "c_pc c = (\<lambda>_. Ready) \<Longrightarrow> (c_pc c)(t := Ready) = c_pc c"
  by auto

lemma arena_route:
  assumes "quiescent c" "alloc_enter c t n = Want_Arena n \<or> alloc_enter c t n = Try_Arena n"
    and "arena_allocate (c_arena c) n = (p, a)"
  shows "conc_reach c (issue (update_counters (c\<lparr>c_arena := a\<rparr>)) (p, n))"
proof -
  have pc: "c_pc c = (\<lambda>_. Ready)" and free: "arena_lock c = None"
    using assms(1) quiescent_unlocked by (auto simp: quiescent_def)
  let ?q = "alloc_enter c t n"
  have 1: "conc_reach c (goto c t ?q)"
    by (rule conc_reach.step [OF conc_reach.init enter]) (simp add: pc)
  let ?c2 = "goto ((goto c t ?q)\<lparr>arena_lock := Some t\<rparr>) t (In_Arena n)"
  have 2: "conc_reach c ?c2"
    using assms(2)
  proof
    assume q: "?q = Want_Arena n"
    show ?thesis
      by (rule reach_step1 [OF 1 lock_arena [of _ t n]]) (use q free in \<open>simp_all add: conc_defs\<close>)
  next
    assume q: "?q = Try_Arena n"
    show ?thesis
      by (rule reach_step1 [OF 1 try_arena_ok [of _ t n]]) (use q free in \<open>simp_all add: conc_defs\<close>)
  qed
  have "c_pc ?c2 t = In_Arena n" "arena_allocate (c_arena ?c2) n = (p, a)"
    using assms(3) by (simp_all add: conc_defs)
  from reach_step1 [OF 2 from_arena [OF this]] show ?thesis
    using free pc pc_idem [OF pc] by (cases c rule: conc_arena.cases) (simp add: conc_defs)
qed

lemma shard_route:
  assumes "quiescent c" "alloc_enter c t n = Try_Shard n" "i = get_shard c (c_cpu_id c t)"
    and "s = c_shards c ! i"
  shows "conc_reach c (goto (set_lock c i (Some t)) t (In_Shard n i)) \<and> i < length (c_shards c) \<and>
    sh_lock s = None"
proof -
  have pc: "c_pc c = (\<lambda>_. Ready)" using assms(1) by (simp add: quiescent_def)
  have i: "i < length (c_shards c)"
    using assms(1,3) get_shard_less by (auto simp: quiescent_def lock_inv_def)
  then have free: "sh_lock (c_shards c ! i) = None"
    using assms(1) by (rule quiescent_unlocked [rotated])
  have 1: "conc_reach c (goto c t (alloc_enter c t n))"
    by (rule conc_reach.step [OF conc_reach.init enter]) (simp add: pc)
  have "conc_reach c (goto (set_lock (goto c t (Try_Shard n)) i (Some t)) t (In_Shard n i))"
    using assms free
    by (intro reach_step1 [OF 1 [unfolded assms(2)] try_shard_ok [of _ t]] refl)
      (simp_all add: conc_defs get_shard_def)
  then show ?thesis
    using i free assms(4) by (cases c rule: conc_arena.cases) (simp add: conc_defs)
qed

lemma refill_route:
  assumes "quiescent c" "alloc_enter c t n = Try_Shard n" "i = get_shard c (c_cpu_id c t)"
    and "s = c_shards c ! i" "sh_unused s < n" "k = refill_size c"
    and "arena_allocate (c_arena c) k = (p, a)"
  shows "conc_reach c (goto (set_shard (update_counters (c\<lparr>c_arena := a\<rparr>)) i
    (s\<lparr>sh_lock := Some t, sh_begin := p\<rparr>)) t (Carve n i k))"
proof -
  have free: "arena_lock c = None" using assms(1) by (rule quiescent_unlocked)
  let ?c3 = "goto (set_lock c i (Some t)) t (In_Shard n i)"
  have 3: "conc_reach c ?c3" and i: "i < length (c_shards c)"
    using shard_route [OF assms(1-4)] by auto
  let ?c4 = "goto ?c3 t (Want_Refill n i)"
  have 4: "conc_reach c ?c4"
    by (rule reach_step1 [OF 3 read_shard]) (use assms(4,5) i in \<open>auto simp: conc_defs\<close>)
  let ?c5 = "goto (?c4\<lparr>arena_lock := Some t\<rparr>) t (In_Refill n i)"
  have 5: "conc_reach c ?c5"
    by (rule conc_reach.step [OF 4 lock_refill]) (use free in \<open>auto simp: conc_defs\<close>)
  have "c_pc ?c5 t = In_Refill n i" and r: "refill_size ?c5 = k"
    using assms(6) by (simp_all add: conc_defs refill_size_def)
  moreover from r have "arena_allocate (c_arena ?c5) (refill_size ?c5) = (p, a)"
    unfolding r using assms(7) by (simp add: conc_defs)
  ultimately have "c_pc ?c5 t = In_Refill n i"
    "arena_allocate (c_arena ?c5) (refill_size ?c5) = (p, a)" by blast+
  from reach_step1 [OF 5 refill [OF this]] show ?thesis
    unfolding r using assms(4) free i by (cases c rule: conc_arena.cases) (simp add: conc_defs)
qed

lemma carve_route:
  assumes "conc_reach c0 c" "c_pc c = (\<lambda>_. Ready)(t := Carve n i k)" "i < length (c_shards c)"
    and "s = c_shards c ! i" "sh_lock s = Some t"
    and "c'' = issue (goto (set_shard c i
      (s\<lparr>sh_unused := k - n, sh_begin := ptr_add (sh_begin s) n, sh_lock := None\<rparr>)) t Ready)
          (sh_begin s, n)"
  shows "conc_reach c0 c''"
  using assms by (intro reach_step1 [OF assms(1) carve [of c t n i k s]]) auto

lemma conc_allocate_reach:
  assumes "quiescent c" "conc_allocate c t n = (p, c')"
  shows "conc_reach c c' \<and> c_pc c' = (\<lambda>_. Ready) \<and> c_issued c' = c_issued c @ [(p, n)]"
proof -
  have pc: "c_pc c = (\<lambda>_. Ready)" using assms(1) by (simp add: quiescent_def)
  show ?thesis
  proof (cases "alloc_enter c t n = Try_Shard n")
    case False
    then show ?thesis
      using assms pc arena_route [OF assms(1), of t n]
      by (auto simp: conc_allocate_def alloc_enter_def conc_defs split: if_splits prod.splits)
  next
    case True
    define i where "i = get_shard c (c_cpu_id c t)"
    define s where "s = c_shards c ! i"
    note sr = shard_route [OF assms(1) True i_def s_def]
    then have i: "i < length (c_shards c)" and free: "sh_lock s = None" by auto
    have lockfree: "s\<lparr>sh_unused := x, sh_begin := y, sh_lock := None\<rparr> =
        s\<lparr>sh_unused := x, sh_begin := y\<rparr>" for x y
      using free by (cases s rule: shard.cases) simp
    show ?thesis
    proof (cases "sh_unused s < n")
      case refilled: True
      obtain q a where al: "arena_allocate (c_arena c) (refill_size c) = (q, a)" by fastforce
      have "conc_reach c (issue (set_shard (update_counters (c\<lparr>c_arena := a\<rparr>)) i
          (s\<lparr>sh_unused := refill_size c - n, sh_begin := ptr_add q n\<rparr>)) (q, n))"
        by (rule carve_route [OF refill_route [OF assms(1) True i_def s_def refilled refl al],
            where t = t and n = n and i = i and k = "refill_size c"
              and s = "s\<lparr>sh_lock := Some t, sh_begin := q\<rparr>"])
          (use i free pc in \<open>auto simp: conc_defs lockfree intro!: conc_arena.equality\<close>)
      then show ?thesis
        using assms(2) True refilled al pc
        by (auto simp: conc_allocate_def alloc_enter_def conc_defs Let_def
            simp flip: i_def s_def split: if_splits)
    next
      case False
      have "conc_reach c (goto (set_lock c i (Some t)) t (Carve n i (sh_unused s)))"
        by (rule reach_step1 [OF conjunct1 [OF sr] read_shard])
          (use False sr in \<open>auto simp: conc_defs s_def\<close>)
      then have "conc_reach c (issue (set_shard c i
          (s\<lparr>sh_unused := sh_unused s - n, sh_begin := ptr_add (sh_begin s) n\<rparr>)) (sh_begin s, n))"
        by (rule carve_route [where t = t and n = n and i = i and k = "sh_unused s"
              and s = "s\<lparr>sh_lock := Some t\<rparr>"])
          (use i free pc in \<open>auto simp: conc_defs lockfree simp flip: s_def intro!: conc_arena.equality\<close>)
      then show ?thesis
        using assms(2) True False pc
        by (auto simp: conc_allocate_def alloc_enter_def conc_defs Let_def
            simp flip: i_def s_def split: if_splits)
    qed
  qed
qed

lemma conc_reach_preserves:
  "conc_reach c c' \<Longrightarrow> lock_inv c \<and> mem_inv c \<and> counters_inv c \<Longrightarrow>
    lock_inv c' \<and> mem_inv c' \<and> counters_inv c'"
  by (induction rule: conc_reach.induct) (auto intro: inv_intros)

lemma quiescent_new: "0 < al \<Longrightarrow> quiescent (new_conc_arena al ncpu ids n)"
  using conc_reach_inv [OF conc_reach.init, of al ncpu ids n]
  by (simp add: quiescent_def) (simp add: new_conc_arena_def)

lemma conc_allocate_quiescent:
  "quiescent c \<Longrightarrow> conc_allocate c t n = (p, c') \<Longrightarrow> quiescent c'"
  using conc_allocate_reach conc_reach_preserves unfolding quiescent_def by meson

text \<open>
  To a caller that serialises its calls, the concurrent arena is an allocator again: what it
  owns are the regions it issued, and a request is a thread and a size.
\<close>

definition conc_serve :: "conc_arena \<Rightarrow> nat \<times> nat \<Rightarrow> ptr \<times> conc_arena" where
  "conc_serve c r = conc_allocate c (fst r) (snd r)"

definition conc_owned :: "conc_arena \<Rightarrow> region \<Rightarrow> bool" where
  "conc_owned c x \<longleftrightarrow> x \<in> set (c_issued c)"

interpretation conc_alloc: allocator conc_serve snd conc_owned quiescent
proof unfold_locales
  fix c c' p and r :: "nat \<times> nat"
  assume q: "quiescent c" and s: "conc_serve c r = (p, c')"
  note al = s [unfolded conc_serve_def]
  show "quiescent c'" using q al by (rule conc_allocate_quiescent)
  show "conc_owned c' (p, snd r)" and "conc_owned c x \<Longrightarrow> conc_owned c' x" for x
    using conc_allocate_reach [OF q al] by (auto simp: conc_owned_def)
  show "conc_owned c x \<Longrightarrow> \<not> overlap x (p, snd r)" for x
    using conc_allocate_reach [OF q al] conc_allocate_quiescent [OF q al]
    by (auto simp: conc_owned_def quiescent_def mem_inv_def sorted_wrt_append)
qed

section \<open>Properties\<close>

text \<open>C1: however the calls of any number of threads interleave, and whatever processor numbers
  the system reports, the regions that a concurrent arena has handed out are pairwise disjoint and
  each non-empty one lies inside one of the slabs.\<close>
theorem conc_regions_disjoint:
  assumes "conc_reach (new_conc_arena align_unit num_cpus cpu_ids n) c" and "0 < align_unit"
  shows "sorted_wrt (\<lambda>x y. \<not> overlap x y) (c_issued c) \<and>
    list_all (\<lambda>(p, k). k = 0 \<or>
      (\<exists>s < length (slabs (c_arena c)). base p = Some s \<and> off p + k \<le> slabs (c_arena c) ! s))
      (c_issued c)"
  using conc_reach_inv [OF assms]
  by (fastforce simp: mem_inv_def covered_def list_all_iff split: option.splits)

text \<open>
  Thread 0 takes the arena; thread 1 finds it taken, goes to its shard and waits there for the
  arena to refill it; thread 0 finishes, and thread 1 refills and carves.
\<close>
theorem conc_regions_disjoint_witness:
  "\<exists>c. conc_reach (new_conc_arena 16 2 (\<lambda>_. 0) 65536) c \<and>
     map (\<lambda>(p, k). (base p, off p, k)) (c_issued c) = [(Some 0, 0, 100), (Some 0, 100, 200)] \<and>
     sorted_wrt (\<lambda>x y. \<not> overlap x y) (c_issued c)"
proof -
  let ?c0 = "new_conc_arena 16 2 (\<lambda>_. 0) 65536"
  have shards: "c_shards ?c0 = replicate 2 \<lparr>sh_begin = null, sh_unused = 0, sh_lock = None\<rparr>"
    by (simp add: new_conc_arena_def round_up_to_power_of_two_def smear.simps)
  have get: "get_shard c 0 = 0" for c by (simp add: get_shard_def)
  note start = conc_defs new_conc_arena_def [of 16 2] get alloc_enter_def new_arena_def
    optimize_slab_size_def arena_defs null_def
  let ?c1 = "goto ?c0 0 (Try_Arena 100)"
  have 1: "conc_reach ?c0 ?c1"
    using conc_reach.step [OF conc_reach.init conc_step.enter [of ?c0 0 100]] shards
    by (simp add: start)
  let ?c2 = "goto (?c1\<lparr>arena_lock := Some 0\<rparr>) 0 (In_Arena 100)"
  have 2: "conc_reach ?c0 ?c2"
    by (rule conc_reach.step [OF 1 conc_step.try_arena_ok]) (simp_all add: start)
  let ?c3 = "goto ?c2 1 (Try_Arena 200)"
  have 3: "conc_reach ?c0 ?c3"
    using conc_reach.step [OF 2 conc_step.enter [of ?c2 1 200]] shards by (simp add: start)
  let ?c4 = "goto ?c3 1 (Try_Shard 200)"
  have 4: "conc_reach ?c0 ?c4"
    by (rule conc_reach.step [OF 3 conc_step.try_arena_busy]) (simp_all add: start)
  let ?c5 = "goto (set_lock ?c4 0 (Some 1)) 1 (In_Shard 200 0)"
  have 5: "conc_reach ?c0 ?c5"
    by (rule conc_reach.step [OF 4 conc_step.try_shard_ok])
      (use shards in \<open>simp_all add: start\<close>)
  let ?c6 = "goto ?c5 1 (Want_Refill 200 0)"
  have 6: "conc_reach ?c0 ?c6"
    using conc_reach.step [OF 5 conc_step.read_shard [of ?c5 1 200 0]] shards
    by (simp add: start)
  let ?a7 = "snd (arena_allocate (new_arena 16 65536) 100)"
  let ?c7 = "issue (goto ((update_counters (?c6\<lparr>c_arena := ?a7\<rparr>))\<lparr>arena_lock := None\<rparr>) 0 Ready)
    (\<lparr>base = Some 0, off = 0\<rparr>, 100)"
  have 7: "conc_reach ?c0 ?c7"
    by (rule conc_reach.step [OF 6 conc_step.from_arena]) (simp_all add: start)
  let ?c8 = "goto (?c7\<lparr>arena_lock := Some 1\<rparr>) 1 (In_Refill 200 0)"
  have 8: "conc_reach ?c0 ?c8"
    by (rule conc_reach.step [OF 7 conc_step.lock_refill]) (simp_all add: start)
  have r8: "refill_size ?c8 = 8192" by (simp add: refill_size_def start)
  have a8: "arena_allocate (c_arena ?c8) 8192 =
      (\<lparr>base = Some 0, off = 100\<rparr>, snd (arena_allocate ?a7 8192))"
    by (simp add: start)
  let ?c9 = "goto ((update_counters
      ((set_shard ?c8 0 ((c_shards ?c8 ! 0)\<lparr>sh_begin := \<lparr>base = Some 0, off = 100\<rparr>\<rparr>))
        \<lparr>c_arena := snd (arena_allocate ?a7 8192)\<rparr>))\<lparr>arena_lock := None\<rparr>) 1 (Carve 200 0 8192)"
  have 9: "conc_reach ?c0 ?c9"
    using conc_reach.step [OF 8 conc_step.refill [of ?c8 1 200 0, unfolded r8, OF _ a8]]
    by (simp add: goto_def)
  have pc9: "c_pc ?c9 1 = Carve 200 0 8192" by (simp add: goto_def)
  have sh9: "sh_begin (c_shards ?c9 ! 0) = \<lparr>base = Some 0, off = 100\<rparr>"
    using shards by (simp add: conc_defs)
  note 10 = conc_reach.step [OF 9 conc_step.carve [OF pc9 refl]]
  show ?thesis
    by (rule exI, intro conjI, rule 10, use sh9 in \<open>simp add: start\<close>,
        rule conjunct1 [OF conc_regions_disjoint [OF 10]], simp)
qed



text \<open>A concurrent arena has the least power of two of shards that is at least the number of
  processors, so the mask picks the shard \<open>cpu mod size\<close>, always in range; and the number that
  \<open>reset_shard\<close> caches is never the value 0 that means none, and picks the shard again that
  \<open>reset_shard\<close> returned.\<close>
theorem reset_shard_cached:
  assumes "conc_reach (new_conc_arena align_unit num_cpus cpu_ids n) c"
    and "reset_shard c t cpu = (i, c')"
  shows "i = cpu mod length (c_shards c) \<and> get_shard c' (c_cpu_id c' t) = i \<and> c_cpu_id c' t \<noteq> 0 \<and>
    (\<exists>k. length (c_shards c) = 2 ^ k) \<and>
    max 1 (unat num_cpus) \<le> length (c_shards c) \<and> length (c_shards c) < 2 * max 1 (unat num_cpus)"
proof -
  obtain k where k: "length (c_shards c) = 2 ^ k"
    "max 1 (unat num_cpus) \<le> 2 ^ k" "2 ^ k < 2 * max 1 (unat num_cpus)"
    using new_shards [of align_unit num_cpus cpu_ids n] conc_reach_shards [OF assms(1)] by auto
  then show ?thesis
    using assms(2) or_pow2_pos [of cpu k]
    by (auto simp: reset_shard_def get_shard_def and_pow2 [unfolded One_nat_def] or_pow2_mod)
qed

text \<open>Six processors give eight shards; processor 13 is cached as itself and uses shard 5.\<close>
theorem reset_shard_cached_witness:
  "let (i, c') = reset_shard (new_conc_arena 16 6 (\<lambda>_. 0) 65536) 0 13 in
   i = 5 \<and> get_shard c' (c_cpu_id c' 0) = 5"
proof -
  let ?c = "new_conc_arena 16 6 (\<lambda>_. 0) 65536"
  have len: "length (c_shards ?c) = 8"
    by (simp add: new_conc_arena_def round_up_to_power_of_two_def smear.simps)
  have "reset_shard ?c 0 13 = (fst (reset_shard ?c 0 13), snd (reset_shard ?c 0 13))" by simp
  from reset_shard_cached [OF conc_reach.init this] show ?thesis
    by (auto simp: len split: prod.splits)
qed

text \<open>\<open>used()\<close>, \<open>unused()\<close> and \<open>size()\<close>, which read atomics without a lock, return
  the counters the arena itself has at that moment, in every reachable state.\<close>
theorem conc_counters_exact:
  assumes "conc_reach (new_conc_arena align_unit num_cpus cpu_ids n) c" and "0 < align_unit"
  shows "c_used c = used (c_arena c) \<and> c_unused c = unused (c_arena c) \<and>
    c_size c = total_size (c_arena c) \<and> c_used c + c_unused c \<le> 2 * c_size c"
  using conc_reach_inv [OF assms] by (simp add: counters_inv_def mem_inv_def arena_inv_def)

theorem conc_counters_exact_witness:
  "c_used (new_conc_arena 16 2 (\<lambda>_. 0) 65536) + c_unused (new_conc_arena 16 2 (\<lambda>_. 0) 65536)
     \<le> 2 * c_size (new_conc_arena 16 2 (\<lambda>_. 0) 65536)"
  using conc_counters_exact [OF conc_reach.init, of 16 2 "\<lambda>_. 0" 65536] by simp

end
