(* ===== verification/Memtable.thy ===== *)
theory Memtable
  imports ConcArena "HOL-Library.List_Lexorder" "HOL-Library.Monad_Syntax"
begin

text \<open>
  The in-memory table of mousedb (\<open>lib_database/src/memtable.{hpp,cpp}\<close>): variable-length
  integers, the record store \<open>KVStore\<close> over the concurrent arena's memory, the linear index
  \<open>KVSkipList\<close>, and the interface \<open>KVMap\<close> under which \<open>MemTable\<close> uses it.
\<close>

section \<open>Variable-length integers\<close>

text \<open>\<open>std::countl_zero\<close> on 64 bits.\<close>

definition countl_zero :: "u64 \<Rightarrow> nat" where
  "countl_zero w = length (takeWhile Not (rev (map (bit w) [0..<64])))"

definition get_varint_size :: "u64 \<Rightarrow> nat" where
  "get_varint_size v = (let bits = 64 - countl_zero v in if bits = 0 then 1 else (bits + 6) div 7)"

lemma shift7_less: "0x7F < (v :: u64) \<Longrightarrow> unat (drop_bit 7 v) < unat v"
  by (simp add: unsigned_drop_bit_eq drop_bit_eq_div word_less_nat_alt unat_div)

text \<open>The bytes written to \<open>data\<close>; the returned count is their number.\<close>

function encode_varint :: "u64 \<Rightarrow> bytes" where
  "encode_varint v =
     (if v > 0x7F then ucast ((v AND 0x7F) OR 0x80) # encode_varint (drop_bit 7 v) else [ucast v])"
  by pat_completeness auto
termination by (relation "measure unat") (auto simp: shift7_less)

declare encode_varint.simps [simp del]

text \<open>
  The loop of \<open>decode_varint\<close> reads until a byte without the continuation bit, however far
  that is; \<open>None\<close> is the loop that never meets one. A shift past 63, undefined in C++, gives 0.
\<close>

partial_function (option) decode_loop :: "(nat \<Rightarrow> byte) \<Rightarrow> nat \<Rightarrow> u64 \<Rightarrow> (u64 \<times> nat) option" where
  "decode_loop data i v =
     (let v' = v OR push_bit (i * 7) (ucast (data i) AND 0x7F)
      in if (ucast (data i) :: u64) AND 0x80 = 0 then Some (v', i + 1)
         else decode_loop data (i + 1) v')"

definition decode_varint :: "(nat \<Rightarrow> byte) \<Rightarrow> (u64 \<times> nat) option" where
  "decode_varint data = decode_loop data 0 0"

lemma mask7: "(0x7F :: 'a::len word) = mask 7"
  by (simp add: mask_eq_exp_minus_1)

lemma bit7: "bit (0x80 :: 'a::len word) n \<longleftrightarrow> n = 7 \<and> 7 < LENGTH('a)"
proof -
  have "(0x80 :: 'a word) = 2 ^ 7" by simp
  then show ?thesis by (auto simp only: bit_exp_iff possible_bit_word)
qed

lemma bit7_int: "bit (0x80 :: int) n \<longleftrightarrow> n = 7"
proof -
  have "(0x80 :: int) = 2 ^ 7" by simp
  then show ?thesis by (auto simp only: bit_exp_iff possible_bit_def)
qed

lemma varint_cont:
  fixes v :: u64
  defines "b \<equiv> (ucast ((v AND 0x7F) OR 0x80) :: byte)"
  shows "(ucast b :: u64) AND 0x80 \<noteq> 0" and "(ucast b :: u64) AND 0x7F = take_bit 7 v"
proof -
  have "bit ((ucast b :: u64) AND 0x80) 7"
    by (simp add: b_def bit_and_iff bit_or_iff bit_ucast_iff bit7 bit7_int)
  then show "(ucast b :: u64) AND 0x80 \<noteq> 0" by auto
  show "(ucast b :: u64) AND 0x7F = take_bit 7 v"
    by (rule bit_word_eqI)
      (auto simp: b_def bit_and_iff bit_or_iff bit_ucast_iff bit7 bit7_int mask7 bit_mask_iff
        bit_take_bit_iff)
qed

lemma varint_last:
  fixes v :: u64
  assumes "\<not> v > 0x7F"
  shows "(ucast (ucast v :: byte) :: u64) AND 0x80 = 0" and
    "(ucast (ucast v :: byte) :: u64) AND 0x7F = v"
proof -
  have "v < 2 ^ 7" using assms by (simp add: word_less_nat_alt word_le_nat_alt)
  then have b: "bit v n \<Longrightarrow> n < 7" for n by (rule less_exp_bit) simp_all
  show "(ucast (ucast v :: byte) :: u64) AND 0x80 = 0"
    by (rule bit_word_eqI) (auto simp: bit_and_iff bit_ucast_iff bit7 bit7_int dest: b)
  show "(ucast (ucast v :: byte) :: u64) AND 0x7F = v"
    by (rule bit_word_eqI)
      (auto simp: bit_and_iff bit_ucast_iff mask7 bit_mask_iff dest: b)
qed

lemma split_push: "push_bit (i * 7) (take_bit 7 v) OR push_bit (Suc i * 7) (drop_bit 7 v) =
    push_bit (i * 7) (v :: u64)"
proof (rule bit_word_eqI)
  fix n
  assume "n < LENGTH(64)"
  then show "bit (push_bit (i * 7) (take_bit 7 v) OR push_bit (Suc i * 7) (drop_bit 7 v)) n \<longleftrightarrow>
      bit (push_bit (i * 7) v) n"
    by (cases "Suc i * 7 \<le> n")
      (auto simp: bit_or_iff bit_push_bit_iff bit_take_bit_iff bit_drop_bit_eq)
qed

lemma decode_loop_encode:
  assumes "\<And>j. j < length (encode_varint v) \<Longrightarrow> data (i + j) = encode_varint v ! j"
  shows "decode_loop data i acc =
    Some (acc OR push_bit (i * 7) v, i + length (encode_varint v))"
  using assms
proof (induction v arbitrary: i acc rule: encode_varint.induct)
  case (1 v)
  show ?case
  proof (cases "v > 0x7F")
    case True
    then have enc: "encode_varint v =
        ucast ((v AND 0x7F) OR 0x80) # encode_varint (drop_bit 7 v)"
      by (simp add: encode_varint.simps [of v])
    have di: "data i = ucast ((v AND 0x7F) OR 0x80)"
      using "1.prems" [of 0] by (simp add: enc)
    have "data (Suc i + j) = encode_varint (drop_bit 7 v) ! j"
      if "j < length (encode_varint (drop_bit 7 v))" for j
      using "1.prems" [of "Suc j"] that by (simp add: enc)
    note IH = "1.IH" [OF True this]
    show ?thesis
      using varint_cont [of v] split_push [of i v]
      by (subst decode_loop.simps) (simp add: Let_def di IH enc or.assoc)
  next
    case False
    then have enc: "encode_varint v = [ucast v]" by (simp add: encode_varint.simps [of v])
    have "data i = ucast v" using "1.prems" [of 0] by (simp add: enc)
    then show ?thesis
      using varint_last [OF False] by (subst decode_loop.simps) (simp add: Let_def enc)
  qed
qed

lemma decode_varint_encode:
  assumes "\<And>j. j < length (encode_varint v) \<Longrightarrow> data j = encode_varint v ! j"
  shows "decode_varint data = Some (v, length (encode_varint v))"
  using decode_loop_encode [of v data 0 0] assms by (simp add: decode_varint_def)

text \<open>The size computed beforehand is the number of bytes the encoder writes.\<close>

abbreviation bit_count :: "u64 \<Rightarrow> nat" where
  "bit_count v \<equiv> 64 - countl_zero v"

lemma leading_zeros_le:
  "n - length (takeWhile Not (rev (map P [0..<n]))) \<le> k \<longleftrightarrow> (\<forall>j. k \<le> j \<and> j < n \<longrightarrow> \<not> P j)"
proof (induction n)
  case 0
  show ?case by simp
next
  case (Suc n)
  show ?case
  proof (cases "P n")
    case True
    then show ?thesis by (auto simp: not_less_eq_eq [symmetric])
  next
    case False
    with Suc show ?thesis by (auto simp: less_Suc_eq)
  qed
qed

lemma bit_count_le: "bit_count v \<le> k \<longleftrightarrow> (\<forall>j. k \<le> j \<longrightarrow> \<not> bit v j)"
  using bit_imp_le_length [of v]
  by (auto simp: countl_zero_def leading_zeros_le)

lemma bit_count_shift: "bit_count (drop_bit 7 v) = bit_count v - 7"
proof (rule order_antisym)
  have "\<forall>j. bit_count v - 7 + 7 \<le> j \<longrightarrow> \<not> bit v j"
    using bit_count_le [of v "bit_count v"] by auto
  then show "bit_count (drop_bit 7 v) \<le> bit_count v - 7"
    by (auto simp: bit_count_le bit_drop_bit_eq)
  define m where "m = bit_count (drop_bit 7 v)"
  have "\<not> bit v j" if "7 + m \<le> j" for j
  proof -
    define i where "i = j - (7 + m)"
    have "j = 7 + (m + i)" using that by (simp add: i_def)
    then show ?thesis
      using bit_count_le [of "drop_bit 7 v" m] by (simp add: m_def bit_drop_bit_eq)
  qed
  then have "bit_count v \<le> 7 + bit_count (drop_bit 7 v)"
    unfolding m_def by (subst bit_count_le) simp
  then show "bit_count v - 7 \<le> bit_count (drop_bit 7 v)" by simp
qed

lemma bit_count_small: "v > 0x7F \<longleftrightarrow> 7 < bit_count v"
proof -
  have "v > 0x7F \<longleftrightarrow> \<not> v < 2 ^ 7" by (auto simp: word_less_nat_alt word_le_nat_alt)
  also have "v < 2 ^ 7 \<longleftrightarrow> bit_count v \<le> 7"
  proof
    assume "v < 2 ^ 7"
    then show "bit_count v \<le> 7"
      unfolding bit_count_le using less_exp_bit [of v 7] by force
  next
    assume "bit_count v \<le> 7"
    then have "take_bit 7 v = v"
      unfolding bit_count_le by (intro bit_word_eqI) (auto simp: bit_take_bit_iff not_le)
    then have "unat v = unat v mod 2 ^ 7"
      by (metis take_bit_eq_mod unsigned_take_bit_eq)
    then have "unat v < 128" using mod_less_divisor [of 128 "unat v"] by simp
    then show "v < 2 ^ 7" by (simp add: word_less_nat_alt)
  qed
  finally show ?thesis by auto
qed

lemma length_encode_varint: "length (encode_varint v) = get_varint_size v"
proof (induction v rule: encode_varint.induct)
  case (1 v)
  show ?case
  proof (cases "v > 0x7F")
    case True
    then have "7 < bit_count v" by (simp add: bit_count_small)
    then show ?thesis
      using 1 True bit_count_shift [of v]
      by (subst encode_varint.simps) (simp add: get_varint_size_def Let_def, arith)
  next
    case False
    then have "bit_count v \<le> 7" by (simp add: bit_count_small)
    then show ?thesis
      using False by (subst encode_varint.simps) (simp add: get_varint_size_def Let_def, arith)
  qed
qed

lemma varint_size_bounds: "0 < get_varint_size v \<and> get_varint_size v \<le> 10"
  by (auto simp: get_varint_size_def Let_def)

section \<open>Memory\<close>

text \<open>The bytes of all slabs; \<open>memcpy\<close> into memory is \<open>store\<close>, reading a span is \<open>load\<close>.\<close>

type_synonym mem = "ptr \<Rightarrow> byte"
type_synonym span = "ptr \<times> nat"

definition store :: "mem \<Rightarrow> ptr \<Rightarrow> bytes \<Rightarrow> mem" where
  "store m p bs = (\<lambda>q.
     if base q = base p \<and> off p \<le> off q \<and> off q < off p + length bs then bs ! (off q - off p)
     else m q)"

definition load :: "mem \<Rightarrow> ptr \<Rightarrow> nat \<Rightarrow> bytes" where
  "load m p n = map (\<lambda>i. m (ptr_add p i)) [0..<n]"

definition load_span :: "mem \<Rightarrow> span \<Rightarrow> bytes" where
  "load_span m sp = load m (fst sp) (snd sp)"

definition holds :: "mem \<Rightarrow> ptr \<Rightarrow> bytes \<Rightarrow> bool" where
  "holds m p bs \<longleftrightarrow> load m p (length bs) = bs"

lemma length_load [simp]: "length (load m p n) = n"
  by (simp add: load_def)

lemma ptr_add_ptr_add [simp]: "ptr_add (ptr_add p i) j = ptr_add p (i + j)"
  by (simp add: ptr_add_def add.assoc)

lemma ptr_add_0 [simp]: "ptr_add p 0 = p"
  by (simp add: ptr_add_def)

lemma holds_nth: "holds m p bs \<longleftrightarrow> (\<forall>i < length bs. m (ptr_add p i) = bs ! i)"
  unfolding holds_def load_def by (subst list_eq_iff_nth_eq) simp

lemma holds_append:
  "holds m p (xs @ ys) \<longleftrightarrow> holds m p xs \<and> holds m (ptr_add p (length xs)) ys"
proof -
  have "(\<forall>i < length xs + length ys. Q i) \<longleftrightarrow>
      (\<forall>i < length xs. Q i) \<and> (\<forall>i < length ys. Q (length xs + i))" for Q
  proof (intro iffI conjI allI impI; (elim conjE)?)
    fix i
    assume "\<forall>i < length xs. Q i" and ys: "\<forall>i < length ys. Q (length xs + i)"
      and "i < length xs + length ys"
    then show "Q i" using spec [OF ys, of "i - length xs"] by (cases "i < length xs") auto
  qed auto
  then show ?thesis by (simp add: holds_nth nth_append)
qed

lemma holds_store: "holds (store m p bs) p bs"
  by (simp add: holds_nth store_def ptr_add_def)

lemma store_outside:
  assumes "base q = base p \<Longrightarrow> off q + length xs \<le> off p \<or> off p + length bs \<le> off q"
  shows "holds (store m p bs) q xs \<longleftrightarrow> holds m q xs"
proof -
  have "store m p bs (ptr_add q i) = m (ptr_add q i)" if "i < length xs" for i
  proof (cases "base q = base p")
    case True
    with assms that show ?thesis by (auto simp: store_def ptr_add_def)
  qed (simp add: store_def ptr_add_def)
  then show ?thesis by (simp add: holds_nth)
qed

lemma holds_decode:
  "holds m p (encode_varint v) \<Longrightarrow>
    decode_varint (\<lambda>i. m (ptr_add p i)) = Some (v, get_varint_size v)"
proof -
  assume "holds m p (encode_varint v)"
  then have "\<And>j. j < length (encode_varint v) \<Longrightarrow> m (ptr_add p j) = encode_varint v ! j"
    by (simp only: holds_nth)
  from decode_varint_encode [OF this] show ?thesis by (simp only: length_encode_varint)
qed

section \<open>Records in the arena\<close>

definition fits :: "bytes \<Rightarrow> bytes \<Rightarrow> bool" where
  "fits key val \<longleftrightarrow> length key < 2 ^ 64 \<and> length val < 2 ^ 64"

record kv_store =
  kv_arena :: conc_arena
  kv_mem :: mem

definition new_kv_store :: "nat \<Rightarrow> u32 \<Rightarrow> (nat \<Rightarrow> nat) \<Rightarrow> nat \<Rightarrow> kv_store" where
  "new_kv_store align_unit num_cpus cpu_ids n =
     \<lparr>kv_arena = new_conc_arena align_unit num_cpus cpu_ids n, kv_mem = (\<lambda>_. 0)\<rparr>"

text \<open>\<open>std::memcmp\<close>; the standard fixes only the sign.\<close>

fun memcmp :: "bytes \<Rightarrow> bytes \<Rightarrow> nat \<Rightarrow> int" where
  "memcmp (x # xs) (y # ys) (Suc n) =
     (if x = y then memcmp xs ys n else int (unat x) - int (unat y))"
| "memcmp _ _ _ = 0"

definition kv_compare :: "bytes \<Rightarrow> bytes \<Rightarrow> int" where
  "kv_compare key_a key_b =
     (let size_a = length key_a; size_b = length key_b;
          cmp = memcmp key_a key_b (min size_a size_b)
      in if cmp = 0 then (if size_a = size_b then 0 else if size_a < size_b then - 1 else 1)
         else cmp)"

text \<open>A record is \<open>[size of key, key, size of value, value]\<close>; reading decodes as it goes.\<close>

definition kv_get :: "mem \<Rightarrow> ptr \<Rightarrow> (span \<times> span) option" where
  "kv_get m p = do {
     (size_key, n) \<leftarrow> decode_varint (\<lambda>i. m (ptr_add p i));
     let key = (ptr_add p n, unat size_key);
     let offset = n + unat size_key;
     (size_value, n') \<leftarrow> decode_varint (\<lambda>i. m (ptr_add p (offset + i)));
     let offset = offset + n';
     Some (key, (ptr_add p offset, unat size_value))
   }"

definition kv_get_key :: "mem \<Rightarrow> ptr \<Rightarrow> span option" where
  "kv_get_key m p = do {
     (size_key, n) \<leftarrow> decode_varint (\<lambda>i. m (ptr_add p i));
     Some (ptr_add p n, unat size_key)
   }"

definition kv_get_value :: "mem \<Rightarrow> ptr \<Rightarrow> span option" where
  "kv_get_value m p = do {
     (size_key, n) \<leftarrow> decode_varint (\<lambda>i. m (ptr_add p i));
     let offset = n + unat size_key;
     (size_value, n') \<leftarrow> decode_varint (\<lambda>i. m (ptr_add p (offset + i)));
     Some (ptr_add p (offset + n'), unat size_value)
   }"

definition kv_get_size :: "mem \<Rightarrow> ptr \<Rightarrow> nat option" where
  "kv_get_size m p = do {
     (size_key, n) \<leftarrow> decode_varint (\<lambda>i. m (ptr_add p i));
     let offset = n + unat size_key;
     (size_value, n') \<leftarrow> decode_varint (\<lambda>i. m (ptr_add p (offset + i)));
     Some (offset + n' + unat size_value)
   }"

definition kv_compare_at :: "mem \<Rightarrow> ptr \<Rightarrow> ptr \<Rightarrow> int option" where
  "kv_compare_at m a b = do {
     (size_a, offset_a) \<leftarrow> decode_varint (\<lambda>i. m (ptr_add a i));
     (size_b, offset_b) \<leftarrow> decode_varint (\<lambda>i. m (ptr_add b i));
     Some (kv_compare (load m (ptr_add a offset_a) (unat size_a))
       (load m (ptr_add b offset_b) (unat size_b)))
   }"

text \<open>\<open>std::hash<std::string_view>\<close> is a parameter.\<close>

definition kv_hash :: "(bytes \<Rightarrow> u64) \<Rightarrow> bytes \<Rightarrow> u64" where
  "kv_hash hash_bytes key = hash_bytes key"

definition kv_hash_at :: "(bytes \<Rightarrow> u64) \<Rightarrow> mem \<Rightarrow> ptr \<Rightarrow> u64 option" where
  "kv_hash_at hash_bytes m p = do {
     (size_key, n) \<leftarrow> decode_varint (\<lambda>i. m (ptr_add p i));
     Some (kv_hash hash_bytes (load m (ptr_add p n) (unat size_key)))
   }"

text \<open>\<open>t\<close> is the calling thread, whose processor number chooses the arena's shard.\<close>

definition kv_insert :: "kv_store \<Rightarrow> nat \<Rightarrow> bytes \<Rightarrow> bytes \<Rightarrow> ptr \<times> kv_store" where
  "kv_insert kvs t key val =
     (let size_key = length key; size_value = length val;
          size_varint_key = get_varint_size (of_nat size_key);
          size_varint_value = get_varint_size (of_nat size_value);
          n = size_varint_key + size_varint_value + size_key + size_value;
          (p, a) = conc_allocate (kv_arena kvs) t n;
          m = store (kv_mem kvs) p (encode_varint (of_nat size_key));
          m = store m (ptr_add p size_varint_key) key;
          m = store m (ptr_add p (size_varint_key + size_key)) (encode_varint (of_nat size_value));
          m = store m (ptr_add p (size_varint_key + size_key + size_varint_value)) val
      in (p, \<lparr>kv_arena = a, kv_mem = m\<rparr>))"

definition record_bytes :: "bytes \<Rightarrow> bytes \<Rightarrow> bytes" where
  "record_bytes key val =
     (encode_varint (of_nat (length key)) @ key) @ encode_varint (of_nat (length val)) @ val"

lemma kv_get_record:
  assumes "holds m p (record_bytes key val)" "fits key val"
  defines "n \<equiv> get_varint_size (of_nat (length key)) + length key"
    and "n' \<equiv> get_varint_size (of_nat (length val))"
  shows "kv_get m p = Some ((ptr_add p (get_varint_size (of_nat (length key))), length key),
    (ptr_add p (n + n'), length val))"
    and "load m (ptr_add p (get_varint_size (of_nat (length key)))) (length key) = key"
    and "load m (ptr_add p (n + n')) (length val) = val"
    and "kv_get_size m p = Some (length (record_bytes key val))"
    and "kv_get_key m p = Some (ptr_add p (get_varint_size (of_nat (length key))), length key)"
    and "kv_get_value m p = Some (ptr_add p (n + n'), length val)"
    and "kv_hash_at h m p = Some (kv_hash h key)"
proof -
  have dec: "decode_varint (\<lambda>i. m (ptr_add p i)) =
      Some (of_nat (length key), get_varint_size (of_nat (length key)))"
    "decode_varint (\<lambda>i. m (ptr_add p (n + i))) = Some (of_nat (length val), n')"
    using assms(1) holds_decode [of m p] holds_decode [of m "ptr_add p n"]
    by (simp_all add: record_bytes_def holds_append n_def n'_def length_encode_varint)
  have un: "unat (of_nat (length key) :: u64) = length key"
    "unat (of_nat (length val) :: u64) = length val"
    using assms(2) by (simp_all add: fits_def unat_of_nat)
  show "kv_get m p = Some ((ptr_add p (get_varint_size (of_nat (length key))), length key),
    (ptr_add p (n + n'), length val))"
    using dec un by (simp add: kv_get_def n_def)
  show "kv_get_size m p = Some (length (record_bytes key val))"
    using dec un by (simp add: kv_get_size_def n_def n'_def record_bytes_def length_encode_varint)
  show "kv_get_key m p = Some (ptr_add p (get_varint_size (of_nat (length key))), length key)"
    using dec un by (simp add: kv_get_key_def)
  show "kv_get_value m p = Some (ptr_add p (n + n'), length val)"
    using dec un by (simp add: kv_get_value_def n_def)
  show key: "load m (ptr_add p (get_varint_size (of_nat (length key)))) (length key) = key"
    and "load m (ptr_add p (n + n')) (length val) = val"
    using assms(1)
    by (simp_all add: record_bytes_def holds_append n_def n'_def length_encode_varint add_ac)
      (simp_all add: holds_def)
  show "kv_hash_at h m p = Some (kv_hash h key)"
    using dec(1) un(1) key by (simp add: kv_hash_at_def)
qed

lemma store_append: "store (store m p xs) (ptr_add p (length xs)) ys = store m p (xs @ ys)"
  by (rule ext) (auto simp: store_def ptr_add_def nth_append)

lemma length_record_bytes:
  "length (record_bytes key val) = get_varint_size (of_nat (length key)) +
     get_varint_size (of_nat (length val)) + length key + length val"
  by (simp add: record_bytes_def length_encode_varint)

lemma record_bytes_nonempty: "0 < length (record_bytes key val)"
  using varint_size_bounds by (simp add: length_record_bytes)

text \<open>The four partial writes of \<open>insert\<close> lay out one record.\<close>

lemma kv_insert_eq:
  "kv_insert kvs t key val =
     (let (p, a) = conc_allocate (kv_arena kvs) t (length (record_bytes key val))
      in (p, \<lparr>kv_arena = a, kv_mem = store (kv_mem kvs) p (record_bytes key val)\<rparr>))"
  using store_append [of "kv_mem kvs" _ "encode_varint (of_nat (length key))" key]
    store_append [of "kv_mem kvs" _ "encode_varint (of_nat (length key)) @ key"
      "encode_varint (of_nat (length val))"]
    store_append [of "kv_mem kvs" _ "encode_varint (of_nat (length key)) @ key @
      encode_varint (of_nat (length val))" val]
  by (simp add: kv_insert_def length_record_bytes Let_def length_encode_varint record_bytes_def
      add.assoc add.left_commute)

lemma owned_base:
  assumes "quiescent a" "conc_owned a (p, n)" "0 < n"
  shows "base p \<noteq> None"
  using assms by (auto simp: quiescent_def mem_inv_def conc_owned_def covered_def split: option.splits)

lemma store_apart:
  assumes "\<not> overlap (q, length xs) (p, length bs)" "base q \<noteq> None" "xs \<noteq> []"
  shows "holds (store m p bs) q xs \<longleftrightarrow> holds m q xs"
proof (cases "bs = []")
  case True
  then have "store m p bs = m" by (intro ext) (auto simp: store_def)
  then show ?thesis by simp
next
  case False
  with assms show ?thesis by (intro store_outside) auto
qed

section \<open>The index\<close>

text \<open>
  \<open>KVSkipList\<close>, in this version of the program a list of the records in insertion order.
  Its mutex serialises insertions; \<open>erase\<close> is declared and never defined.
\<close>

record kv_skip_list =
  max_height :: nat
  branching_factor :: nat
  sl_kvs :: kv_store
  sl_nodes :: "ptr list"

definition new_skip_list :: "nat \<Rightarrow> u32 \<Rightarrow> (nat \<Rightarrow> nat) \<Rightarrow> kv_skip_list" where
  "new_skip_list align_unit num_cpus cpu_ids =
     \<lparr>max_height = 12, branching_factor = 4,
      sl_kvs = new_kv_store align_unit num_cpus cpu_ids 4096, sl_nodes = []\<rparr>"

fun find_loop :: "mem \<Rightarrow> bytes \<Rightarrow> ptr list \<Rightarrow> span list option" where
  "find_loop m key [] = Some []"
| "find_loop m key (node # nodes) = do {
     (test_key, val) \<leftarrow> kv_get m node;
     values \<leftarrow> find_loop m key nodes;
     Some (if kv_compare key (load_span m test_key) = 0 then val # values else values)
   }"

definition sl_find :: "kv_skip_list \<Rightarrow> bytes \<Rightarrow> span list option" where
  "sl_find s key = find_loop (kv_mem (sl_kvs s)) key (sl_nodes s)"

definition sl_insert :: "kv_skip_list \<Rightarrow> nat \<Rightarrow> bytes \<Rightarrow> bytes \<Rightarrow> kv_skip_list" where
  "sl_insert s t key val =
     (let (p, kvs) = kv_insert (sl_kvs s) t key val
      in s\<lparr>sl_kvs := kvs, sl_nodes := sl_nodes s @ [p]\<rparr>)"

definition sl_used :: "kv_skip_list \<Rightarrow> nat" where
  "sl_used s = c_used (kv_arena (sl_kvs s))"

definition sl_size :: "kv_skip_list \<Rightarrow> nat" where
  "sl_size s = length (sl_nodes s)"

text \<open>The pairs an index stands for, oldest first.\<close>

definition node_is :: "kv_store \<Rightarrow> ptr \<Rightarrow> bytes \<times> bytes \<Rightarrow> bool" where
  "node_is kvs p kv \<longleftrightarrow> (case kv of (key, val) \<Rightarrow>
     fits key val \<and> holds (kv_mem kvs) p (record_bytes key val) \<and>
     conc_owned (kv_arena kvs) (p, length (record_bytes key val)))"

definition sl_abs :: "kv_skip_list \<Rightarrow> (bytes \<times> bytes) list \<Rightarrow> bool" where
  "sl_abs s kvs \<longleftrightarrow> quiescent (kv_arena (sl_kvs s)) \<and> list_all2 (node_is (sl_kvs s)) (sl_nodes s) kvs"

lemma memcmp_same [simp]: "memcmp xs xs n = 0"
  by (induction n arbitrary: xs; case_tac xs) auto

lemma memcmp_0:
  "length xs = length ys \<Longrightarrow> memcmp xs ys (length ys) = 0 \<Longrightarrow> xs = ys"
  by (induction xs ys rule: list_induct2) (auto split: if_splits simp: word_unat_eq_iff)

lemma kv_compare_0: "kv_compare a b = 0 \<longleftrightarrow> a = b"
  using memcmp_0 [of a b] by (auto simp: kv_compare_def Let_def split: if_splits)

lemma kv_insert_spec:
  assumes "quiescent (kv_arena kvs)" "fits key val" "kv_insert kvs t key val = (p, kvs')"
  shows "quiescent (kv_arena kvs') \<and> node_is kvs' p (key, val) \<and>
    (\<forall>q kv. node_is kvs q kv \<longrightarrow> node_is kvs' q kv)"
proof -
  let ?r = "record_bytes key val"
  from assms(3) obtain a where al: "conc_allocate (kv_arena kvs) t (length ?r) = (p, a)"
    and kvs': "kvs' = \<lparr>kv_arena = a, kv_mem = store (kv_mem kvs) p ?r\<rparr>"
    by (auto simp: kv_insert_eq Let_def split: prod.splits)
  have serve: "conc_serve (kv_arena kvs) (t, length ?r) = (p, a)"
    using al by (simp add: conc_serve_def)
  have new: "node_is kvs' p (key, val)"
    using assms(2) conc_alloc.alloc_owned [OF assms(1) serve] record_bytes_nonempty
    by (simp add: node_is_def kvs' holds_store)
  have old: "node_is kvs' q (k, v)" if "node_is kvs q (k, v)" for q k v
  proof -
    have own: "conc_owned (kv_arena kvs) (q, length (record_bytes k v))"
      using that by (simp add: node_is_def)
    have "\<not> overlap (q, length (record_bytes k v)) (p, length ?r)"
      using conc_alloc.alloc_fresh [OF assms(1) serve own] by simp
    moreover have "base q \<noteq> None" using owned_base [OF assms(1) own record_bytes_nonempty] .
    ultimately show ?thesis
      using that conc_alloc.owned_mono [OF assms(1) serve own] store_apart [of q "record_bytes k v" p ?r]
        record_bytes_nonempty [of k v]
      by (auto simp: node_is_def kvs')
  qed
  show ?thesis
    using conc_alloc.inv_alloc [OF assms(1) serve] new old by (auto simp: kvs')
qed

lemma sl_abs_new: "0 < al \<Longrightarrow> sl_abs (new_skip_list al ncpu ids) []"
  by (simp add: sl_abs_def new_skip_list_def new_kv_store_def quiescent_new)

lemma sl_abs_insert:
  assumes "sl_abs s kvs" "fits key val"
  shows "sl_abs (sl_insert s t key val) (kvs @ [(key, val)])"
proof -
  obtain p st where ins: "kv_insert (sl_kvs s) t key val = (p, st)" by fastforce
  have q: "quiescent (kv_arena (sl_kvs s))" using assms(1) by (simp add: sl_abs_def)
  note spec = kv_insert_spec [OF q assms(2) ins]
  then have "list_all2 (node_is st) (sl_nodes s) kvs"
    using assms(1) by (auto simp: sl_abs_def elim: list_all2_mono)
  with spec show ?thesis by (simp add: sl_abs_def sl_insert_def ins list_all2_appendI)
qed

lemma find_loop_abs:
  assumes "list_all2 (node_is st) nodes kvs"
  shows "map_option (map (load_span (kv_mem st))) (find_loop (kv_mem st) key nodes) =
    Some (map snd (filter (\<lambda>(k, v). k = key) kvs))"
  using assms
proof (induction rule: list_all2_induct)
  case (Cons p nodes kv kvs)
  obtain k v where kv: "kv = (k, v)" by (cases kv)
  have "holds (kv_mem st) p (record_bytes k v)" "fits k v"
    using Cons(1) kv by (simp_all add: node_is_def)
  note get = kv_get_record [OF this]
  show ?case
    using Cons.IH get
    by (auto simp: kv kv_compare_0 load_span_def split: Option.bind_splits)
qed simp

lemma sl_find_abs:
  "sl_abs s kvs \<Longrightarrow> map_option (map (load_span (kv_mem (sl_kvs s)))) (sl_find s key) =
    Some (map snd (filter (\<lambda>(k, v). k = key) kvs))"
  unfolding sl_find_def sl_abs_def by (elim conjE, rule find_loop_abs)

section \<open>The table\<close>

text \<open>
  \<open>MemTable<T>\<close> forwards to its byte map and turns byte spans into string views of the same
  memory. The program instantiates it with \<open>KVSkipList\<close> only.
\<close>

type_synonym memtable = kv_skip_list

definition mt_find :: "memtable \<Rightarrow> bytes \<Rightarrow> span list option" where
  "mt_find s key = do {
     results \<leftarrow> sl_find s key;
     Some (fold (\<lambda>r values. values @ [r]) results [])
   }"

definition mt_insert :: "memtable \<Rightarrow> nat \<Rightarrow> bytes \<Rightarrow> bytes \<Rightarrow> memtable" where
  "mt_insert s t key val = sl_insert s t key val"

definition mt_used :: "memtable \<Rightarrow> nat" where
  "mt_used s = sl_used s"

definition mt_size :: "memtable \<Rightarrow> nat" where
  "mt_size s = sl_size s"

text \<open>What a caller reads through the views \<open>find\<close> returns.\<close>

definition mt_lookup :: "memtable \<Rightarrow> bytes \<Rightarrow> bytes list option" where
  "mt_lookup s key = map_option (map (load_span (kv_mem (sl_kvs s)))) (mt_find s key)"

lemma fold_snoc: "fold (\<lambda>r values. values @ [r]) xs acc = acc @ xs"
  by (induction xs arbitrary: acc) auto

lemma mt_find_eq: "mt_find s key = sl_find s key"
  by (cases "sl_find s key") (simp_all add: mt_find_def fold_snoc)

lemma mt_lookup_abs:
  "sl_abs s kvs \<Longrightarrow> mt_lookup s key = Some (map snd (filter (\<lambda>(k, v). k = key) kvs))"
  by (simp add: mt_lookup_def mt_find_eq sl_find_abs del: map_option_eq_Some)

text \<open>
  The contract of the C++ concept \<open>KVMap\<close>: every insertion of a key adds a value at the end
  of what \<open>find\<close> returns for it, no other key changes, and \<open>find\<close> always returns.
\<close>

locale kv_map =
  fixes find :: "'s \<Rightarrow> bytes \<Rightarrow> bytes list option"
    and ins :: "'s \<Rightarrow> nat \<Rightarrow> bytes \<Rightarrow> bytes \<Rightarrow> 's"
    and count :: "'s \<Rightarrow> nat"
    and inv :: "'s \<Rightarrow> bool"
  assumes inv_ins: "inv s \<Longrightarrow> fits k v \<Longrightarrow> inv (ins s t k v)"
    and find_total: "inv s \<Longrightarrow> find s k \<noteq> None"
    and find_ins: "inv s \<Longrightarrow> fits k v \<Longrightarrow>
      find (ins s t k v) k' = map_option (\<lambda>vs. if k = k' then vs @ [v] else vs) (find s k')"
    and count_ins: "count (ins s t k v) = count s + 1"
begin

definition ins_all :: "'s \<Rightarrow> (nat \<times> bytes \<times> bytes) list \<Rightarrow> 's" where
  "ins_all = foldl (\<lambda>s (t, k, v). ins s t k v)"

lemma ins_all_simps [simp]:
  "ins_all s [] = s" "ins_all s ((t, k, v) # ops) = ins_all (ins s t k v) ops"
  by (simp_all add: ins_all_def)

lemma inv_ins_all: "inv s \<Longrightarrow> \<forall>(t, k, v) \<in> set ops. fits k v \<Longrightarrow> inv (ins_all s ops)"
proof (induction ops arbitrary: s)
  case (Cons op ops)
  obtain t k v where op: "op = (t, k, v)" by (cases op)
  show ?case
    using Cons.prems Cons.IH [OF inv_ins [of s k v t]] by (simp add: op)
qed simp

lemma find_ins_all:
  "inv s \<Longrightarrow> find s k' = Some vs \<Longrightarrow> \<forall>(t, k, v) \<in> set ops. fits k v \<Longrightarrow>
    find (ins_all s ops) k' = Some (vs @ map snd (filter (\<lambda>(k, v). k = k') (map snd ops)))"
proof (induction ops arbitrary: s vs)
  case (Cons op ops)
  obtain t k v where op: "op = (t, k, v)" by (cases op)
  show ?case
    using Cons.prems Cons.IH [OF inv_ins [of s k v t]] by (simp add: op find_ins)
qed simp

lemma count_ins_all: "count (ins_all s ops) = count s + length ops"
  by (induction ops arbitrary: s) (auto simp: count_ins)

end

interpretation mt: kv_map mt_lookup mt_insert mt_size "\<lambda>s. \<exists>kvs. sl_abs s kvs"
proof unfold_locales
  fix s t k v
  assume "\<exists>kvs. sl_abs s kvs"
  then obtain kvs where kvs: "sl_abs s kvs" by blast
  show "mt_lookup s k \<noteq> None" by (simp add: mt_lookup_abs [OF kvs])
  assume "fits k v"
  note ins = sl_abs_insert [OF kvs this, of t]
  then show "\<exists>kvs. sl_abs (mt_insert s t k v) kvs" by (auto simp: mt_insert_def)
  show "mt_lookup (mt_insert s t k v) k' =
      map_option (\<lambda>vs. if k = k' then vs @ [v] else vs) (mt_lookup s k')" for k'
    using mt_lookup_abs [OF kvs] mt_lookup_abs [OF ins] by (simp add: mt_insert_def)
next
  show "mt_size (mt_insert s t k v) = mt_size s + 1" for s t k v
    by (simp add: mt_size_def mt_insert_def sl_size_def sl_insert_def split: prod.splits)
qed

text \<open>Records stay where they are, so a view handed out reads the same bytes for ever.\<close>

lemma find_loop_stable:
  assumes "list_all2 (node_is st) nodes kvs" "list_all2 (node_is st') nodes kvs"
  shows "find_loop (kv_mem st') key nodes = find_loop (kv_mem st) key nodes"
  using assms
proof (induction rule: list_all2_induct)
  case (Cons p nodes kv kvs)
  obtain k v where kv: "kv = (k, v)" by (cases kv)
  have h: "holds (kv_mem st) p (record_bytes k v)" "holds (kv_mem st') p (record_bytes k v)"
    "fits k v"
    using Cons kv by (simp_all add: node_is_def)
  show ?case
    using Cons kv_get_record [OF h(1,3)] kv_get_record [OF h(2,3)] by (simp add: load_span_def)
qed simp

lemma node_is_ins_all:
  assumes "sl_abs s kvs" "\<forall>(t, k, v) \<in> set ops. fits k v" "node_is (sl_kvs s) q kv"
  shows "node_is (sl_kvs (mt.ins_all s ops)) q kv"
  using assms
proof (induction ops arbitrary: s kvs)
  case (Cons op ops)
  obtain t k v where op: "op = (t, k, v)" by (cases op)
  with Cons.prems have f: "fits k v" "\<forall>(t, k, v) \<in> set ops. fits k v" by auto
  obtain p st where ins: "kv_insert (sl_kvs s) t k v = (p, st)" by fastforce
  have q: "quiescent (kv_arena (sl_kvs s))" using Cons.prems(1) by (simp add: sl_abs_def)
  have "node_is (sl_kvs (mt_insert s t k v)) q kv"
    using kv_insert_spec [OF q f(1) ins] Cons.prems(3)
    by (cases kv) (simp add: mt_insert_def sl_insert_def ins)
  moreover have "sl_abs (mt_insert s t k v) (kvs @ [(k, v)])"
    unfolding mt_insert_def using Cons.prems(1) f(1) by (rule sl_abs_insert)
  ultimately show ?case using Cons.IH f(2) by (simp add: op)
qed simp

section \<open>Properties\<close>

text \<open>The decoder returns the encoded integer from the bytes the encoder wrote, whatever
  follows them, and consumes exactly the number of bytes computed beforehand, one to ten.\<close>
theorem varint_roundtrip:
  "decode_varint (\<lambda>i. (encode_varint v @ rest) ! i) = Some (v, get_varint_size v) \<and>
   length (encode_varint v) = get_varint_size v \<and>
   get_varint_size v \<in> {1..10}"
proof -
  have "decode_varint (\<lambda>i. (encode_varint v @ rest) ! i) = Some (v, length (encode_varint v))"
    by (rule decode_varint_encode) (simp add: nth_append)
  then show ?thesis
    using varint_size_bounds [of v] by (simp add: length_encode_varint Suc_le_eq)
qed

lemma Nil_less_iff [simp]: "([] :: bytes) < xs \<longleftrightarrow> xs \<noteq> []"
  by (cases xs) auto

lemma memcmp_sign:
  "length xs \<le> n \<Longrightarrow> length ys \<le> n \<Longrightarrow> k = min (length xs) (length ys) \<Longrightarrow>
    (xs < ys \<longleftrightarrow> memcmp xs ys k < 0 \<or> memcmp xs ys k = 0 \<and> length xs < length ys)"
proof (induction xs ys k arbitrary: n rule: memcmp.induct)
  case (1 x xs y ys k)
  then show ?case
    by (cases n) (auto simp: word_less_def word_uint_eq_iff)
qed (auto simp: min_def split: if_splits)

text \<open>The comparison of keys is the lexicographic order on bytes taken as unsigned: negative,
  zero and positive exactly when the first key is smaller, equal and greater.\<close>
theorem kv_compare_lexicographic:
  "(kv_compare a b < 0 \<longleftrightarrow> a < b) \<and> (kv_compare a b = 0 \<longleftrightarrow> a = b) \<and>
   (kv_compare a b > 0 \<longleftrightarrow> b < a)"
proof -
  have lt: "kv_compare x y < 0 \<longleftrightarrow> x < y" for x y
    using memcmp_sign [of x "max (length x) (length y)" y] by (auto simp: kv_compare_def Let_def)
  have "kv_compare a b > 0 \<longleftrightarrow> \<not> kv_compare a b < 0 \<and> kv_compare a b \<noteq> 0" by auto
  also have "\<dots> \<longleftrightarrow> b < a" unfolding lt kv_compare_0 by auto
  finally show ?thesis by (simp add: lt kv_compare_0)
qed

text \<open>C2: after any sequence of insertions by any threads, a look-up returns, and it yields
  exactly the values inserted for that key, in the order of insertion.\<close>
theorem memtable_find_after_inserts:
  assumes "0 < align_unit" and "\<forall>(t, k, v) \<in> set ops. fits k v"
    and "s = foldl (\<lambda>s (t, k, v). mt_insert s t k v) (new_skip_list align_unit num_cpus cpu_ids) ops"
  shows "mt_lookup s key = Some (map snd (filter (\<lambda>(k, v). k = key) (map snd ops))) \<and>
    mt_size s = length ops"
proof -
  let ?s0 = "new_skip_list align_unit num_cpus cpu_ids"
  have new: "sl_abs ?s0 []" using assms(1) by (rule sl_abs_new)
  have "mt_lookup ?s0 key = Some []" using mt_lookup_abs [OF new] by simp
  moreover have "mt_size ?s0 = 0" by (simp add: mt_size_def sl_size_def new_skip_list_def)
  moreover have "s = mt.ins_all ?s0 ops" by (simp add: assms(3) mt.ins_all_def)
  ultimately show ?thesis
    using mt.find_ins_all [OF exI [of "sl_abs ?s0", OF new] _ assms(2)] mt.count_ins_all by simp
qed

text \<open>Two values for one key, inserted by different threads, and one for another key.\<close>
theorem memtable_find_after_inserts_witness:
  "let s = foldl (\<lambda>s (t, k, v). mt_insert s t k v) (new_skip_list 16 4 (\<lambda>_. 0))
       [(0, [1, 2], [7]), (1, [3], [8]), (2, [1, 2], [])]
   in mt_lookup s [1, 2] = Some [[7], []] \<and> mt_size s = 3"
  using memtable_find_after_inserts
    [of 16 "[(0, [1, 2], [7]), (1, [3], [8]), (2, [1, 2], [])]" _ 4 "\<lambda>_. 0" "[1, 2]", OF _ _ refl]
  by (simp add: fits_def Let_def)

text \<open>The views that \<open>find\<close> returns keep reading the same bytes through every later
  insertion: stored records are neither moved nor overwritten.\<close>
theorem memtable_views_stable:
  assumes "sl_abs s kvs" and "\<forall>(t, k, v) \<in> set ops. fits k v" and "mt_find s key = Some views"
    and "s' = foldl (\<lambda>s (t, k, v). mt_insert s t k v) s ops"
  shows "map (load_span (kv_mem (sl_kvs s'))) views = map (load_span (kv_mem (sl_kvs s))) views"
proof -
  have s': "s' = mt.ins_all s ops" by (simp add: assms(4) mt.ins_all_def)
  have old: "list_all2 (node_is (sl_kvs s)) (sl_nodes s) kvs"
    using assms(1) by (simp add: sl_abs_def)
  then have new: "list_all2 (node_is (sl_kvs s')) (sl_nodes s) kvs"
    unfolding s' using node_is_ins_all [OF assms(1,2)] by (rule list_all2_mono)
  have "find_loop (kv_mem (sl_kvs s)) key (sl_nodes s) = Some views"
    using assms(3) by (simp add: mt_find_eq sl_find_def)
  then show ?thesis
    using find_loop_abs [OF old, of key] find_loop_abs [OF new, of key] find_loop_stable [OF old new]
    by simp
qed

theorem memtable_views_stable_witness:
  "let s = mt_insert (new_skip_list 16 4 (\<lambda>_. 0)) 0 [1, 2] [7];
       s' = foldl (\<lambda>s (t, k, v). mt_insert s t k v) s [(1, [1, 2], [9, 9])]
   in \<exists>views. mt_find s [1, 2] = Some views \<and>
        map (load_span (kv_mem (sl_kvs s'))) views = [[7]]"
proof -
  let ?s = "mt_insert (new_skip_list 16 4 (\<lambda>_. 0)) 0 [1, 2] [7]"
  have abs: "sl_abs ?s [([1, 2], [7])]"
    using sl_abs_insert [OF sl_abs_new, of 16 "[1, 2]" "[7]"] by (simp add: mt_insert_def fits_def)
  obtain views where v: "mt_find ?s [1, 2] = Some views"
    "map (load_span (kv_mem (sl_kvs ?s))) views = [[7]]"
    using mt_lookup_abs [OF abs, of "[1, 2]"] by (auto simp: mt_lookup_def)
  then show ?thesis
    using memtable_views_stable [OF abs _ v(1) refl, of "[(1, [1, 2], [9, 9])]"]
    by (simp add: fits_def)
qed

end
