(* ===== verification/Rng.thy ===== *)
theory Rng
  imports Prelude
begin

text \<open>
  The pseudo-random generator of \<open>lib_database/src/random.{hpp,cpp}\<close>. The state is the
  64-bit \<open>seed_\<close>; the results leave it as 32 bits.
\<close>

definition rng_M :: nat where
  "rng_M = 2147483647"

definition rng_A :: nat where
  "rng_A = 16807"

record random =
  seed :: u64

definition next32 :: "random \<Rightarrow> u32 \<times> random" where
  "next32 r =
     (let product = seed r * of_nat rng_A;
          s = ucast (ucast (drop_bit 31 product + (product AND of_nat rng_M)) :: u32) :: u64;
          s = (if s > of_nat rng_M then s - of_nat rng_M else s)
      in (ucast s, r\<lparr>seed := s\<rparr>))"

text \<open>The two calls of \<open>next64\<close> in the order they are written; C++ leaves it open.\<close>

definition next64 :: "random \<Rightarrow> u64 \<times> random" where
  "next64 r = (let (hi, r) = next32 r; (lo, r) = next32 r in (push_bit 32 (ucast hi) OR ucast lo, r))"

text \<open>
  \<open>instance\<close>: every thread makes its own generator at its first call, with the hash of its number as the seed.
\<close>

definition new_random :: "u64 \<Rightarrow> random" where
  "new_random s = \<lparr>seed = s\<rparr>"

definition random_instance :: "(nat \<Rightarrow> u64) \<Rightarrow> nat \<Rightarrow> (nat \<rightharpoonup> random) \<Rightarrow> random \<times> (nat \<rightharpoonup> random)" where
  "random_instance hash_thread t instances =
     (case instances t of
        Some rv \<Rightarrow> (rv, instances)
      | None \<Rightarrow> (let rv = new_random (hash_thread t) in (rv, instances(t \<mapsto> rv))))"

lemma random_instance_of_thread:
  "random_instance h t m = (rv, m') \<Longrightarrow>
     m' t = Some rv \<and> random_instance h t m' = (rv, m') \<and> (\<forall>u. u \<noteq> t \<longrightarrow> m' u = m u)"
  by (auto simp: random_instance_def Let_def split: option.splits)

lemma rng_coprime: "coprime rng_A rng_M"
  by (simp add: rng_A_def rng_M_def coprime_iff_gcd_eq_1 gcd_non_0_nat)

text \<open>\<open>2^31\<close> is congruent to 1, so the two halves of the product can be added.\<close>

lemma fold31:
  fixes p :: nat
  shows "(p div 2 ^ 31 + p mod 2 ^ 31) mod rng_M = p mod rng_M"
proof -
  have "p = p div 2 ^ 31 * 2 ^ 31 + p mod 2 ^ 31" by simp
  also have "\<dots> = p div 2 ^ 31 * rng_M + (p div 2 ^ 31 + p mod 2 ^ 31)"
    by (simp add: rng_M_def)
  finally have "p mod rng_M = (p div 2 ^ 31 * rng_M + (p div 2 ^ 31 + p mod 2 ^ 31)) mod rng_M"
    by presburger
  then show ?thesis by simp
qed

lemma product_nonzero:
  assumes "0 < s" "s < rng_M"
  shows "(s * rng_A) mod rng_M \<noteq> 0"
  using assms rng_coprime coprime_dvd_mult_left_iff [of rng_M rng_A s]
  by (auto simp: coprime_commute mod_eq_0_iff_dvd dest: dvd_imp_le)

lemma and_M: "x AND of_nat rng_M = (take_bit 31 x :: u64)"
  by (simp add: rng_M_def take_bit_eq_mask mask_eq_exp_minus_1)

text \<open>From a state strictly between 0 and \<open>M = 2^31 - 1\<close> one step is the Park-Miller
  generator \<open>s * 16807 mod M\<close>, computed without division and without overflow, and the new state
  is again strictly between 0 and \<open>M\<close>.\<close>
theorem next32_park_miller:
  assumes "0 < seed r" and "unat (seed r) < rng_M"
  shows "unat (fst (next32 r)) = (unat (seed r) * rng_A) mod rng_M \<and>
    seed (snd (next32 r)) = ucast (fst (next32 r)) \<and>
    0 < seed (snd (next32 r)) \<and> unat (seed (snd (next32 r))) < rng_M"
proof -
  define s where "s = unat (seed r)"
  have s: "0 < s" "s < rng_M"
    using assms by (auto simp: s_def word_less_nat_alt unat_eq_0 intro: gr0I)
  define p where "p = seed r * of_nat rng_A"
  have "s * rng_A < 2 ^ 46" using s by (simp add: rng_M_def rng_A_def)
  then have p: "unat p = s * rng_A"
    by (simp add: p_def s_def unat_word_ariths rng_A_def)
  define t where "t = unat p div 2 ^ 31 + unat p mod 2 ^ 31"
  have t: "t < 2 * rng_M" "t mod rng_M = s * rng_A mod rng_M"
  proof -
    have "unat p div 2 ^ 31 < 2 ^ 15"
      using \<open>s * rng_A < 2 ^ 46\<close> p by (simp add: div_less_iff_less_mult)
    moreover have "unat p mod 2 ^ 31 < 2 ^ 31" by simp
    ultimately show "t < 2 * rng_M" by (simp add: t_def rng_M_def)
    show "t mod rng_M = s * rng_A mod rng_M" unfolding t_def fold31 p ..
  qed
  define q where "q = drop_bit 31 p + take_bit 31 p"
  have q: "unat q = t"
    unfolding q_def using t(1)
    by (simp add: t_def unat_word_ariths unsigned_drop_bit_eq unsigned_take_bit_eq drop_bit_eq_div
        take_bit_eq_mod rng_M_def unat_div)
  have "unat (ucast q :: u32) = t"
    using t(1) q by (simp add: unsigned_ucast_eq take_bit_eq_mod rng_M_def)
  then have "unat (ucast (ucast q :: u32) :: u64) = t" by (simp add: unat_ucast_up)
  moreover have ut: "unat (of_nat t :: u64) = t" using t(1) by (simp add: rng_M_def unat_of_nat)
  ultimately have w: "ucast (ucast q :: u32) = (of_nat t :: u64)"
    by (simp only: word_unat_eq_iff)
  have nz: "t mod rng_M \<noteq> 0" using t(2) product_nonzero [OF s] by simp
  define u where "u = (if of_nat t > (of_nat rng_M :: u64) then of_nat t - of_nat rng_M else of_nat t :: u64)"
  have u: "unat u = t mod rng_M"
  proof (cases "rng_M < t")
    case True
    then have "t mod rng_M = t - rng_M"
      using t(1) by (simp add: le_mod_geq)
    then show ?thesis
      using True ut by (simp add: u_def word_less_nat_alt rng_M_def unat_sub_if_size)
  next
    case False
    with nz have "t < rng_M" by (cases "t = rng_M") auto
    then show ?thesis using ut by (simp add: u_def word_less_nat_alt rng_M_def)
  qed
  have "t mod rng_M < rng_M" by (simp add: rng_M_def)
  have n: "next32 r = (ucast u, r\<lparr>seed := u\<rparr>)"
    using w by (simp add: next32_def Let_def and_M u_def q_def flip: p_def)
  have uc: "unat (ucast u :: u32) = unat u"
    using u \<open>t mod rng_M < rng_M\<close>
    by (simp add: unsigned_ucast_eq take_bit_eq_mod rng_M_def)
  have "ucast (ucast u :: u32) = u"
    using uc by (simp add: word_unat_eq_iff unat_ucast_up)
  then show ?thesis
    using n uc u t(2) nz \<open>t mod rng_M < rng_M\<close>
    by (simp add: s_def word_less_nat_alt unat_eq_0)
qed

theorem next32_park_miller_witness:
  "unat (fst (next32 \<lparr>seed = 2147483646\<rparr>)) = 2147466840 \<and>
   0 < seed (snd (next32 \<lparr>seed = 2147483646\<rparr>))"
  using next32_park_miller [of "\<lparr>seed = 2147483646\<rparr>"]
  by (auto simp add: rng_M_def rng_A_def)

text \<open>The states 0 and \<open>M\<close>, which the constructor does not exclude, are fixed points.\<close>

lemma next32_fixed_points:
  "next32 \<lparr>seed = 0\<rparr> = (0, \<lparr>seed = 0\<rparr>)"
  "next32 \<lparr>seed = of_nat rng_M\<rparr> = (of_nat rng_M, \<lparr>seed = of_nat rng_M\<rparr>)"
  by (simp_all add: next32_def and_M) (simp_all add: rng_M_def rng_A_def)

end
