(* ===== verification/Stdio.thy ===== *)
theory Stdio
  imports Prelude
begin

text \<open>
  The part of \<open><stdio.h>\<close> that the program uses: a stream is the bytes of its file and a
  position. A device holds only so much: \<open>f_room\<close> is how many bytes can still be written.
\<close>

record cfile =
  f_bytes :: bytes
  f_pos :: nat
  f_room :: nat

definition opened :: "bytes \<Rightarrow> cfile" where
  "opened bs = \<lparr>f_bytes = bs, f_pos = 0, f_room = 0\<rparr>"

definition created :: "nat \<Rightarrow> cfile" where
  "created room = \<lparr>f_bytes = [], f_pos = 0, f_room = room\<rparr>"

text \<open>The bytes transferred may be fewer than asked for; the callers compare the count.\<close>

definition fread :: "nat \<Rightarrow> cfile \<Rightarrow> bytes \<times> cfile" where
  "fread n f =
     (let bs = take n (drop (f_pos f) (f_bytes f)) in (bs, f\<lparr>f_pos := f_pos f + length bs\<rparr>))"

text \<open>Writing always happens at the end of a file the program has just created.\<close>

definition fwrite :: "bytes \<Rightarrow> cfile \<Rightarrow> nat \<times> cfile" where
  "fwrite bs f =
     (let w = take (f_room f) bs
      in (length w, f\<lparr>f_bytes := f_bytes f @ w, f_pos := length (f_bytes f @ w),
                     f_room := f_room f - length w\<rparr>))"

text \<open>\<open>fread(&x, sizeof(x), 1, f) != 1\<close> and \<open>fwrite(&x, sizeof(x), 1, f) != 1\<close> for a
  \<open>size_t\<close>, with \<open>None\<close> for a true comparison.\<close>

definition fread_u64 :: "cfile \<Rightarrow> (u64 \<times> cfile) option" where
  "fread_u64 f = (let (bs, f) = fread 8 f in if length bs = 8 then Some (le_word bs, f) else None)"

definition fwrite_all :: "bytes \<Rightarrow> cfile \<Rightarrow> cfile option" where
  "fwrite_all bs f = (let (k, f') = fwrite bs f in if k = length bs then Some f' else None)"

definition fwrite_u64 :: "u64 \<Rightarrow> cfile \<Rightarrow> cfile option" where
  "fwrite_u64 w = fwrite_all (le_bytes 8 w)"

text \<open>What is left to read.\<close>

definition rest :: "cfile \<Rightarrow> bytes" where
  "rest f = drop (f_pos f) (f_bytes f)"

lemma rest_opened [simp]: "rest (opened bs) = bs"
  by (simp add: rest_def opened_def)

lemma fread_append:
  assumes "rest f = bs @ zs" "n = length bs"
  obtains f' where "fread n f = (bs, f')" "rest f' = zs" "f_bytes f' = f_bytes f"
proof
  show "fread n f = (bs, f\<lparr>f_pos := f_pos f + length bs\<rparr>)"
    using assms by (simp add: fread_def rest_def Let_def)
  show "rest (f\<lparr>f_pos := f_pos f + length bs\<rparr>) = zs"
    using assms by (simp add: rest_def flip: drop_drop [of "length bs"] add.commute [of "length bs"])
qed simp

lemma fread_u64_append:
  assumes "rest f = le_bytes 8 w @ zs"
  obtains f' where "fread_u64 f = Some (w, f')" "rest f' = zs" "f_bytes f' = f_bytes f"
proof -
  obtain f' where "fread 8 f = (le_bytes 8 w, f')" "rest f' = zs" "f_bytes f' = f_bytes f"
    using fread_append [OF assms, of 8] by auto
  then show thesis using that by (auto simp: fread_u64_def)
qed

lemma fwrite_all_Some:
  "length bs \<le> f_room f \<Longrightarrow> fwrite_all bs f =
    Some (f\<lparr>f_bytes := f_bytes f @ bs, f_pos := length (f_bytes f @ bs),
      f_room := f_room f - length bs\<rparr>)"
  by (simp add: fwrite_all_def fwrite_def Let_def)

lemma fwrite_all_None: "f_room f < length bs \<Longrightarrow> fwrite_all bs f = None"
  by (simp add: fwrite_all_def fwrite_def Let_def)

lemma fwrite_all_iff: "fwrite_all bs f = Some f' \<longleftrightarrow> length bs \<le> f_room f \<and>
    f' = f\<lparr>f_bytes := f_bytes f @ bs, f_pos := length (f_bytes f @ bs), f_room := f_room f - length bs\<rparr>"
  by (cases "length bs \<le> f_room f") (auto simp: fwrite_all_Some fwrite_all_None)

end
