(* ===== verification/BloomFilter.thy ===== *)
theory BloomFilter
  imports Stdio
begin

text \<open>
  The Bloom filter of \<open>lib_database/src/filter.{hpp,cpp}\<close>. \<open>boost::dynamic_bitset\<close> is a
  library outside the repository: its operations are arguments here, and \<open>bitset_laws\<close> states
  what its documentation promises of them. \<open>std::hash<std::string_view>\<close>, which each
  implementation chooses, is the argument \<open>hasher\<close>.
\<close>

section \<open>The bit set\<close>

record 'b bitset_ops =
  bs_make :: "nat \<Rightarrow> 'b"
  bs_size :: "'b \<Rightarrow> nat"
  bs_set :: "'b \<Rightarrow> nat \<Rightarrow> 'b"
  bs_test :: "'b \<Rightarrow> nat \<Rightarrow> bool"
  bs_blocks :: "'b \<Rightarrow> u64 list"

definition bitset_laws :: "'b bitset_ops \<Rightarrow> bool" where
  "bitset_laws B \<longleftrightarrow>
     (\<forall>n. bs_size B (bs_make B n) = n) \<and>
     (\<forall>n i. i < n \<longrightarrow> \<not> bs_test B (bs_make B n) i) \<and>
     (\<forall>b i. bs_size B (bs_set B b i) = bs_size B b) \<and>
     (\<forall>b i j. i < bs_size B b \<longrightarrow> j < bs_size B b \<longrightarrow>
        bs_test B (bs_set B b i) j = (i = j \<or> bs_test B b j)) \<and>
     (\<forall>b. length (bs_blocks B b) = (bs_size B b + 63) div 64) \<and>
     (\<forall>b j. j < bs_size B b \<longrightarrow> bit (bs_blocks B b ! (j div 64)) (j mod 64) = bs_test B b j)"

lemma bitset_lawsD:
  assumes "bitset_laws B"
  shows "bs_size B (bs_make B n) = n"
    and "i < n \<Longrightarrow> \<not> bs_test B (bs_make B n) i"
    and "bs_size B (bs_set B b i) = bs_size B b"
    and "i < bs_size B b \<Longrightarrow> j < bs_size B b \<Longrightarrow>
      bs_test B (bs_set B b i) j = (i = j \<or> bs_test B b j)"
    and "length (bs_blocks B b) = (bs_size B b + 63) div 64"
    and "j < bs_size B b \<Longrightarrow> bit (bs_blocks B b ! (j div 64)) (j mod 64) = bs_test B b j"
  using assms by (simp_all add: bitset_laws_def)

section \<open>The filter\<close>

datatype filter_error = Null_File | Header_Failed | Block_Count_Failed | Blocks_Failed

record 'b bloom =
  bf_size :: u64
  bf_hash_count :: u64
  bf_bits :: 'b

definition new_bloom :: "'b bitset_ops \<Rightarrow> u64 \<Rightarrow> u64 \<Rightarrow> 'b bloom" where
  "new_bloom B n k = \<lparr>bf_size = n, bf_hash_count = k, bf_bits = bs_make B (unat n)\<rparr>"

definition bf_hash :: "(bytes \<Rightarrow> u64) \<Rightarrow> bytes \<Rightarrow> u64 \<Rightarrow> u64" where
  "bf_hash hasher item seed =
     (let h1 = hasher item
      in h1 XOR (seed + 0x9e3779b97f4a7c15 + push_bit 6 h1 + drop_bit 2 h1))"

text \<open>The positions of an item, in the order of the loops; \<open>None\<close> is the division by zero.\<close>

definition bf_position :: "(bytes \<Rightarrow> u64) \<Rightarrow> 'b bloom \<Rightarrow> bytes \<Rightarrow> nat \<Rightarrow> nat option" where
  "bf_position hasher f item i =
     (if bf_size f = 0 then None else Some (unat (bf_hash hasher item (of_nat i) mod bf_size f)))"

fun add_loop :: "'b bitset_ops \<Rightarrow> (bytes \<Rightarrow> u64) \<Rightarrow> bytes \<Rightarrow> nat list \<Rightarrow> 'b bloom \<Rightarrow> 'b bloom option"
where
  "add_loop B hasher item [] f = Some f"
| "add_loop B hasher item (i # is) f =
     (case bf_position hasher f item i of
        None \<Rightarrow> None
      | Some h \<Rightarrow> add_loop B hasher item is (f\<lparr>bf_bits := bs_set B (bf_bits f) h\<rparr>))"

definition bf_add :: "'b bitset_ops \<Rightarrow> (bytes \<Rightarrow> u64) \<Rightarrow> 'b bloom \<Rightarrow> bytes \<Rightarrow> 'b bloom option" where
  "bf_add B hasher f item = add_loop B hasher item [0..<unat (bf_hash_count f)] f"

fun contains_loop :: "'b bitset_ops \<Rightarrow> (bytes \<Rightarrow> u64) \<Rightarrow> 'b bloom \<Rightarrow> bytes \<Rightarrow> nat list \<Rightarrow> bool option"
where
  "contains_loop B hasher f item [] = Some True"
| "contains_loop B hasher f item (i # is) =
     (case bf_position hasher f item i of
        None \<Rightarrow> None
      | Some h \<Rightarrow>
          if \<not> bs_test B (bf_bits f) h then Some False else contains_loop B hasher f item is)"

definition bf_contains :: "'b bitset_ops \<Rightarrow> (bytes \<Rightarrow> u64) \<Rightarrow> 'b bloom \<Rightarrow> bytes \<Rightarrow> bool option" where
  "bf_contains B hasher f item = contains_loop B hasher f item [0..<unat (bf_hash_count f)]"

section \<open>Saving and loading\<close>

definition bf_save :: "'b bitset_ops \<Rightarrow> 'b bloom \<Rightarrow> cfile option \<Rightarrow> filter_error + nat \<times> cfile" where
  "bf_save B f fp =
     (case fp of
        None \<Rightarrow> Inl Null_File
      | Some fp \<Rightarrow>
        (case fwrite_u64 (bf_size f) fp of
           None \<Rightarrow> Inl Header_Failed
         | Some fp \<Rightarrow>
           (case fwrite_u64 (bf_hash_count f) fp of
              None \<Rightarrow> Inl Header_Failed
            | Some fp \<Rightarrow>
              (let blocks = bs_blocks B (bf_bits f); nblocks = length blocks in
               case fwrite_u64 (of_nat nblocks) fp of
                 None \<Rightarrow> Inl Block_Count_Failed
               | Some fp \<Rightarrow>
                 (case fwrite_all (concat (map (le_bytes 8) blocks)) fp of
                    None \<Rightarrow> Inl Blocks_Failed
                  | Some fp \<Rightarrow> Inr (8 + 8 + 8 + nblocks * 8, fp))))))"

text \<open>\<open>fread(blocks.data(), 8, nblocks, fp)\<close> with the comparison of its count.\<close>

fun read_blocks :: "nat \<Rightarrow> cfile \<Rightarrow> (u64 list \<times> cfile) option" where
  "read_blocks 0 f = Some ([], f)"
| "read_blocks (Suc n) f =
     (case fread_u64 f of
        None \<Rightarrow> None
      | Some (w, f) \<Rightarrow>
          (case read_blocks n f of None \<Rightarrow> None | Some (ws, f) \<Rightarrow> Some (w # ws, f)))"

definition fill_block :: "'b bitset_ops \<Rightarrow> nat \<Rightarrow> nat \<Rightarrow> u64 \<Rightarrow> 'b \<Rightarrow> 'b" where
  "fill_block B bit_count i blk =
     fold (\<lambda>b bits.
       if blk AND push_bit b 1 \<noteq> 0 then
         (let pos = i * 64 + b in if pos < bit_count then bs_set B bits pos else bits)
       else bits) [0..<64]"

definition fill_bits :: "'b bitset_ops \<Rightarrow> nat \<Rightarrow> u64 list \<Rightarrow> 'b" where
  "fill_bits B bit_count blocks =
     fold (\<lambda>i. fill_block B bit_count i (blocks ! i)) [0..<length blocks] (bs_make B bit_count)"

definition bf_load :: "'b bitset_ops \<Rightarrow> cfile option \<Rightarrow> filter_error + 'b bloom \<times> cfile" where
  "bf_load B fp =
     (case fp of
        None \<Rightarrow> Inl Null_File
      | Some fp \<Rightarrow>
        (case fread_u64 fp of
           None \<Rightarrow> Inl Header_Failed
         | Some (bit_count, fp) \<Rightarrow>
           (case fread_u64 fp of
              None \<Rightarrow> Inl Header_Failed
            | Some (hash_count, fp) \<Rightarrow>
              (case fread_u64 fp of
                 None \<Rightarrow> Inl Block_Count_Failed
               | Some (nblocks, fp) \<Rightarrow>
                 (case read_blocks (unat nblocks) fp of
                    None \<Rightarrow> Inl Blocks_Failed
                  | Some (blocks, fp) \<Rightarrow>
                      Inr (\<lparr>bf_size = bit_count, bf_hash_count = hash_count,
                            bf_bits = fill_bits B (unat bit_count) blocks\<rparr>, fp))))))"

section \<open>Membership\<close>

definition bf_ok :: "'b bitset_ops \<Rightarrow> 'b bloom \<Rightarrow> bool" where
  "bf_ok B f \<longleftrightarrow> bs_size B (bf_bits f) = unat (bf_size f)"

definition same_bits :: "'b bitset_ops \<Rightarrow> 'b bloom \<Rightarrow> 'b bloom \<Rightarrow> bool" where
  "same_bits B f g \<longleftrightarrow> bf_size f = bf_size g \<and> bf_hash_count f = bf_hash_count g \<and>
     (\<forall>j < unat (bf_size f). bs_test B (bf_bits f) j = bs_test B (bf_bits g) j)"

lemma bf_position_less: "bf_position hasher f item i = Some h \<Longrightarrow> h < unat (bf_size f)"
  by (auto simp: bf_position_def unat_mod unat_eq_0 split: if_splits intro!: mod_less_divisor gr0I)

lemma bf_position_cong: "bf_size f = bf_size g \<Longrightarrow> bf_position hasher f = bf_position hasher g"
  by (intro ext) (simp add: bf_position_def)

lemma add_loop_spec:
  assumes "bitset_laws B" "bf_ok B f" "add_loop B hasher item is f = Some g"
  shows "bf_ok B g \<and> bf_size g = bf_size f \<and> bf_hash_count g = bf_hash_count f \<and>
    (\<forall>j < unat (bf_size f). bs_test B (bf_bits g) j \<longleftrightarrow>
       bs_test B (bf_bits f) j \<or> (\<exists>i \<in> set is. bf_position hasher f item i = Some j))"
  using assms(2,3)
proof (induction "is" arbitrary: f)
  case (Cons i "is")
  then obtain h where h: "bf_position hasher f item i = Some h"
    and rest: "add_loop B hasher item is (f\<lparr>bf_bits := bs_set B (bf_bits f) h\<rparr>) = Some g"
    by (auto split: option.splits)
  let ?f' = "f\<lparr>bf_bits := bs_set B (bf_bits f) h\<rparr>"
  have ok: "bf_ok B ?f'" using Cons.prems(1) by (simp add: bf_ok_def bitset_lawsD [OF assms(1)])
  have pos: "bf_position hasher ?f' = bf_position hasher f" by (rule bf_position_cong) simp
  have "bs_test B (bs_set B (bf_bits f) h) j = (h = j \<or> bs_test B (bf_bits f) j)"
    if "j < unat (bf_size f)" for j
    using bitset_lawsD(4) [OF assms(1)] Cons.prems(1) bf_position_less [OF h] that
    by (simp add: bf_ok_def)
  then show ?case using Cons.IH [OF ok rest] h by (auto simp: pos)
qed simp

lemma add_loop_total: "bf_size f \<noteq> 0 \<Longrightarrow> \<exists>g. add_loop B hasher item is f = Some g"
proof (induction "is" arbitrary: f)
  case (Cons i "is")
  then show ?case by (simp add: bf_position_def)
qed simp

lemma bf_add_total: "bf_size f \<noteq> 0 \<Longrightarrow> \<exists>g. bf_add B hasher f item = Some g \<and> bf_size g = bf_size f"
proof -
  have "add_loop B hasher item is f = Some g \<Longrightarrow> bf_size g = bf_size f" for "is" f g
    by (induction "is" arbitrary: f) (auto split: option.splits)
  then show "bf_size f \<noteq> 0 \<Longrightarrow> ?thesis"
    using add_loop_total unfolding bf_add_def by blast
qed

lemma contains_loop_spec:
  "bf_size f \<noteq> 0 \<Longrightarrow> contains_loop B hasher f item is =
     Some (\<forall>i \<in> set is. \<exists>h. bf_position hasher f item i = Some h \<and> bs_test B (bf_bits f) h)"
  by (induction "is") (auto simp: bf_position_def)

text \<open>Adding a list of items one after another.\<close>

fun bf_add_all :: "'b bitset_ops \<Rightarrow> (bytes \<Rightarrow> u64) \<Rightarrow> 'b bloom \<Rightarrow> bytes list \<Rightarrow> 'b bloom option" where
  "bf_add_all B hasher f [] = Some f"
| "bf_add_all B hasher f (x # xs) =
     (case bf_add B hasher f x of None \<Rightarrow> None | Some f \<Rightarrow> bf_add_all B hasher f xs)"

lemma bf_add_all_spec:
  assumes "bitset_laws B"
  shows "bf_ok B f \<Longrightarrow> bf_size f \<noteq> 0 \<Longrightarrow> \<exists>g. bf_add_all B hasher f xs = Some g \<and> bf_ok B g \<and>
    bf_size g = bf_size f \<and> bf_hash_count g = bf_hash_count f \<and>
    (\<forall>j < unat (bf_size f). bs_test B (bf_bits g) j \<longleftrightarrow> bs_test B (bf_bits f) j \<or>
       (\<exists>x \<in> set xs. \<exists>i < unat (bf_hash_count f). bf_position hasher f x i = Some j))"
proof (induction xs arbitrary: f)
  case (Cons x xs)
  obtain g where g: "bf_add B hasher f x = Some g"
    using add_loop_total Cons.prems(2) unfolding bf_add_def by blast
  note spec = add_loop_spec [OF assms Cons.prems(1) g [unfolded bf_add_def]]
  then have "bf_size g \<noteq> 0" "bf_ok B g" using Cons.prems(2) by simp_all
  with Cons.IH obtain h where h: "bf_add_all B hasher g xs = Some h \<and> bf_ok B h \<and>
    bf_size h = bf_size g \<and> bf_hash_count h = bf_hash_count g \<and>
    (\<forall>j < unat (bf_size g). bs_test B (bf_bits h) j \<longleftrightarrow> bs_test B (bf_bits g) j \<or>
       (\<exists>x \<in> set xs. \<exists>i < unat (bf_hash_count g). bf_position hasher g x i = Some j))"
    by blast
  moreover have "bf_position hasher g = bf_position hasher f"
    using spec by (intro bf_position_cong) simp
  ultimately show ?case using spec g by (intro exI [of _ h]) auto
qed simp

section \<open>Loading restores the bits\<close>

lemma and_bit_zero: "blk AND 2 ^ b = (0 :: u64) \<longleftrightarrow> \<not> bit blk b"
  by (rule and_exp_eq_0_iff_not_bit)

lemma fill_block_spec:
  assumes "bitset_laws B" "bs_size B bits = n"
  shows "bs_size B (fill_block B n i blk bits) = n \<and>
    (\<forall>j < n. bs_test B (fill_block B n i blk bits) j \<longleftrightarrow>
       bs_test B bits j \<or> j div 64 = i \<and> bit blk (j mod 64))"
proof -
  let ?f = "\<lambda>b bits. if blk AND push_bit b 1 \<noteq> 0 then
      (let pos = i * 64 + b in if pos < n then bs_set B bits pos else bits) else bits"
  have "bs_size B (fold ?f ks bits) = n \<and> (\<forall>j < n. bs_test B (fold ?f ks bits) j \<longleftrightarrow>
      bs_test B bits j \<or> (\<exists>b \<in> set ks. bit blk b \<and> i * 64 + b = j))"
    if "bs_size B bits = n" for ks bits
    using that
  proof (induction ks arbitrary: bits)
    case (Cons b ks)
    have "bs_size B (?f b bits) = n" "\<forall>j < n. bs_test B (?f b bits) j \<longleftrightarrow>
        bs_test B bits j \<or> bit blk b \<and> i * 64 + b = j"
      using Cons.prems bitset_lawsD [OF assms(1)] by (auto simp: and_bit_zero Let_def)
    with Cons.IH [OF this(1)] show ?case by auto
  qed simp
  from this [OF assms(2), of "[0..<64]"]
  have "bs_size B (fill_block B n i blk bits) = n \<and>
    (\<forall>j < n. bs_test B (fill_block B n i blk bits) j \<longleftrightarrow>
       bs_test B bits j \<or> (\<exists>b < 64. bit blk b \<and> i * 64 + b = j))"
    by (simp add: fill_block_def atLeast0LessThan Bex_def)
  moreover have "(\<exists>b < 64. bit blk b \<and> i * 64 + b = j) \<longleftrightarrow> j div 64 = i \<and> bit blk (j mod 64)" for j
    by (auto intro!: exI [of _ "j mod 64"])
  ultimately show ?thesis by simp
qed

lemma fill_bits_spec:
  assumes "bitset_laws B"
  shows "bs_size B (fill_bits B n blocks) = n \<and> (\<forall>j < n. bs_test B (fill_bits B n blocks) j \<longleftrightarrow>
    j div 64 < length blocks \<and> bit (blocks ! (j div 64)) (j mod 64))"
proof -
  let ?f = "\<lambda>i. fill_block B n i (blocks ! i)"
  have "bs_size B (fold ?f is bits) = n \<and> (\<forall>j < n. bs_test B (fold ?f is bits) j \<longleftrightarrow>
      bs_test B bits j \<or> j div 64 \<in> set is \<and> bit (blocks ! (j div 64)) (j mod 64))"
    if "bs_size B bits = n" for "is" bits
    using that
  proof (induction "is" arbitrary: bits)
    case (Cons i "is")
    with fill_block_spec [OF assms, of bits n i "blocks ! i"] show ?case by auto
  qed simp
  from this [of "bs_make B n" "[0..<length blocks]"] show ?thesis
    by (simp add: fill_bits_def bitset_lawsD [OF assms])
qed

lemma read_blocks_concat:
  assumes "rest f = concat (map (le_bytes 8) ws) @ zs"
  shows "\<exists>f'. read_blocks (length ws) f = Some (ws, f') \<and> rest f' = zs"
  using assms
proof (induction ws arbitrary: f)
  case (Cons w ws)
  then obtain f1 where "fread_u64 f = Some (w, f1)" "rest f1 = concat (map (le_bytes 8) ws) @ zs"
    by (auto intro: fread_u64_append [of f w])
  with Cons.IH [of f1] show ?case by auto
qed simp

definition bf_image :: "'b bitset_ops \<Rightarrow> 'b bloom \<Rightarrow> bytes" where
  "bf_image B f =
     le_bytes 8 (bf_size f) @ le_bytes 8 (bf_hash_count f) @
     le_bytes 8 (of_nat (length (bs_blocks B (bf_bits f))) :: u64) @
     concat (map (le_bytes 8) (bs_blocks B (bf_bits f)))"

lemma length_concat_le_bytes [simp]: "length (concat (map (le_bytes n) ws)) = length ws * n"
  by (induction ws) auto

lemma bf_save_image:
  assumes "bf_save B f (Some fp) = Inr (n, fp')"
  shows "f_bytes fp' = f_bytes fp @ bf_image B f \<and> n = length (bf_image B f)"
  using assms
  by (auto simp: bf_save_def bf_image_def fwrite_u64_def fwrite_all_iff Let_def
      split: option.splits)

lemma bf_load_image:
  assumes "bitset_laws B" "bf_ok B f" "rest fp = bf_image B f @ zs"
  shows "\<exists>g fp'. bf_load B (Some fp) = Inr (g, fp') \<and> rest fp' = zs \<and> bf_ok B g \<and> same_bits B f g"
proof -
  let ?bl = "bs_blocks B (bf_bits f)"
  have len: "length ?bl = (unat (bf_size f) + 63) div 64"
    using bitset_lawsD(5) [OF assms(1)] assms(2) by (simp add: bf_ok_def)
  have "unat (bf_size f) < 2 ^ 64" using unat_less_exp [of "bf_size f"] by simp
  then have nb: "unat (of_nat (length ?bl) :: u64) = length ?bl" by (simp add: len unat_of_nat)
  obtain f1 where 1: "fread_u64 fp = Some (bf_size f, f1)" and r1: "rest f1 =
      le_bytes 8 (bf_hash_count f) @ le_bytes 8 (of_nat (length ?bl) :: u64) @
      concat (map (le_bytes 8) ?bl) @ zs"
    using assms(3) by (auto simp: bf_image_def intro: fread_u64_append [of fp "bf_size f"])
  obtain f2 where 2: "fread_u64 f1 = Some (bf_hash_count f, f2)" and r2: "rest f2 =
      le_bytes 8 (of_nat (length ?bl) :: u64) @ concat (map (le_bytes 8) ?bl) @ zs"
    using r1 by (auto intro: fread_u64_append [of f1])
  obtain f3 where 3: "fread_u64 f2 = Some (of_nat (length ?bl), f3)"
    and r3: "rest f3 = concat (map (le_bytes 8) ?bl) @ zs"
    using r2 by (auto intro: fread_u64_append [of f2])
  obtain f4 where 4: "read_blocks (length ?bl) f3 = Some (?bl, f4)" "rest f4 = zs"
    using read_blocks_concat [OF r3] by blast
  let ?g = "\<lparr>bf_size = bf_size f, bf_hash_count = bf_hash_count f,
    bf_bits = fill_bits B (unat (bf_size f)) ?bl\<rparr>"
  have "bf_load B (Some fp) = Inr (?g, f4)"
    using 1 2 3 4 nb by (simp add: bf_load_def)
  moreover have "bf_ok B ?g" using fill_bits_spec [OF assms(1)] by (simp add: bf_ok_def)
  moreover have "j div 64 < length ?bl" if "j < unat (bf_size f)" for j
    using that by (simp add: len)
  then have "same_bits B f ?g"
    using fill_bits_spec [OF assms(1), of "unat (bf_size f)" ?bl] bitset_lawsD(6) [OF assms(1)] assms(2)
    by (auto simp: same_bits_def bf_ok_def)
  ultimately show ?thesis using 4 by blast
qed

lemma same_bits_contains:
  assumes "same_bits B f g"
  shows "bf_contains B hasher g item = bf_contains B hasher f item"
proof -
  have "contains_loop B hasher g item is = contains_loop B hasher f item is" for "is"
  proof (induction "is")
    case (Cons i "is")
    show ?case
      using Cons assms bf_position_cong [of f g hasher] bf_position_less [of hasher f item i]
      by (auto simp: same_bits_def split: option.splits)
  qed simp
  then show ?thesis using assms by (simp add: bf_contains_def same_bits_def)
qed

text \<open>A bit set for the witnesses: a list of Booleans.\<close>

fun word_of_bits :: "bool list \<Rightarrow> u64" where
  "word_of_bits [] = 0"
| "word_of_bits (x # xs) = of_bool x OR push_bit 1 (word_of_bits xs)"

definition bool_bitset :: "bool list bitset_ops" where
  "bool_bitset = \<lparr>bs_make = (\<lambda>n. replicate n False), bs_size = length,
     bs_set = (\<lambda>b i. b[i := True]), bs_test = (!),
     bs_blocks = (\<lambda>b. map (\<lambda>i. word_of_bits (take 64 (drop (i * 64) b)))
       [0..<(length b + 63) div 64])\<rparr>"

lemma bit_word_of_bits: "bit (word_of_bits xs) j \<longleftrightarrow> j < 64 \<and> j < length xs \<and> xs ! j"
proof (induction xs arbitrary: j)
  case (Cons x xs)
  have p: "bit (push_bit 1 (word_of_bits xs)) (Suc i) \<longleftrightarrow> Suc i < 64 \<and> bit (word_of_bits xs) i" for i
    by (simp only: bit_push_bit_iff possible_bit_word) simp
  have p0: "\<not> bit (push_bit 1 (word_of_bits xs)) 0" by (simp only: bit_push_bit_iff) simp
  have x: "bit (of_bool x :: u64) i \<longleftrightarrow> x \<and> i = 0" for i by (cases x) (auto simp: bit_1_iff)
  have less: "Suc i < 64 \<and> i < 64 \<longleftrightarrow> Suc i < (64 :: nat)" for i by arith
  show ?case
  proof (cases j)
    case 0
    then show ?thesis by (simp only: word_of_bits.simps bit_or_iff p0 x) simp
  next
    case (Suc i)
    then show ?thesis
      unfolding word_of_bits.simps bit_or_iff Suc p x Cons.IH conj_assoc [symmetric] less by simp
  qed
qed simp

lemma bool_bitset_laws: "bitset_laws bool_bitset"
proof -
  have "bit (bs_blocks bool_bitset b ! (j div 64)) (j mod 64) = b ! j" if "j < length b"
    for j and b :: "bool list"
  proof -
    have j: "j div 64 * 64 + j mod 64 = j" by simp
    then have "j mod 64 < length b - j div 64 * 64" using that by linarith
    moreover have "drop (j div 64 * 64) b ! (j mod 64) = b ! j"
      using that by (subst nth_drop) (linarith, simp only: j)
    moreover have "j div 64 < (length b + 63) div 64" using that by linarith
    ultimately show ?thesis by (simp add: bool_bitset_def bit_word_of_bits)
  qed
  then have "\<forall>b j. j < length b \<longrightarrow> bit (bs_blocks bool_bitset b ! (j div 64)) (j mod 64) = b ! j"
    by blast
  moreover have "bs_size bool_bitset = length" "bs_test bool_bitset = (!)"
    "bs_set bool_bitset = (\<lambda>b i. b[i := True])" "bs_make bool_bitset = (\<lambda>n. replicate n False)"
    "length (bs_blocks bool_bitset b) = (length b + 63) div 64" for b
    by (simp_all add: bool_bitset_def)
  ultimately show ?thesis by (simp add: bitset_laws_def nth_list_update)
qed

section \<open>Properties\<close>

text \<open>C35: a filter has no false negatives. After adding any items to a fresh filter of positive
  size, which never fails, every item added is reported as contained.\<close>
theorem bloom_no_false_negatives:
  assumes "bitset_laws B" and "n \<noteq> 0" and "x \<in> set xs"
  shows "\<exists>g. bf_add_all B hasher (new_bloom B n k) xs = Some g \<and> bf_contains B hasher g x = Some True"
proof -
  let ?f = "new_bloom B n k"
  have "bf_ok B ?f" using bitset_lawsD(1) [OF assms(1)] by (simp add: bf_ok_def new_bloom_def)
  moreover have size: "bf_size ?f \<noteq> 0" using assms(2) by (simp add: new_bloom_def)
  ultimately obtain g where g: "bf_add_all B hasher ?f xs = Some g" "bf_size g = bf_size ?f"
    "bf_hash_count g = bf_hash_count ?f"
    and bits: "\<forall>j < unat (bf_size ?f). bs_test B (bf_bits g) j \<longleftrightarrow> bs_test B (bf_bits ?f) j \<or>
       (\<exists>x \<in> set xs. \<exists>i < unat (bf_hash_count ?f). bf_position hasher ?f x i = Some j)"
    using bf_add_all_spec [OF assms(1)] by blast
  have pos: "bf_position hasher g = bf_position hasher ?f" using g(2) by (rule bf_position_cong)
  have "\<exists>h. bf_position hasher ?f x i = Some h \<and> bs_test B (bf_bits g) h"
    if "i < unat (bf_hash_count ?f)" for i
  proof -
    obtain h where "bf_position hasher ?f x i = Some h" using size by (simp add: bf_position_def)
    then show ?thesis using bits bf_position_less that assms(3) by blast
  qed
  then have "bf_contains B hasher g x = Some True"
    using g size by (simp add: bf_contains_def contains_loop_spec pos)
  with g(1) show ?thesis by blast
qed

theorem bloom_no_false_negatives_witness:
  "\<exists>g. bf_add_all bool_bitset (\<lambda>s. of_nat (length s)) (new_bloom bool_bitset 100 3) [[1, 2], [3]] = Some g \<and>
     bf_contains bool_bitset (\<lambda>s. of_nat (length s)) g [3] = Some True"
  by (rule bloom_no_false_negatives [OF bool_bitset_laws]) simp_all

text \<open>C36: loading what \<open>save\<close> wrote consumes exactly the number of bytes it reported and gives
  a filter that answers every membership question like the saved one.\<close>
theorem bloom_save_load:
  assumes "bitset_laws B" and "bf_ok B f" and "bf_save B f (Some (created room)) = Inr (n, fp)"
  shows "n = length (f_bytes fp) \<and>
    (\<exists>g fp'. bf_load B (Some (opened (f_bytes fp @ zs))) = Inr (g, fp') \<and> rest fp' = zs \<and>
       bf_size g = bf_size f \<and> bf_hash_count g = bf_hash_count f \<and>
       (\<forall>hasher item. bf_contains B hasher g item = bf_contains B hasher f item))"
proof -
  have img: "f_bytes fp = bf_image B f" "n = length (bf_image B f)"
    using bf_save_image [OF assms(3)] by (simp_all add: created_def)
  have "rest (opened (f_bytes fp @ zs)) = bf_image B f @ zs" by (simp add: img)
  from bf_load_image [OF assms(1,2) this] obtain g fp' where
    "bf_load B (Some (opened (f_bytes fp @ zs))) = Inr (g, fp')" "rest fp' = zs" "same_bits B f g"
    by blast
  then show ?thesis
    using img same_bits_contains [of B f g] by (auto simp: same_bits_def)
qed

theorem bloom_save_load_witness:
  "\<exists>n fp g fp'. bf_save bool_bitset (new_bloom bool_bitset 3 2) (Some (created 100)) = Inr (n, fp) \<and>
     n = 32 \<and> bf_load bool_bitset (Some (opened (f_bytes fp))) = Inr (g, fp') \<and> bf_size g = 3"
proof -
  let ?f = "new_bloom bool_bitset 3 2"
  have ok: "bf_ok bool_bitset ?f" by (simp add: bf_ok_def new_bloom_def bool_bitset_def)
  obtain n fp where s: "bf_save bool_bitset ?f (Some (created 100)) = Inr (n, fp)" "n = 32"
    by (simp add: bf_save_def new_bloom_def bool_bitset_def fwrite_u64_def fwrite_all_Some created_def
        Let_def)
  then show ?thesis
    using bloom_save_load [OF bool_bitset_laws ok s(1), of "[]"] by (auto simp: new_bloom_def)
qed

end
