(* ===== verification/Wal.thy ===== *)
theory Wal
  imports Stdio "HOL-Library.Multiset"
begin

text \<open>
  The write-ahead log of the database (\<open>wal_insert\<close>, \<open>wal_erase\<close> and the recovery in the
  constructor of \<open>Database\<close>, \<open>lib_database/src/mousedb/database/core.cpp\<close>): the format of
  an entry, and the loop that replays several logs in the order of their operation numbers.
\<close>

section \<open>Entries\<close>

record wal_entry =
  we_ot :: u64
  we_oid :: u64
  we_key :: bytes
  we_value :: bytes

text \<open>What \<open>wal_insert\<close> and \<open>wal_erase\<close> append to a log file.\<close>

definition wal_insert_bytes :: "u64 \<Rightarrow> bytes \<Rightarrow> bytes \<Rightarrow> bytes" where
  "wal_insert_bytes oid key val =
     le_bytes 8 (0 :: u64) @ le_bytes 8 oid @ le_bytes 8 (of_nat (length key) :: u64) @ key @
     le_bytes 8 (of_nat (length val) :: u64) @ val"

definition wal_erase_bytes :: "u64 \<Rightarrow> bytes \<Rightarrow> bytes" where
  "wal_erase_bytes oid key =
     le_bytes 8 (1 :: u64) @ le_bytes 8 oid @ le_bytes 8 (of_nat (length key) :: u64) @ key"

text \<open>
  Reading one entry. A missing header ends the file. After a header the code ignores the counts
  that \<open>fread\<close> returns, and a short read leaves it with an uninitialised length or stale
  bytes: \<open>Torn\<close>, after which nothing is claimed.
\<close>

datatype read_result = At_End | Torn | Got wal_entry cfile

definition read_block :: "cfile \<Rightarrow> (bytes \<times> cfile) option" where
  "read_block f =
     (case fread_u64 f of
        None \<Rightarrow> None
      | Some (n, f) \<Rightarrow>
          (let (bs, f) = fread (unat n) f in if length bs = unat n then Some (bs, f) else None))"

definition read_entry :: "cfile \<Rightarrow> read_result" where
  "read_entry f =
     (case fread_u64 f of
        None \<Rightarrow> At_End
      | Some (ot, f) \<Rightarrow>
        (case fread_u64 f of
           None \<Rightarrow> At_End
         | Some (oid, f) \<Rightarrow>
           (case read_block f of
              None \<Rightarrow> Torn
            | Some (key, f) \<Rightarrow>
                if ot = 0 then
                  (case read_block f of
                     None \<Rightarrow> Torn
                   | Some (val, f) \<Rightarrow>
                       Got \<lparr>we_ot = ot, we_oid = oid, we_key = key, we_value = val\<rparr> f)
                else Got \<lparr>we_ot = ot, we_oid = oid, we_key = key, we_value = []\<rparr> f)))"

section \<open>Replaying\<close>

datatype recovery_error = Unknown_Op | Torn_Entry

type_synonym wal_state = "wal_entry \<times> cfile"

text \<open>The first index with the smallest operation number.\<close>

definition best_index :: "u64 list \<Rightarrow> nat" where
  "best_index oids = fold (\<lambda>i best. if oids ! i < oids ! best then i else best) [1..<length oids] 0"

definition remove_nth :: "nat \<Rightarrow> 'a list \<Rightarrow> 'a list" where
  "remove_nth i xs = take i xs @ drop (Suc i) xs"

text \<open>\<open>ins\<close> is \<open>internal_insert\<close>; \<open>internal_erase\<close> changes nothing.\<close>

definition replay :: "('s \<Rightarrow> bytes \<Rightarrow> bytes \<Rightarrow> 's) \<Rightarrow> 's \<Rightarrow> wal_entry \<Rightarrow> recovery_error + 's" where
  "replay ins s e =
     (if we_ot e = 0 then Inr (ins s (we_key e) (we_value e))
      else if we_ot e = 1 then Inr s else Inl Unknown_Op)"

text \<open>The opening scan over the directory: a log without an entry is dropped.\<close>

fun open_wals :: "bytes list \<Rightarrow> recovery_error + wal_state list" where
  "open_wals [] = Inr []"
| "open_wals (file # files) =
     (case read_entry (opened file) of
        At_End \<Rightarrow> open_wals files
      | Torn \<Rightarrow> Inl Torn_Entry
      | Got e f \<Rightarrow>
          (case open_wals files of Inl err \<Rightarrow> Inl err | Inr wals \<Rightarrow> Inr ((e, f) # wals)))"

lemma fread_u64_rest:
  "fread_u64 f = Some (w, f') \<Longrightarrow> length (rest f') + 8 = length (rest f)"
  by (auto simp: fread_u64_def fread_def rest_def Let_def split: if_splits prod.splits)

lemma fread_rest: "fread n f = (bs, f') \<Longrightarrow> length (rest f') \<le> length (rest f)"
  by (auto simp: fread_def rest_def Let_def)

lemma read_block_rest: "read_block f = Some (bs, f') \<Longrightarrow> length (rest f') < length (rest f)"
  using fread_u64_rest fread_rest
  by (fastforce simp: read_block_def split: option.splits prod.splits if_splits)

lemma read_entry_rest: "read_entry f = Got e f' \<Longrightarrow> length (rest f') < length (rest f)"
  by (auto simp: read_entry_def dest!: fread_u64_rest read_block_rest
      split: option.splits prod.splits if_splits)

lemma best_index_aux:
  assumes "b < length oids" "\<forall>i \<in> set is. i < length oids"
  shows "fold (\<lambda>i best. if oids ! i < oids ! best then i else best) is b < length oids \<and>
    (\<forall>j \<in> insert b (set is).
      oids ! fold (\<lambda>i best. if oids ! i < oids ! best then i else best) is b \<le> (oids ! j :: u64))"
  using assms
proof (induction "is" arbitrary: b)
  case (Cons i "is")
  define b' where "b' = (if oids ! i < oids ! b then i else b)"
  have "oids ! b' \<le> oids ! b" "oids ! b' \<le> oids ! i" "b' < length oids"
    using Cons.prems by (auto simp: b'_def)
  with Cons.IH [of b'] Cons.prems(2) show ?case
    by (auto simp flip: b'_def intro: order_trans)
qed simp

lemma best_index_least:
  assumes "oids \<noteq> []"
  shows "best_index oids < length oids \<and> (\<forall>j < length oids. oids ! best_index oids \<le> oids ! j)"
proof -
  have "insert 0 (set [1..<length oids]) = {..<length oids}" using assms by auto
  then show ?thesis
    using assms best_index_aux [of 0 oids "[1..<length oids]"] by (simp add: best_index_def)
qed

lemma best_index_less: "oids \<noteq> [] \<Longrightarrow> best_index oids < length oids"
  using best_index_least by blast

definition wal_measure :: "wal_state list \<Rightarrow> nat" where
  "wal_measure wals = sum_list (map (\<lambda>(e, f). Suc (length (rest f))) wals)"

lemma wal_measure_remove:
  "i < length wals \<Longrightarrow> wal_measure (remove_nth i wals) < wal_measure wals"
  unfolding wal_measure_def remove_nth_def
  by (subst (3) id_take_nth_drop [of i wals]) (auto split: prod.splits)

lemma wal_measure_update:
  assumes "i < length wals" "length (rest f') < length (rest (snd (wals ! i)))"
  shows "wal_measure (wals[i := (e, f')]) < wal_measure wals"
proof -
  have "wals = take i wals @ wals ! i # drop (Suc i) wals" using assms(1) by (rule id_take_nth_drop)
  then have "wal_measure wals = wal_measure (take i wals) + Suc (length (rest (snd (wals ! i)))) +
      wal_measure (drop (Suc i) wals)"
    by (metis (no_types, lifting) add.assoc case_prod_beta list.map(2) map_append sum_list.Cons
        sum_list_append wal_measure_def)
  moreover have "wal_measure (wals[i := (e, f')]) =
      wal_measure (take i wals) + Suc (length (rest f')) + wal_measure (drop (Suc i) wals)"
    using assms(1) by (simp add: upd_conv_take_nth_drop wal_measure_def)
  ultimately show ?thesis using assms(2) by simp
qed

function recover_loop ::
    "('s \<Rightarrow> bytes \<Rightarrow> bytes \<Rightarrow> 's) \<Rightarrow> 's \<Rightarrow> wal_state list \<Rightarrow> recovery_error + 's" where
  "recover_loop ins s wals =
     (if wals = [] then Inr s
      else
        (let best = best_index (map (we_oid \<circ> fst) wals); (e, f) = wals ! best in
         case replay ins s e of
           Inl err \<Rightarrow> Inl err
         | Inr s' \<Rightarrow>
             (case read_entry f of
                At_End \<Rightarrow> recover_loop ins s' (remove_nth best wals)
              | Torn \<Rightarrow> Inl Torn_Entry
              | Got e' f' \<Rightarrow> recover_loop ins s' (wals[best := (e', f')]))))"
  by pat_completeness auto
termination
proof (relation "measure (\<lambda>(ins, s, wals). wal_measure wals)", goal_cases)
  case (2 ins s wals best x e f s')
  then have "best < length wals" using best_index_less [of "map (we_oid \<circ> fst) wals"] by simp
  then show ?case by (simp add: wal_measure_remove)
next
  case (3 ins s wals best x e f s' e' f')
  then have "best < length wals" using best_index_less [of "map (we_oid \<circ> fst) wals"] by simp
  moreover have "snd (wals ! best) = f" using 3 by (metis snd_conv)
  ultimately show ?case using read_entry_rest [of f e' f'] 3 by (simp add: wal_measure_update)
qed simp

declare recover_loop.simps [simp del]

definition recover :: "('s \<Rightarrow> bytes \<Rightarrow> bytes \<Rightarrow> 's) \<Rightarrow> 's \<Rightarrow> bytes list \<Rightarrow> recovery_error + 's" where
  "recover ins s files =
     (case open_wals files of Inl err \<Rightarrow> Inl err | Inr wals \<Rightarrow> recover_loop ins s wals)"

section \<open>What a replay does\<close>

text \<open>The bytes of an entry, and when a log holds a list of them.\<close>

definition entry_bytes :: "wal_entry \<Rightarrow> bytes" where
  "entry_bytes e =
     (if we_ot e = 0 then wal_insert_bytes (we_oid e) (we_key e) (we_value e)
      else wal_erase_bytes (we_oid e) (we_key e))"

definition entry_ok :: "wal_entry \<Rightarrow> bool" where
  "entry_ok e \<longleftrightarrow> length (we_key e) < 2 ^ 64 \<and> length (we_value e) < 2 ^ 64 \<and>
     (we_ot e = 0 \<or> we_ot e = 1 \<and> we_value e = [])"

lemma read_block_append:
  assumes "rest f = le_bytes 8 (of_nat (length bs) :: u64) @ bs @ zs" "length bs < 2 ^ 64"
  obtains f' where "read_block f = Some (bs, f')" "rest f' = zs"
proof -
  obtain f1 where 1: "fread_u64 f = Some (of_nat (length bs), f1)" "rest f1 = bs @ zs"
    using assms(1) by (rule fread_u64_append)
  then obtain f2 where "fread (length bs) f1 = (bs, f2)" "rest f2 = zs"
    by (auto elim: fread_append)
  with 1 that show thesis
    using assms(2) by (simp add: read_block_def unat_of_nat)
qed

lemma read_entry_append [codec_simps]:
  assumes "rest f = entry_bytes e @ zs" "entry_ok e"
  obtains f' where "read_entry f = Got e f'" "rest f' = zs"
proof -
  have r: "rest f = le_bytes 8 (we_ot e) @ le_bytes 8 (we_oid e) @
      le_bytes 8 (of_nat (length (we_key e)) :: u64) @ we_key e @
      (if we_ot e = 0 then le_bytes 8 (of_nat (length (we_value e)) :: u64) @ we_value e @ zs else zs)"
    using assms by (auto simp: entry_bytes_def entry_ok_def wal_insert_bytes_def wal_erase_bytes_def)
  obtain f1 where 1: "fread_u64 f = Some (we_ot e, f1)" and r1: "rest f1 = le_bytes 8 (we_oid e) @
      le_bytes 8 (of_nat (length (we_key e)) :: u64) @ we_key e @
      (if we_ot e = 0 then le_bytes 8 (of_nat (length (we_value e)) :: u64) @ we_value e @ zs else zs)"
    using fread_u64_append [OF r] by blast
  obtain f2 where 2: "fread_u64 f1 = Some (we_oid e, f2)" and r2: "rest f2 =
      le_bytes 8 (of_nat (length (we_key e)) :: u64) @ we_key e @
      (if we_ot e = 0 then le_bytes 8 (of_nat (length (we_value e)) :: u64) @ we_value e @ zs else zs)"
    using fread_u64_append [OF r1] by blast
  obtain f3 where 3: "read_block f2 = Some (we_key e, f3)" and r3: "rest f3 =
      (if we_ot e = 0 then le_bytes 8 (of_nat (length (we_value e)) :: u64) @ we_value e @ zs else zs)"
    using read_block_append [OF r2] assms(2) unfolding entry_ok_def by blast
  show thesis
  proof (cases "we_ot e = 0")
    case True
    then obtain f4 where "read_block f3 = Some (we_value e, f4)" "rest f4 = zs"
      using read_block_append [of f3 "we_value e" zs] r3 assms(2) unfolding entry_ok_def by auto
    with 1 2 3 True that show thesis by (cases e) (simp add: read_entry_def)
  next
    case False
    with 1 2 3 r3 that assms(2) show thesis by (cases e) (simp add: read_entry_def entry_ok_def)
  qed
qed

lemma read_entry_end: "rest f = [] \<Longrightarrow> read_entry f = At_End"
  by (simp add: read_entry_def fread_u64_def fread_def Let_def rest_def)

definition logs :: "wal_state list \<Rightarrow> wal_entry list list \<Rightarrow> bool" where
  "logs wals ess \<longleftrightarrow> list_all2 (\<lambda>(e, f) es. \<exists>es'. es = e # es' \<and>
     rest f = concat (map entry_bytes es') \<and> list_all entry_ok es \<and>
     sorted_wrt (\<lambda>a b. we_oid a < we_oid b) es) wals ess"

text \<open>One turn of the loop takes the head with the least number out of one log.\<close>

definition drop_head :: "nat \<Rightarrow> 'a list list \<Rightarrow> 'a list list" where
  "drop_head i ess = (if tl (ess ! i) = [] then remove_nth i ess else ess[i := tl (ess ! i)])"

lemma concat_split:
  "i < length ess \<Longrightarrow> mset (concat ess) = mset (ess ! i) + mset (concat (remove_nth i ess))"
  by (subst (1) id_take_nth_drop [of i ess]) (simp_all add: remove_nth_def)

lemma mset_drop_head:
  assumes "i < length ess" "ess ! i = e # es"
  shows "mset (concat ess) = add_mset e (mset (concat (drop_head i ess)))"
proof (cases "es = []")
  case True
  then show ?thesis using assms concat_split [OF assms(1)] by (simp add: drop_head_def)
next
  case False
  have "mset (concat (ess[i := es])) = mset es + mset (concat (remove_nth i ess))"
    using concat_split [of i "ess[i := es]"] assms(1) by (simp add: remove_nth_def)
  then show ?thesis using False assms concat_split [OF assms(1)] by (simp add: drop_head_def)
qed

lemma list_all2_remove_nth:
  "list_all2 P xs ys \<Longrightarrow> list_all2 P (remove_nth i xs) (remove_nth i ys)"
  by (auto simp: remove_nth_def intro: list_all2_appendI list_all2_takeI list_all2_dropI)

definition apply_entry :: "('s \<Rightarrow> bytes \<Rightarrow> bytes \<Rightarrow> 's) \<Rightarrow> 's \<Rightarrow> wal_entry \<Rightarrow> 's" where
  "apply_entry ins s e = (if we_ot e = 0 then ins s (we_key e) (we_value e) else s)"

lemma replay_ok: "entry_ok e \<Longrightarrow> replay ins s e = Inr (apply_entry ins s e)"
  by (auto simp: entry_ok_def replay_def apply_entry_def)

lemma logs_nth:
  assumes "logs wals ess" "i < length wals" "wals ! i = (e, f)"
  obtains es where "ess ! i = e # es" "rest f = concat (map entry_bytes es)"
    "list_all entry_ok (e # es)" "sorted_wrt (\<lambda>a b. we_oid a < we_oid b) (e # es)"
    "i < length ess"
  using assms by (fastforce simp: logs_def list_all2_conv_all_nth)

text \<open>What the turn leaves behind is again a family of logs, less the entry taken.\<close>

lemma logs_next:
  assumes "logs wals ess" "i < length wals" "wals ! i = (e, f)"
  shows "read_entry f \<noteq> Torn \<and>
    (read_entry f = At_End \<longrightarrow> logs (remove_nth i wals) (drop_head i ess)) \<and>
    (\<forall>e' f'. read_entry f = Got e' f' \<longrightarrow> logs (wals[i := (e', f')]) (drop_head i ess))"
proof -
  obtain es where es: "ess ! i = e # es" "rest f = concat (map entry_bytes es)"
    "list_all entry_ok (e # es)" "sorted_wrt (\<lambda>a b. we_oid a < we_oid b) (e # es)"
    using assms by (rule logs_nth)
  show ?thesis
  proof (cases es)
    case Nil
    then show ?thesis
      using es assms(1) by (simp add: read_entry_end drop_head_def logs_def list_all2_remove_nth)
  next
    case (Cons e' es')
    then obtain f' where f': "read_entry f = Got e' f'" "rest f' = concat (map entry_bytes es')"
      using es read_entry_append [of f e' "concat (map entry_bytes es')"] by auto
    then show ?thesis
      using es assms(1) Cons by (auto simp: drop_head_def logs_def intro!: list_all2_update_cong)
  qed
qed

lemma logs_least:
  assumes "logs wals ess" "wals \<noteq> []" "wals ! best_index (map (we_oid \<circ> fst) wals) = (e, f)"
    and "e' \<in> set (concat ess)"
  shows "we_oid e \<le> we_oid e'"
proof -
  let ?oids = "map (we_oid \<circ> fst) wals"
  obtain es where es: "es \<in> set ess" "e' \<in> set es" using assms(4) by auto
  then obtain j where j: "j < length ess" "ess ! j = es" by (auto simp: in_set_conv_nth)
  then have jw: "j < length wals" using assms(1) by (auto simp: logs_def dest: list_all2_lengthD)
  obtain ej fj where wj: "wals ! j = (ej, fj)" by fastforce
  obtain es' where es': "es = ej # es'" "sorted_wrt (\<lambda>a b. we_oid a < we_oid b) (ej # es')"
    using logs_nth [OF assms(1) jw wj] j by metis
  then have "we_oid ej \<le> we_oid e'" using es(2) by (auto intro: less_imp_le)
  moreover have "?oids ! best_index ?oids \<le> ?oids ! j"
    using best_index_least [of ?oids, THEN conjunct2, rule_format, of j] assms(2) jw by simp
  then have "we_oid e \<le> we_oid ej"
    using best_index_less [of ?oids] assms(2,3) jw wj by simp
  ultimately show ?thesis by (rule order_trans [rotated])
qed

lemma recover_loop_logs:
  assumes "logs wals ess"
  shows "\<exists>out. recover_loop ins s wals = Inr (foldl (apply_entry ins) s out) \<and>
    mset out = mset (concat ess) \<and> sorted (map we_oid out)"
  using assms
proof (induction ins s wals arbitrary: ess rule: recover_loop.induct)
  case (1 ins s wals)
  show ?case
  proof (cases "wals = []")
    case True
    then show ?thesis using 1(3) by (subst recover_loop.simps) (auto simp: logs_def intro: exI [of _ "[]"])
  next
    case False
    let ?i = "best_index (map (we_oid \<circ> fst) wals)"
    obtain e f where ef: "wals ! ?i = (e, f)" by fastforce
    have i: "?i < length wals" using best_index_less [of "map (we_oid \<circ> fst) wals"] False by simp
    obtain es where es: "ess ! ?i = e # es" "?i < length ess" "entry_ok e"
      using logs_nth [OF 1(3) i ef] by (metis list.pred_inject(2))
    note rep = replay_ok [OF es(3), of ins s]
    let ?s = "apply_entry ins s e"
    note nxt = logs_next [OF 1(3) i ef]
    have "\<exists>out'. recover_loop ins s wals = Inr (foldl (apply_entry ins) ?s out') \<and>
        mset out' = mset (concat (drop_head ?i ess)) \<and> sorted (map we_oid out')"
    proof (cases "read_entry f")
      case At_End
      then show ?thesis
        using "1.IH"(1) [OF False refl ef [symmetric] refl rep At_End] nxt False ef rep
        by (subst recover_loop.simps) (simp add: Let_def)
    next
      case Torn
      with nxt show ?thesis by simp
    next
      case (Got e' f')
      then show ?thesis
        using "1.IH"(2) [OF False refl ef [symmetric] refl rep Got] nxt False ef rep
        by (subst recover_loop.simps) (simp add: Let_def)
    qed
    then obtain out' where out': "recover_loop ins s wals = Inr (foldl (apply_entry ins) ?s out')"
      "mset out' = mset (concat (drop_head ?i ess))" "sorted (map we_oid out')" by blast
    have m: "mset (e # out') = mset (concat ess)"
      using out'(2) mset_drop_head [OF es(2,1)] by simp
    have "we_oid e \<le> we_oid x" if "x \<in> set out'" for x
      using logs_least [OF 1(3) False ef, of x] that m
      by (metis list.set_intros(2) set_mset_mset)
    then show ?thesis using out' m by (intro exI [of _ "e # out'"]) auto
  qed
qed

text \<open>The files as the running program leaves them: per shard the entries in the order written.\<close>

definition log_file :: "wal_entry list \<Rightarrow> bytes" where
  "log_file es = concat (map entry_bytes es)"

definition log_ok :: "wal_entry list \<Rightarrow> bool" where
  "log_ok es \<longleftrightarrow> list_all entry_ok es \<and> sorted_wrt (\<lambda>a b. we_oid a < we_oid b) es"

lemma open_wals_logs:
  "list_all log_ok ess \<Longrightarrow>
    \<exists>wals. open_wals (map log_file ess) = Inr wals \<and> logs wals (filter (\<lambda>es. es \<noteq> []) ess)"
proof (induction ess)
  case (Cons es ess)
  then obtain wals where w: "open_wals (map log_file ess) = Inr wals"
    "logs wals (filter (\<lambda>es. es \<noteq> []) ess)" by auto
  show ?case
  proof (cases es)
    case Nil
    then have "log_file es = []" by (simp add: log_file_def)
    then show ?thesis using w Nil by (simp add: read_entry_end)
  next
    case (Cons e es')
    then obtain f where "read_entry (opened (log_file es)) = Got e f"
      "rest f = concat (map entry_bytes es')"
      using Cons.prems read_entry_append [of "opened (log_file es)" e "concat (map entry_bytes es')"]
      by (auto simp: log_file_def log_ok_def)
    then show ?thesis using w Cons Cons.prems by (auto simp: logs_def log_ok_def)
  qed
qed (simp add: logs_def)

lemma concat_filter_nonempty: "concat (filter (\<lambda>es. es \<noteq> []) ess) = concat ess"
  by (induction ess) auto

lemma recover_log_files:
  assumes "list_all log_ok ess"
  shows "\<exists>out. recover ins s (map log_file ess) = Inr (foldl (apply_entry ins) s out) \<and>
    mset out = mset (concat ess) \<and> sorted (map we_oid out)"
proof -
  obtain wals where w: "open_wals (map log_file ess) = Inr wals"
    "logs wals (filter (\<lambda>es. es \<noteq> []) ess)" using open_wals_logs [OF assms] by blast
  show ?thesis
    using recover_loop_logs [OF w(2), of ins s] w(1) by (simp add: recover_def concat_filter_nonempty)
qed

section \<open>Properties\<close>

text \<open>C21: recovery replays every entry of every log exactly once, in the order of the operation
  numbers, whatever the number of logs and the order in which the directory lists them, and it
  always terminates without an error on logs that the program wrote.\<close>
theorem recover_replays_in_order:
  assumes "list_all log_ok ess"
  shows "\<exists>out. recover ins s (map log_file ess) = Inr (foldl (apply_entry ins) s out) \<and>
    mset out = mset (concat ess) \<and> sorted (map we_oid out)"
  using assms by (rule recover_log_files)

text \<open>Two logs whose operation numbers interleave.\<close>
theorem recover_replays_in_order_witness:
  "\<exists>out. recover (\<lambda>s k v. s @ [k]) [] (map log_file
       [[\<lparr>we_ot = 0, we_oid = 1, we_key = [1], we_value = [5]\<rparr>],
        [\<lparr>we_ot = 0, we_oid = 0, we_key = [2], we_value = []\<rparr>,
         \<lparr>we_ot = 1, we_oid = 2, we_key = [1], we_value = []\<rparr>]]) =
     Inr (foldl (apply_entry (\<lambda>s k v. s @ [k])) [] out) \<and> sorted (map we_oid out) \<and> size (mset out) = 3"
proof -
  let ?ess = "[[\<lparr>we_ot = 0, we_oid = 1, we_key = [1], we_value = [5]\<rparr>],
        [\<lparr>we_ot = 0, we_oid = 0, we_key = [2], we_value = []\<rparr>,
         \<lparr>we_ot = 1, we_oid = 2, we_key = [1], we_value = []\<rparr>]]"
  have "list_all log_ok ?ess" by (simp add: log_ok_def entry_ok_def)
  from recover_replays_in_order [OF this, of "\<lambda>s k v. s @ [k]" "[]"] obtain out where
    "recover (\<lambda>s k v. s @ [k]) [] (map log_file ?ess) =
       Inr (foldl (apply_entry (\<lambda>s k v. s @ [k])) [] out)"
    "mset out = mset (concat ?ess)" "sorted (map we_oid out)" by blast
  moreover from this(2) have "size (mset out) = 3" by (simp only:) simp
  ultimately show ?thesis by blast
qed

end
