(* ===== verification/Database.thy ===== *)
theory Database
  imports Hlc Memtable BloomFilter Wal
begin

text \<open>
  \<open>mousedb::database::Database\<close> (\<open>lib_database/include/mousedb/database/core.hpp\<close>,
  \<open>src/mousedb/database/core.cpp\<close>): writes go to a log and to the active memtable, full
  memtables wait in a queue for the workers, and a look-up collects the stamped values of a key
  from all of them and selects the latest. The flush of a memtable to disk is in \<open>Sstable\<close>.
\<close>

section \<open>State\<close>

text \<open>What the platform fixes: the alignment, the number of processors and, per thread, the
  processor number that the arenas have cached.\<close>

record platform =
  pf_align :: nat
  pf_cpus :: u32
  pf_cpu_ids :: "nat \<Rightarrow> nat"

definition fresh_memtable :: "platform \<Rightarrow> memtable" where
  "fresh_memtable pf = new_skip_list (pf_align pf) (pf_cpus pf) (pf_cpu_ids pf)"

record 'b database =
  db_pf :: platform
  flush_threshold :: nat
  wals :: "bytes list"
  operation_id :: u64
  db_cpu_id :: "nat \<Rightarrow> nat"
  db_memtable :: memtable
  db_queue :: "memtable list"
  db_working :: "memtable list"
  sstables :: "nat list list"
  filters :: "nat \<rightharpoonup> 'b bloom"
  sst_files :: "nat \<rightharpoonup> bytes"
  queue_sst_id :: nat
  unused_sst_id :: nat
  sst_locked :: bool

section \<open>Writing\<close>

text \<open>The stamp that \<open>insert\<close> and \<open>erase\<close> put before the value.\<close>

definition hlc_bytes :: "hlc \<Rightarrow> bytes" where
  "hlc_bytes c = le_bytes 8 (physical_us c) @ le_bytes 2 (logical c) @ le_bytes 4 (node_id c)"

definition hlc_of_bytes :: "bytes \<Rightarrow> hlc" where
  "hlc_of_bytes v = HLC (le_word (take 8 v)) (le_word (take 2 (drop 8 v))) (le_word (take 4 (drop 10 v)))"

definition db_get_shard :: "'b database \<Rightarrow> nat \<Rightarrow> nat" where
  "db_get_shard db cpu_id = cpu_id AND (length (wals db) - 1)"

definition db_reset_shard :: "'b database \<Rightarrow> nat \<Rightarrow> nat \<Rightarrow> nat \<times> 'b database" where
  "db_reset_shard db t cpu_id =
     (db_get_shard db cpu_id, db\<lparr>db_cpu_id := (db_cpu_id db)(t := cpu_id OR length (wals db))\<rparr>)"

text \<open>
  \<open>busy\<close> is \<open>None\<close> when \<open>try_lock\<close> gets the thread's shard, else the processor
  number that the system then reports.
\<close>

definition wal_shard :: "'b database \<Rightarrow> nat \<Rightarrow> nat option \<Rightarrow> nat \<times> 'b database" where
  "wal_shard db t busy =
     (case busy of
        None \<Rightarrow> (db_get_shard db (db_cpu_id db t), db)
      | Some cpu_id \<Rightarrow> db_reset_shard db t cpu_id)"

definition wal_insert :: "'b database \<Rightarrow> nat \<Rightarrow> nat option \<Rightarrow> bytes \<Rightarrow> bytes \<Rightarrow> 'b database" where
  "wal_insert db t busy key val =
     (let (i, db) = wal_shard db t busy; oid = operation_id db
      in db\<lparr>operation_id := oid + 1, wals := (wals db)[i := wals db ! i @ wal_insert_bytes oid key val]\<rparr>)"

definition wal_erase :: "'b database \<Rightarrow> nat \<Rightarrow> nat option \<Rightarrow> bytes \<Rightarrow> 'b database" where
  "wal_erase db t busy key =
     (let (i, db) = wal_shard db t busy; oid = operation_id db
      in db\<lparr>operation_id := oid + 1, wals := (wals db)[i := wals db ! i @ wal_erase_bytes oid key]\<rparr>)"

definition enqueue_memtable :: "'b database \<Rightarrow> 'b database" where
  "enqueue_memtable db =
     db\<lparr>db_queue := db_queue db @ [db_memtable db], db_memtable := fresh_memtable (db_pf db)\<rparr>"

definition internal_insert :: "nat \<Rightarrow> 'b database \<Rightarrow> bytes \<Rightarrow> bytes \<Rightarrow> 'b database" where
  "internal_insert t db key val =
     (let db = db\<lparr>db_memtable := mt_insert (db_memtable db) t key val\<rparr>
      in if mt_size (db_memtable db) > flush_threshold db then enqueue_memtable db else db)"

definition db_insert :: "'b database \<Rightarrow> nat \<Rightarrow> nat option \<Rightarrow> bytes \<Rightarrow> bytes \<Rightarrow> hlc \<Rightarrow> 'b database" where
  "db_insert db t busy key val hclock =
     (let value_copy = hlc_bytes hclock @ val
      in internal_insert t (wal_insert db t busy key value_copy) key value_copy)"

definition db_erase :: "'b database \<Rightarrow> nat \<Rightarrow> nat option \<Rightarrow> bytes \<Rightarrow> hlc \<Rightarrow> 'b database" where
  "db_erase db t busy key hclock =
     (let value_copy = hlc_bytes hclock
      in internal_insert t (wal_insert db t busy key value_copy) key value_copy)"

section \<open>The queue\<close>

text \<open>The critical section of a worker's loop: the front of the queue becomes being worked on.\<close>

definition worker_take :: "'b database \<Rightarrow> 'b database" where
  "worker_take db =
     (case db_queue db of
        [] \<Rightarrow> db
      | m # ms \<Rightarrow> db\<lparr>db_queue := ms, db_working := db_working db @ [m]\<rparr>)"

text \<open>The views of all tables of a list, in order; \<open>None\<close> is a look-up that never ends.\<close>

fun find_tables :: "memtable list \<Rightarrow> bytes \<Rightarrow> bytes list option" where
  "find_tables [] key = Some []"
| "find_tables (m # ms) key = do {
     res \<leftarrow> mt_lookup m key;
     more \<leftarrow> find_tables ms key;
     Some (res @ more)
   }"

definition queue_find :: "'b database \<Rightarrow> bytes \<Rightarrow> bytes list \<Rightarrow> bytes list option" where
  "queue_find db key values = do {
     queued \<leftarrow> find_tables (rev (db_queue db)) key;
     working \<leftarrow> find_tables (rev (db_working db)) key;
     Some (values @ queued @ working)
   }"

section \<open>Look-up\<close>

text \<open>
  The outer \<open>None\<close> is a call that never returns: a worker holds \<open>sstables_mutex_\<close> for
  ever. The loop over the tables on disk looks at the filters and has no effect.
\<close>

definition internal_find :: "'b database \<Rightarrow> bytes \<Rightarrow> bytes option option" where
  "internal_find db key = do {
     res \<leftarrow> mt_lookup (db_memtable db) key;
     values \<leftarrow> queue_find db key res;
     if values = [] then Some None
     else if sst_locked db then None
     else
       (case lww_select snd (map (\<lambda>v. (v, hlc_of_bytes v)) values) of
          None \<Rightarrow> Some None
        | Some (v, _) \<Rightarrow>
            (let erase_size = 8 + 2 + 4
             in Some (if length v \<le> erase_size then None else Some (drop (8 + 2 + 4) v))))
   }"

definition db_find :: "'b database \<Rightarrow> bytes \<Rightarrow> bytes option option" where
  "db_find db key = internal_find db key"

section \<open>Opening\<close>

text \<open>
  The constructor: \<open>wal_files\<close> are the contents of the \<open>.wal\<close> files in the order of the
  directory, \<open>sst_ids\<close> the numbers of the \<open>.sst\<close> files; thread \<open>t\<close> runs it, and
  \<open>cpu_id\<close> is the processor it finds itself on at the end. The files of tables are kept, but
  \<open>sstables_\<close> starts empty.
\<close>

definition blank_database :: "platform \<Rightarrow> nat \<Rightarrow> (nat \<rightharpoonup> bytes) \<Rightarrow> 'b database" where
  "blank_database pf threshold files =
     \<lparr>db_pf = pf, flush_threshold = threshold, wals = [], operation_id = 0, db_cpu_id = (\<lambda>_. 0),
      db_memtable = fresh_memtable pf, db_queue = [], db_working = [], sstables = [[]],
      filters = Map.empty, sst_files = files, queue_sst_id = 0, unused_sst_id = 0, sst_locked = False\<rparr>"

definition set_unused_sst_id :: "nat \<Rightarrow> 'b database \<Rightarrow> 'b database" where
  "set_unused_sst_id i db = db\<lparr>queue_sst_id := i\<rparr>"

declare set_unused_sst_id_def [simp]

definition open_database ::
    "platform \<Rightarrow> bool \<Rightarrow> nat \<Rightarrow> nat \<Rightarrow> nat \<Rightarrow> bytes list \<Rightarrow> nat list \<Rightarrow> (nat \<rightharpoonup> bytes) \<Rightarrow>
     recovery_error + 'b database" where
  "open_database pf fresh threshold t cpu_id wal_files sst_ids files =
     (let db = blank_database pf threshold files;
          recovered =
            (if wal_files \<noteq> [] \<and> \<not> fresh then
               (case recover (internal_insert t) db wal_files of
                  Inl err \<Rightarrow> Inl err
                | Inr db \<Rightarrow> Inr (if mt_used (db_memtable db) > threshold then enqueue_memtable db else db))
             else Inr db)
      in case recovered of
           Inl err \<Rightarrow> Inl err
         | Inr db \<Rightarrow>
             (let db = (if wal_files = [] \<and> sst_ids = [] then db
                        else db\<lparr>unused_sst_id := fold max sst_ids 0 + 1\<rparr>);
                  db = set_unused_sst_id (unused_sst_id db) db;
                  db = db\<lparr>wals := replicate (unat (pf_cpus pf)) []\<rparr>
              in Inr (snd (db_reset_shard db t cpu_id))))"

section \<open>What the tables hold\<close>

text \<open>A write is a key, a stamp and a value; an erasure is the write of the empty value.\<close>

type_synonym db_write = "bytes \<times> hlc \<times> bytes"

definition stamped :: "db_write \<Rightarrow> bytes \<times> bytes" where
  "stamped w = (case w of (key, c, val) \<Rightarrow> (key, hlc_bytes c @ val))"

definition write_fits :: "db_write \<Rightarrow> bool" where
  "write_fits w \<longleftrightarrow> (case w of (key, c, val) \<Rightarrow> length key < 2 ^ 64 \<and> length val + 14 < 2 ^ 64)"

text \<open>The value of the write with the greatest stamp, if it is not an erasure.\<close>

definition latest :: "db_write list \<Rightarrow> bytes \<Rightarrow> bytes option" where
  "latest ws key =
     (case lww_select (fst \<circ> snd) (filter (\<lambda>(k, c, v). k = key) ws) of
        None \<Rightarrow> None
      | Some (k, c, v) \<Rightarrow> if v = [] then None else Some v)"

definition db_tables :: "'b database \<Rightarrow> memtable list" where
  "db_tables db = db_memtable db # rev (db_queue db) @ rev (db_working db)"

definition db_abs :: "'b database \<Rightarrow> db_write list \<Rightarrow> bool" where
  "db_abs db ws \<longleftrightarrow> 0 < pf_align (db_pf db) \<and> (\<exists>wss. list_all2 sl_abs (db_tables db) (map (map stamped) wss) \<and>
     mset (concat wss) = mset ws)"

lemma length_hlc_bytes [simp]: "length (hlc_bytes c) = 14"
  by (simp add: hlc_bytes_def)

lemma hlc_of_stamped [codec_simps]: "hlc_of_bytes (hlc_bytes c @ v) = c"
  by (cases c) (simp add: hlc_of_bytes_def hlc_bytes_def drop_Cons')

lemma sl_abs_fresh: "0 < pf_align pf \<Longrightarrow> sl_abs (fresh_memtable pf) []"
  by (simp add: fresh_memtable_def sl_abs_new)

lemma find_tables_abs:
  "list_all2 sl_abs ms kvss \<Longrightarrow>
    find_tables ms key = Some (map snd (filter (\<lambda>(k, v). k = key) (concat kvss)))"
  by (induction rule: list_all2_induct) (auto simp: mt_lookup_abs)

lemma internal_find_tables:
  "internal_find db key = do {
     values \<leftarrow> find_tables (db_tables db) key;
     if values = [] then Some None
     else if sst_locked db then None
     else
       (case lww_select snd (map (\<lambda>v. (v, hlc_of_bytes v)) values) of
          None \<Rightarrow> Some None
        | Some (v, _) \<Rightarrow> Some (if length v \<le> 14 then None else Some (drop 14 v)))
   }"
proof -
  have "find_tables (ms @ ns) key = do {
      xs \<leftarrow> find_tables ms key; ys \<leftarrow> find_tables ns key; Some (xs @ ys)}" for ms ns
    by (induction ms) (auto split: Option.bind_splits)
  then show ?thesis
    by (auto simp: internal_find_def queue_find_def db_tables_def split: Option.bind_splits option.splits)
qed

lemma stamped_filter:
  "filter (\<lambda>(k, v). k = key) (map stamped ws) = map stamped (filter (\<lambda>(k, c, v). k = key) ws)"
  by (induction ws) (auto simp: stamped_def)

lemma internal_find_abs:
  assumes "db_abs db ws" "\<not> sst_locked db"
  shows "\<exists>ws'. mset ws' = mset ws \<and> internal_find db key = Some (latest ws' key)"
proof -
  obtain wss where wss: "list_all2 sl_abs (db_tables db) (map (map stamped) wss)"
    "mset (concat wss) = mset ws" using assms(1) by (auto simp: db_abs_def)
  let ?ws = "filter (\<lambda>(k, c, v). k = key) (concat wss)"
  let ?g = "\<lambda>w. snd (stamped w)"
  have vals: "find_tables (db_tables db) key = Some (map ?g ?ws)"
    using find_tables_abs [OF wss(1), of key] stamped_filter [of key "concat wss"]
    by (simp add: comp_def flip: map_concat)
  have clk: "(snd \<circ> (\<lambda>v. (v, hlc_of_bytes v)) \<circ> ?g) = fst \<circ> snd"
    by (auto simp: stamped_def hlc_of_stamped)
  have sel: "lww_select snd (map (\<lambda>v. (v, hlc_of_bytes v)) (map ?g ?ws)) =
      map_option (\<lambda>w. (?g w, hlc_of_bytes (?g w))) (lww_select (fst \<circ> snd) ?ws)"
    unfolding lww_select_map clk option.map_comp by (simp add: comp_def)
  have find: "internal_find db key =
      (if ?ws = [] then Some None
       else
         (case map_option (\<lambda>w. (?g w, hlc_of_bytes (?g w))) (lww_select (fst \<circ> snd) ?ws) of
            None \<Rightarrow> Some None
          | Some (v, _) \<Rightarrow> Some (if length v \<le> 14 then None else Some (drop 14 v))))"
    unfolding internal_find_tables vals Option.bind.simps sel using assms(2) by simp
  have "internal_find db key = Some (latest (concat wss) key)"
  proof (cases "lww_select (fst \<circ> snd) ?ws")
    case None
    then show ?thesis unfolding find by (simp add: latest_def)
  next
    case (Some w)
    obtain k c v where "w = (k, c, v)" by (cases w)
    moreover have "?ws \<noteq> []" using Some by fastforce
    ultimately show ?thesis using Some unfolding find by (simp add: latest_def stamped_def)
  qed
  with wss(2) show ?thesis by blast
qed

text \<open>Distinct stamps make the order of the writes irrelevant.\<close>

definition distinct_stamps :: "db_write list \<Rightarrow> bool" where
  "distinct_stamps ws \<longleftrightarrow> (\<forall>w \<in> set ws. \<forall>w' \<in> set ws. fst (snd w) = fst (snd w') \<longrightarrow> w = w')"

lemma latest_cong:
  assumes "mset ws = mset ws'" "distinct_stamps ws"
  shows "latest ws key = latest ws' key"
proof -
  let ?f = "filter (\<lambda>(k, c, v). k = key)"
  have set: "set ws = set ws'" using assms(1) by (metis set_mset_mset)
  then have "set (?f ws) = set (?f ws')" by simp
  moreover have "inj_on (fst \<circ> snd) (set (?f ws))"
    using assms(2) by (fastforce simp: distinct_stamps_def inj_on_def)
  ultimately have "lww_select (fst \<circ> snd) (?f ws) = lww_select (fst \<circ> snd) (?f ws')"
    by (rule lww_select_set)
  then show ?thesis by (simp add: latest_def)
qed

section \<open>Operations and the tables\<close>

lemma db_abs_mono:
  "db_abs db ws \<Longrightarrow> db_pf db' = db_pf db \<Longrightarrow> db_tables db' = db_tables db \<Longrightarrow> db_abs db' ws"
  by (simp add: db_abs_def)

lemma db_abs_write:
  assumes "db_abs db ws" "write_fits w" "stamped w = (key, val)"
  shows "db_abs (db\<lparr>db_memtable := mt_insert (db_memtable db) t key val\<rparr>) (w # ws)"
proof -
  obtain kvs wss where m: "sl_abs (db_memtable db) (map stamped kvs)"
    and r: "list_all2 sl_abs (rev (db_queue db) @ rev (db_working db)) (map (map stamped) wss)"
    and ms: "mset (concat (kvs # wss)) = mset ws"
    using assms(1) by (auto simp: db_abs_def db_tables_def list_all2_Cons1 Cons_eq_map_conv)
  have "fits key val" using assms(2,3) by (auto simp: write_fits_def stamped_def fits_def)
  from sl_abs_insert [OF m this, of t]
  have "sl_abs (mt_insert (db_memtable db) t key val) (map stamped (kvs @ [w]))"
    by (simp add: mt_insert_def assms(3))
  with r have "list_all2 sl_abs (db_tables (db\<lparr>db_memtable := mt_insert (db_memtable db) t key val\<rparr>))
      (map (map stamped) ((kvs @ [w]) # wss))"
    by (simp add: db_tables_def)
  moreover have "mset (concat ((kvs @ [w]) # wss)) = mset (w # ws)" using ms by simp
  ultimately show ?thesis
    using assms(1) unfolding db_abs_def by (intro conjI exI [of _ "(kvs @ [w]) # wss"]) simp_all
qed

lemma db_abs_enqueue: "db_abs db ws \<Longrightarrow> db_abs (enqueue_memtable db) ws"
proof -
  assume a: "db_abs db ws"
  then obtain wss where wss: "list_all2 sl_abs (db_tables db) (map (map stamped) wss)"
    "mset (concat wss) = mset ws" "0 < pf_align (db_pf db)" by (auto simp: db_abs_def)
  have "list_all2 sl_abs (db_tables (enqueue_memtable db)) (map (map stamped) ([] # wss))"
    using wss(1) sl_abs_fresh [OF wss(3)] by (simp add: db_tables_def enqueue_memtable_def)
  with wss(2,3) show ?thesis by (auto simp: db_abs_def enqueue_memtable_def intro: exI [of _ "[] # wss"])
qed

lemma db_abs_internal_insert:
  assumes "db_abs db ws" "write_fits w" "stamped w = (key, val)"
  shows "db_abs (internal_insert t db key val) (w # ws)"
  using db_abs_write [OF assms] by (simp add: internal_insert_def Let_def db_abs_enqueue)

lemma db_get_shard_less: "wals db \<noteq> [] \<Longrightarrow> db_get_shard db cpu < length (wals db)"
  using nat_and_le [of cpu "length (wals db) - 1"]
  by (cases "wals db") (auto simp: db_get_shard_def le_less_trans)

lemma wal_shard_simps [simp]:
  "wal_shard db t busy = (i, db') \<Longrightarrow> db_tables db' = db_tables db"
  "wal_shard db t busy = (i, db') \<Longrightarrow> db_pf db' = db_pf db"
  "wal_shard db t busy = (i, db') \<Longrightarrow> wals db' = wals db"
  "wal_shard db t busy = (i, db') \<Longrightarrow> operation_id db' = operation_id db"
  "wal_shard db t busy = (i, db') \<Longrightarrow> sst_locked db' = sst_locked db"
  "wal_shard db t busy = (i, db') \<Longrightarrow> wals db \<noteq> [] \<Longrightarrow> i < length (wals db)"
  by (auto simp: wal_shard_def db_reset_shard_def db_tables_def db_get_shard_less
      split: option.splits)

lemma db_abs_wal_insert: "db_abs db ws \<Longrightarrow> db_abs (wal_insert db t busy key val) ws"
  by (erule db_abs_mono) (auto simp: wal_insert_def Let_def db_tables_def split: prod.splits
      dest: wal_shard_simps(1,2))

lemma db_abs_take: "db_abs db ws \<Longrightarrow> db_abs (worker_take db) ws"
  by (erule db_abs_mono) (auto simp: worker_take_def db_tables_def split: list.splits)

section \<open>Runs\<close>

text \<open>A run of the database while no worker completes a flush: calls by threads, in the order
  of their effects, and workers taking memtables from the queue.\<close>

datatype db_op =
    Insert nat "nat option" bytes bytes hlc
  | Erase nat "nat option" bytes hlc
  | Take

fun db_step :: "'b database \<Rightarrow> db_op \<Rightarrow> 'b database" where
  "db_step db (Insert t busy key val c) = db_insert db t busy key val c"
| "db_step db (Erase t busy key c) = db_erase db t busy key c"
| "db_step db Take = worker_take db"

fun op_writes :: "db_op \<Rightarrow> db_write list" where
  "op_writes (Insert t busy key val c) = [(key, c, val)]"
| "op_writes (Erase t busy key c) = [(key, c, [])]"
| "op_writes Take = []"

definition run_writes :: "db_op list \<Rightarrow> db_write list" where
  "run_writes ops = concat (map op_writes ops)"

lemma db_erase_insert: "db_erase db t busy key c = db_insert db t busy key [] c"
  by (simp add: db_erase_def db_insert_def)

text \<open>The logs hold one entry per write, in the order of the operation numbers.\<close>

definition entry_of :: "u64 \<Rightarrow> db_write \<Rightarrow> wal_entry" where
  "entry_of oid w = \<lparr>we_ot = 0, we_oid = oid, we_key = fst (stamped w), we_value = snd (stamped w)\<rparr>"

definition entry_kv :: "wal_entry \<Rightarrow> bytes \<times> bytes" where
  "entry_kv e = (we_key e, we_value e)"

definition wal_inv :: "'b database \<Rightarrow> db_write list \<Rightarrow> bool" where
  "wal_inv db ws \<longleftrightarrow> wals db \<noteq> [] \<and>
     (\<exists>ess. wals db = map log_file ess \<and> list_all log_ok ess \<and>
       (\<forall>e \<in> set (concat ess). we_ot e = 0 \<and> we_oid e < operation_id db) \<and>
       mset (map entry_kv (concat ess)) = mset (map stamped ws)) \<and>
     unat (operation_id db) = length ws"

lemma wal_inv_mono:
  "wal_inv db ws \<Longrightarrow> wals db' = wals db \<Longrightarrow> operation_id db' = operation_id db \<Longrightarrow> wal_inv db' ws"
  by (simp add: wal_inv_def)

lemma mset_concat_update:
  assumes "i < length ess"
  shows "mset (concat (ess[i := ess ! i @ [e]])) = add_mset e (mset (concat ess))"
  using concat_split [OF assms] concat_split [of i "ess[i := ess ! i @ [e]]"] assms
  by (simp add: remove_nth_def)

lemma wal_inv_insert:
  assumes "wal_inv db ws" "write_fits w" "stamped w = (key, val)" "length ws + 1 < 2 ^ 64"
  shows "wal_inv (wal_insert db t busy key val) (w # ws)"
proof -
  obtain i db1 where sh: "wal_shard db t busy = (i, db1)" by fastforce
  obtain ess where ess: "wals db = map log_file ess" "list_all log_ok ess"
    "\<forall>e \<in> set (concat ess). we_ot e = 0 \<and> we_oid e < operation_id db"
    "mset (map entry_kv (concat ess)) = mset (map stamped ws)" "unat (operation_id db) = length ws"
    "wals db \<noteq> []"
    using assms(1) by (auto simp: wal_inv_def)
  have i: "i < length ess" using wal_shard_simps(6) [OF sh ess(6)] ess(1) by simp
  let ?e = "entry_of (operation_id db) w"
  let ?ess = "ess[i := ess ! i @ [?e]]"
  have next_id: "unat (operation_id db + 1) = length ws + 1"
    using assms(4) ess(5) by (simp add: unat_word_ariths)
  then have less: "operation_id db < operation_id db + 1"
    using ess(5) by (simp add: word_less_nat_alt)
  have "log_file (ess ! i @ [?e]) = log_file (ess ! i) @ wal_insert_bytes (operation_id db) key val"
    using assms(3) by (simp add: log_file_def entry_bytes_def entry_of_def)
  then have w': "wals (wal_insert db t busy key val) = map log_file ?ess"
    "operation_id (wal_insert db t busy key val) = operation_id db + 1"
    using sh ess(1) i by (simp_all add: wal_insert_def Let_def map_update)
  have ok: "entry_ok ?e"
    using assms(2) by (auto simp: entry_ok_def entry_of_def stamped_def write_fits_def)
  have "we_oid e < operation_id db" if "e \<in> set (ess ! i)" for e
    using ess(3) i that by (metis UN_I nth_mem set_concat)
  moreover have "log_ok (ess ! i)" using ess(2) i by (simp add: list_all_length)
  ultimately have "log_ok (ess ! i @ [?e])"
    using ok by (auto simp: log_ok_def sorted_wrt_append) (simp add: entry_of_def)
  then have "list_all log_ok ?ess" using ess(2) i by (simp add: list_all_length nth_list_update)
  moreover have m: "mset (concat ?ess) = add_mset ?e (mset (concat ess))"
    using i by (rule mset_concat_update)
  then have "set (concat ?ess) = insert ?e (set (concat ess))" by (metis set_mset_mset set_mset_add_mset_insert)
  then have "\<forall>e \<in> set (concat ?ess). we_ot e = 0 \<and> we_oid e < operation_id db + 1"
    using ess(3) less by (auto simp: entry_of_def intro: less_trans)
  moreover have "mset (map entry_kv (concat ?ess)) = mset (map stamped (w # ws))"
    using m ess(4) by (simp add: entry_kv_def entry_of_def)
  ultimately show ?thesis
    unfolding wal_inv_def w' using next_id ess(1,6) i by auto
qed

lemma internal_insert_simps [simp]:
  "wals (internal_insert t db key val) = wals db"
  "operation_id (internal_insert t db key val) = operation_id db"
  "sst_locked (internal_insert t db key val) = sst_locked db"
  by (simp_all add: internal_insert_def Let_def enqueue_memtable_def)

lemma wal_insert_simps [simp]: "sst_locked (wal_insert db t busy key val) = sst_locked db"
  by (auto simp: wal_insert_def Let_def split: prod.splits dest: wal_shard_simps(5))

definition op_fits :: "db_op \<Rightarrow> bool" where
  "op_fits opn \<longleftrightarrow> list_all write_fits (op_writes opn)"

lemma db_run_inv:
  assumes "db_abs db ws" "wal_inv db ws" "\<not> sst_locked db" "list_all op_fits ops"
    and "length ws + length ops < 2 ^ 64"
  shows "\<exists>ws'. mset ws' = mset (ws @ run_writes ops) \<and> db_abs (foldl db_step db ops) ws' \<and>
    wal_inv (foldl db_step db ops) ws' \<and> \<not> sst_locked (foldl db_step db ops)"
  using assms
proof (induction ops arbitrary: db ws)
  case (Cons opn ops)
  have ins: ?case if w: "op_writes opn = [(key, c, val)]" "db_step db opn = db_insert db t busy key val c"
    for t busy key val c
  proof -
    let ?w = "(key, c, val)"
    have f: "write_fits ?w" using Cons.prems(4) w by (simp add: op_fits_def)
    have st: "stamped ?w = (key, hlc_bytes c @ val)" by (simp add: stamped_def)
    let ?db = "db_step db opn"
    have "db_abs ?db (?w # ws)"
      unfolding w(2) db_insert_def Let_def
      by (rule db_abs_internal_insert [OF db_abs_wal_insert [OF Cons.prems(1)] f st])
    moreover have "wal_inv ?db (?w # ws)"
      unfolding w(2) db_insert_def Let_def
      by (rule wal_inv_mono [OF wal_inv_insert [OF Cons.prems(2) f st]])
        (use Cons.prems(5) in simp_all)
    moreover have "\<not> sst_locked ?db"
      using Cons.prems(3) unfolding w(2) db_insert_def Let_def by simp
    moreover have "length (?w # ws) + length ops < 2 ^ 64" "list_all op_fits ops"
      using Cons.prems(4,5) by simp_all
    ultimately show ?case using Cons.IH [of ?db "?w # ws"] w by (simp add: run_writes_def)
  qed
  show ?case
  proof (cases opn)
    case (Insert t busy key val c)
    then show ?thesis by (intro ins) simp_all
  next
    case (Erase t busy key c)
    then show ?thesis by (intro ins [where val = "[]"]) (simp_all add: db_erase_insert)
  next
    case Take
    have "db_abs (worker_take db) ws" using Cons.prems(1) by (rule db_abs_take)
    moreover have "wal_inv (worker_take db) ws" "\<not> sst_locked (worker_take db)"
      using Cons.prems(2,3) by (auto simp: worker_take_def wal_inv_def split: list.splits)
    ultimately show ?thesis using Cons.IH [of "worker_take db" ws] Cons.prems(4,5) Take
      by (simp add: run_writes_def)
  qed
qed (auto simp: run_writes_def)

lemma mset_map_preimage:
  "mset (map f xs) = mset ys \<Longrightarrow> \<exists>xs'. mset xs' = mset xs \<and> map f xs' = ys"
proof (induction ys arbitrary: xs)
  case (Cons y ys)
  then have "y \<in> set (map f xs)" by (metis list.set_intros(1) set_mset_mset)
  then obtain x where x: "x \<in> set xs" "f x = y" by auto
  have "mset (map f (remove1 x xs)) = mset (map f xs) - {#f x#}"
    using x(1) by (simp add: image_mset_Diff)
  then have "mset (map f (remove1 x xs)) = mset ys" using Cons.prems x(2) by simp
  with Cons.IH obtain xs' where "mset xs' = mset (remove1 x xs)" "map f xs' = ys" by blast
  then show ?case using x by (intro exI [of _ "x # xs'"]) simp
qed simp

lemma db_abs_replay:
  assumes "db_abs db ws0" "map entry_kv out = map stamped ws" "\<forall>e \<in> set out. we_ot e = 0"
    and "list_all write_fits ws" "\<not> sst_locked db"
  shows "db_abs (foldl (apply_entry (internal_insert t)) db out) (rev ws @ ws0) \<and>
    \<not> sst_locked (foldl (apply_entry (internal_insert t)) db out)"
  using assms
proof (induction out arbitrary: db ws ws0)
  case (Cons e out)
  from Cons.prems(2) obtain w ws' where ws: "ws = w # ws'" "entry_kv e = stamped w"
    "map entry_kv out = map stamped ws'"
    by (cases ws) auto
  then have st: "stamped w = (we_key e, we_value e)" by (simp add: entry_kv_def)
  let ?db = "apply_entry (internal_insert t) db e"
  have "db_abs ?db (w # ws0)"
    using db_abs_internal_insert [OF Cons.prems(1) _ st] Cons.prems(3,4) ws(1)
    by (simp add: apply_entry_def)
  then show ?case
    using Cons.IH [of ?db "w # ws0" ws'] Cons.prems ws by (simp add: apply_entry_def)
qed simp

lemma open_empty:
  assumes "open_database pf fresh threshold t cpu_id [] [] files = Inr db" "0 < pf_align pf" "pf_cpus pf \<noteq> 0"
  shows "db_abs db [] \<and> wal_inv db [] \<and> \<not> sst_locked db"
proof -
  have db: "db = snd (db_reset_shard ((blank_database pf threshold files :: 'a database)
      \<lparr>queue_sst_id := 0, wals := replicate (unat (pf_cpus pf)) []\<rparr>) t cpu_id)"
    using assms(1) by (simp add: open_database_def blank_database_def)
  have "db_abs db []"
    using sl_abs_fresh [OF assms(2)] assms(2)
    by (auto simp: db db_reset_shard_def blank_database_def db_abs_def db_tables_def
        intro!: exI [of _ "[[]]"])
  moreover have "wal_inv db []"
    using assms(3)
    by (auto simp: db db_reset_shard_def blank_database_def wal_inv_def log_ok_def log_file_def
        list_all_iff unat_eq_0 intro!: exI [of _ "replicate (unat (pf_cpus pf)) []"])
  ultimately show ?thesis by (simp add: db db_reset_shard_def blank_database_def)
qed

section \<open>Properties\<close>

lemma db_run_find:
  assumes "open_database pf fresh threshold t cpu_id [] [] files = Inr db"
    and "0 < pf_align pf" and "pf_cpus pf \<noteq> 0"
    and "list_all op_fits ops" and "length ops < 2 ^ 64" and "distinct_stamps (run_writes ops)"
  shows "db_find (foldl db_step db ops) key = Some (latest (run_writes ops) key)"
proof -
  obtain ws where ws: "mset ws = mset (run_writes ops)" "db_abs (foldl db_step db ops) ws"
    "\<not> sst_locked (foldl db_step db ops)"
    using db_run_inv [of db "[]" ops] open_empty [OF assms(1-3)] assms(4,5) by auto
  obtain ws' where "mset ws' = mset ws" "db_find (foldl db_step db ops) key = Some (latest ws' key)"
    using internal_find_abs [OF ws(2,3)] by (auto simp: db_find_def)
  then show ?thesis using latest_cong [of "run_writes ops" ws' key] ws(1) assms(6) by simp
qed

text \<open>C3: in a fresh database, after any sequence of insertions and erasures by any threads and
  of memtables being queued and taken by workers, a look-up returns and gives the value of the
  write with the greatest stamp for the key, or nothing if there is none or it is an erasure or an
  empty value, provided different writes carry different stamps.\<close>
theorem db_find_latest_write:
  assumes "open_database pf fresh threshold t cpu_id [] [] files = Inr db"
    and "0 < pf_align pf" and "pf_cpus pf \<noteq> 0"
    and "list_all op_fits ops" and "length ops < 2 ^ 64" and "distinct_stamps (run_writes ops)"
  shows "db_find (foldl db_step db ops) key = Some (latest (run_writes ops) key)"
  using assms by (rule db_run_find)

definition witness_platform :: platform where
  "witness_platform = \<lparr>pf_align = 16, pf_cpus = 2, pf_cpu_ids = (\<lambda>_. 0)\<rparr>"

definition witness_ops :: "db_op list" where
  "witness_ops = [Insert 0 None [1] [10] (HLC 5 0 1), Insert 1 (Some 1) [2] [20] (HLC 6 0 1), Take,
     Insert 1 None [1] [11] (HLC 8 0 1), Insert 0 None [1] [12] (HLC 7 0 1), Erase 0 None [2] (HLC 9 0 1)]"

lemma witness_ops_ok:
  "list_all op_fits witness_ops" "length witness_ops < 2 ^ 64" "distinct_stamps (run_writes witness_ops)"
  by (simp_all add: witness_ops_def op_fits_def write_fits_def distinct_stamps_def run_writes_def)

text \<open>The later stamp wins although it was written first; the erased key is gone.\<close>
theorem db_find_latest_write_witness:
  "\<exists>db :: bool list database. open_database witness_platform True 1 0 0 [] [] Map.empty = Inr db \<and>
     db_find (foldl db_step db witness_ops) [1] = Some (Some [11]) \<and>
     db_find (foldl db_step db witness_ops) [2] = Some None"
proof -
  obtain db :: "bool list database" where
    db: "open_database witness_platform True 1 0 0 [] [] Map.empty = Inr db"
    by (auto simp: open_database_def Let_def)
  note find = db_find_latest_write [OF db _ _ witness_ops_ok]
  have "latest (run_writes witness_ops) [1] = Some [11]" "latest (run_writes witness_ops) [2] = None"
    by (simp_all add: latest_def run_writes_def witness_ops_def lww_select_def hlc_less_def)
  with db find [of "[1]"] find [of "[2]"] show ?thesis by (auto simp: witness_platform_def)
qed

text \<open>Replaying the logs gives a database with the same writes.\<close>

lemma reopen_abs:
  assumes "open_database pf fresh threshold t cpu_id [] [] files = Inr db"
    and "0 < pf_align pf" and "pf_cpus pf \<noteq> 0"
    and "list_all op_fits ops" and "length ops < 2 ^ 64" and "distinct_stamps (run_writes ops)"
    and "mset logs_found = mset (wals (foldl db_step db ops))"
  obtains db' :: "'b database" and ws where
    "open_database pf False threshold t' cpu_id' logs_found sst_ids files' = Inr db'"
    "db_abs db' ws" "\<not> sst_locked db'" "mset ws = mset (run_writes ops)"
proof -
  let ?db = "foldl db_step db ops"
  obtain ws where ws: "mset ws = mset (run_writes ops)" "wal_inv ?db ws"
    using db_run_inv [of db "[]" ops] open_empty [OF assms(1-3)] assms(4,5) by auto
  obtain ess where ess: "wals ?db = map log_file ess" "list_all log_ok ess" "wals ?db \<noteq> []"
    "\<forall>e \<in> set (concat ess). we_ot e = 0" "mset (map entry_kv (concat ess)) = mset (map stamped ws)"
    using ws(2) by (auto simp: wal_inv_def)
  obtain ess' where ess': "mset ess' = mset ess" "map log_file ess' = logs_found"
    using mset_map_preimage [of log_file ess logs_found] assms(7) ess(1) by metis
  have ok: "list_all log_ok ess'" using ess(2) mset_eq_setD [OF ess'(1)] by (simp add: list_all_iff)
  have mc: "mset (concat ess') = mset (concat ess)"
    using ess'(1) unfolding mset_concat by (metis mset_map sum_mset_sum_list)
  let ?b = "blank_database pf threshold files' :: 'b database"
  obtain out where out: "recover (internal_insert t') ?b logs_found =
      Inr (foldl (apply_entry (internal_insert t')) ?b out)" "mset out = mset (concat ess')"
    using recover_log_files [OF ok, of "internal_insert t'" ?b] ess'(2) by auto
  have "mset (map stamped ws) = mset (map entry_kv out)"
    using ess(5) out(2) mc by simp
  then obtain ws' where ws': "mset ws' = mset ws" "map stamped ws' = map entry_kv out"
    using mset_map_preimage [of stamped ws "map entry_kv out"] by blast
  have "\<forall>e \<in> set out. we_ot e = 0" using ess(4) mset_eq_setD [of out "concat ess"] out(2) mc by simp
  moreover have "list_all write_fits ws'"
  proof -
    have "list_all write_fits (run_writes ops)"
      using assms(4) by (auto simp: run_writes_def op_fits_def list_all_iff)
    moreover have "set ws' = set (run_writes ops)" using ws'(1) ws(1) by (metis set_mset_mset)
    ultimately show ?thesis by (simp add: list_all_iff)
  qed
  moreover have "db_abs ?b []"
    using sl_abs_fresh [OF assms(2)] assms(2)
    by (auto simp: blank_database_def db_abs_def db_tables_def intro!: exI [of _ "[[]]"])
  ultimately have rec: "db_abs (foldl (apply_entry (internal_insert t')) ?b out) (rev ws')"
    "\<not> sst_locked (foldl (apply_entry (internal_insert t')) ?b out)"
    using db_abs_replay [of ?b "[]" out ws' t'] ws'(2) by (auto simp: blank_database_def)
  let ?r = "foldl (apply_entry (internal_insert t')) ?b out"
  let ?r' = "if mt_used (db_memtable ?r) > threshold then enqueue_memtable ?r else ?r"
  have r': "db_abs ?r' (rev ws')" "\<not> sst_locked ?r'"
    using rec db_abs_enqueue [OF rec(1)] by (auto simp: enqueue_memtable_def)
  have ne: "logs_found \<noteq> []" using ess(1,3) ess' by (metis map_is_Nil_conv mset_zero_iff)
  define db' where "db' = snd (db_reset_shard ((?r'\<lparr>unused_sst_id := fold max sst_ids 0 + 1\<rparr>)
    \<lparr>queue_sst_id := fold max sst_ids 0 + 1, wals := replicate (unat (pf_cpus pf)) []\<rparr>) t' cpu_id')"
  have open': "open_database pf False threshold t' cpu_id' logs_found sst_ids files' = Inr db'"
    using ne out(1) by (simp add: open_database_def Let_def db'_def)
  have abs': "db_abs db' (rev ws')" "\<not> sst_locked db'"
    using r' by (auto simp: db'_def db_reset_shard_def db_tables_def elim!: db_abs_mono)
  show thesis using that [OF open' abs'] ws(1) ws'(1) by simp
qed



end
