(* ===== verification/Sstable.thy ===== *)
theory Sstable
  imports Database
begin

text \<open>
  Flushing memtables and compacting tables on disk: \<open>Queue::process_memtable\<close> and
  \<open>Database::compact\<close> of \<open>lib_database/src/mousedb/database/core.cpp\<close>, as they are written.
\<close>

section \<open>Flushing a memtable\<close>

text \<open>
  \<open>fwrite(&seq, 1, seq_size, fp)\<close> writes \<open>seq_size\<close> bytes from the address of the deque's
  element, which is a pointer to the record and not the record: bytes the program does not
  determine. \<open>junk i n\<close> stands for the \<open>n\<close> bytes at the address of element \<open>i\<close>.
\<close>

fun flush_data :: "(nat \<Rightarrow> nat \<Rightarrow> bytes) \<Rightarrow> mem \<Rightarrow> nat \<Rightarrow> ptr list \<Rightarrow> bytes option" where
  "flush_data junk m i [] = Some []"
| "flush_data junk m i (seq # seqs) = do {
     seq_size \<leftarrow> kv_get_size m seq;
     more \<leftarrow> flush_data junk m (Suc i) seqs;
     Some (junk i seq_size @ more)
   }"

fun flush_bloom :: "'b bitset_ops \<Rightarrow> (bytes \<Rightarrow> u64) \<Rightarrow> mem \<Rightarrow> ptr list \<Rightarrow> 'b bloom \<Rightarrow> 'b bloom option" where
  "flush_bloom B hasher m [] bf = Some bf"
| "flush_bloom B hasher m (seq # seqs) bf = do {
     key \<leftarrow> kv_get_key m seq;
     bf \<leftarrow> bf_add B hasher bf (load_span m key);
     flush_bloom B hasher m seqs bf
   }"

text \<open>The vector \<open>indexes\<close> is created with one zero per record, and then grows.\<close>

fun flush_indexes :: "mem \<Rightarrow> ptr list \<Rightarrow> u64 \<Rightarrow> u64 list \<Rightarrow> u64 list option" where
  "flush_indexes m [] index indexes = Some indexes"
| "flush_indexes m (seq # seqs) index indexes = do {
     seq_size \<leftarrow> kv_get_size m seq;
     flush_indexes m seqs (index + of_nat seq_size) (indexes @ [index])
   }"

record 'b flushed =
  fl_bloom :: "'b bloom"
  fl_head :: bytes
  fl_tail :: bytes

text \<open>
  What one flush computes and writes: the data, the filter and the filter's size before the
  table is registered, the index and the count after. The device has room and \<open>save\<close> is the
  one of the filter.
\<close>

definition flush_memtable ::
    "'b bitset_ops \<Rightarrow> (bytes \<Rightarrow> u64) \<Rightarrow> (nat \<Rightarrow> nat \<Rightarrow> bytes) \<Rightarrow> memtable \<Rightarrow> 'b flushed option" where
  "flush_memtable B hasher junk mt =
     (let m = kv_mem (sl_kvs mt); memtable_size = mt_size mt in do {
        data \<leftarrow> flush_data junk m 0 (sl_nodes mt);
        bf \<leftarrow> flush_bloom B hasher m (sl_nodes mt) (new_bloom B (of_nat (memtable_size * 2)) 3);
        indexes \<leftarrow> flush_indexes m (sl_nodes mt) 0 (replicate memtable_size 0);
        Some \<lparr>fl_bloom = bf,
          fl_head = data @ bf_image B bf @ le_bytes 8 (of_nat (length (bf_image B bf)) :: u64),
          fl_tail = concat (map (le_bytes 8) (take memtable_size indexes)) @
            le_bytes 8 (of_nat memtable_size :: u64)\<rparr>
      })"

text \<open>
  \<open>process_memtable\<close> of the \<open>i\<close>-th table being worked on. With four tables on level 0 it
  calls \<open>compact\<close> while it holds \<open>sstables_mutex_\<close>, which \<open>compact\<close> locks first: the
  worker waits for itself and the mutex is never released. \<open>Stuck\<close> is that end.
\<close>

datatype 'a worker_result = Finished 'a | Stuck 'a | Never

definition process_memtable ::
    "'b bitset_ops \<Rightarrow> (bytes \<Rightarrow> u64) \<Rightarrow> (nat \<Rightarrow> nat \<Rightarrow> bytes) \<Rightarrow> 'b database \<Rightarrow> nat \<Rightarrow>
     'b database worker_result" where
  "process_memtable B hasher junk db i =
     (let mt = db_working db ! i; n = queue_sst_id db;
          db = db\<lparr>queue_sst_id := n + 1, sst_files := (sst_files db)(n \<mapsto> [])\<rparr>
      in case flush_memtable B hasher junk mt of
           None \<Rightarrow> Never
         | Some fl \<Rightarrow>
             (let db = db\<lparr>sst_files := (sst_files db)(n \<mapsto> fl_head fl),
                          filters := (filters db)(n \<mapsto> fl_bloom fl)\<rparr>
              in if sst_locked db then Stuck db
                 else if length (sstables db ! 0) \<ge> 4 then Stuck (db\<lparr>sst_locked := True\<rparr>)
                 else
                   Finished (db\<lparr>sstables := (sstables db)[0 := sstables db ! 0 @ [n]],
                     sst_files := (sst_files db)(n \<mapsto> fl_head fl @ fl_tail fl),
                     db_working := remove_nth i (db_working db)\<rparr>)))"

section \<open>Tables on disk\<close>

text \<open>
  The file that \<open>compact\<close> writes for the merged entries: records, filter, the filter's size,
  the offsets of the records and their number. \<open>std::map\<close> yields the keys in order.
\<close>

fun offsets_from :: "u64 \<Rightarrow> bytes list \<Rightarrow> u64 list" where
  "offsets_from cursor [] = []"
| "offsets_from cursor (r # rs) = cursor # offsets_from (cursor + of_nat (length r)) rs"

definition sst_bytes :: "bytes list \<Rightarrow> bytes \<Rightarrow> bytes" where
  "sst_bytes recs bf =
     concat recs @ bf @ le_bytes 8 (of_nat (length bf) :: u64) @
     concat (map (le_bytes 8) (offsets_from 0 recs)) @ le_bytes 8 (of_nat (length recs) :: u64)"

text \<open>\<open>fseek(in, -k, SEEK_END)\<close> and then a read of \<open>n\<close> bytes.\<close>

definition read_back :: "bytes \<Rightarrow> nat \<Rightarrow> nat \<Rightarrow> bytes" where
  "read_back file k n = take n (drop (length file - k) file)"

datatype compact_error = Open_Failed | Length_Error | Bad_Record

text \<open>
  One turn of the loop over the entries. \<open>data_end\<close> is computed as a negative position
  relative to the end of the file and then used as an absolute one; a buffer longer than
  \<open>2^63 - 1\<close> bytes makes the vector throw \<open>std::length_error\<close>. Decoding runs over the buffer.
\<close>

definition read_record :: "bytes \<Rightarrow> u64 \<Rightarrow> u64 \<Rightarrow> compact_error + bytes \<times> bytes" where
  "read_record file start end_pos =
     (let seq_sz = end_pos - start in
      if unat seq_sz > 2 ^ 63 - 1 then Inl Length_Error
      else
        (let buf = take (unat seq_sz) (drop (unat start) file);
             m = (\<lambda>p. buf ! off p); p = \<lparr>base = None, off = 0\<rparr>
         in case (kv_get_key m p, kv_get_value m p) of
              (Some key, Some val) \<Rightarrow> Inr (load_span m key, load_span m val)
            | _ \<Rightarrow> Inl Bad_Record))"

text \<open>\<open>std::map<std::string, std::vector<char>>\<close>: the pairs in the order of their keys.\<close>

type_synonym sst_map = "(bytes \<times> bytes) list"

fun map_put :: "bytes \<Rightarrow> bytes \<Rightarrow> sst_map \<Rightarrow> sst_map" where
  "map_put k v [] = [(k, v)]"
| "map_put k v ((k', v') # kvs) =
     (if k = k' then (k, v) # kvs
      else if k < k' then (k, v) # (k', v') # kvs
      else (k', v') # map_put k v kvs)"

fun read_records :: "bytes \<Rightarrow> u64 \<Rightarrow> u64 list \<Rightarrow> sst_map \<Rightarrow> compact_error + sst_map" where
  "read_records file data_end [] merged = Inr merged"
| "read_records file data_end (start # offs) merged =
     (let end_pos = (case offs of o2 # _ \<Rightarrow> o2 | [] \<Rightarrow> data_end) in
      case read_record file start end_pos of
        Inl err \<Rightarrow> Inl err
      | Inr (key, val) \<Rightarrow> read_records file data_end offs (map_put key val merged))"

definition read_words :: "bytes \<Rightarrow> nat \<Rightarrow> u64 list" where
  "read_words bs n = map (\<lambda>i. le_word (take 8 (drop (i * 8) bs))) [0..<n]"

definition merge_sst :: "bytes \<Rightarrow> sst_map \<Rightarrow> compact_error + sst_map" where
  "merge_sst file merged =
     (let entry_count = unat (le_word (read_back file 8 8) :: u64);
          idx_pos = 8 * (entry_count + 1);
          offs = read_words (read_back file idx_pos (8 * entry_count)) entry_count;
          bf_sz = (le_word (read_back file (idx_pos + 8) 8) :: u64);
          data_end = - (of_nat idx_pos) - 8 - bf_sz
      in read_records file data_end offs merged)"

fun merge_ssts ::
    "(nat \<rightharpoonup> bytes) \<Rightarrow> nat list \<Rightarrow> sst_map \<Rightarrow> compact_error + sst_map" where
  "merge_ssts files [] merged = Inr merged"
| "merge_ssts files (sst_id # sst_ids) merged =
     (case files sst_id of
        None \<Rightarrow> Inl Open_Failed
      | Some file \<Rightarrow>
          (case merge_sst file merged of
             Inl err \<Rightarrow> Inl err
           | Inr merged \<Rightarrow> merge_ssts files sst_ids merged))"

text \<open>Writing the merged entries by way of a temporary memtable.\<close>

definition merged_memtable :: "platform \<Rightarrow> nat \<Rightarrow> sst_map \<Rightarrow> memtable" where
  "merged_memtable pf t merged =
     foldl (\<lambda>mt (key, val). mt_insert mt t key val) (fresh_memtable pf) merged"

fun record_images :: "mem \<Rightarrow> ptr list \<Rightarrow> bytes list option" where
  "record_images m [] = Some []"
| "record_images m (p # ps) = do {
     seq_sz \<leftarrow> kv_get_size m p;
     recs \<leftarrow> record_images m ps;
     Some (load m p seq_sz # recs)
   }"

definition compact_write ::
    "'b bitset_ops \<Rightarrow> (bytes \<Rightarrow> u64) \<Rightarrow> memtable \<Rightarrow> ('b bloom \<times> bytes) option" where
  "compact_write B hasher temp_mt =
     (let m = kv_mem (sl_kvs temp_mt) in do {
        recs \<leftarrow> record_images m (sl_nodes temp_mt);
        bf \<leftarrow> flush_bloom B hasher m (sl_nodes temp_mt)
          (new_bloom B (of_nat (mt_size temp_mt * 2)) 3);
        Some (bf, sst_bytes recs (bf_image B bf))
      })"

text \<open>
  \<open>compact\<close> of level \<open>l\<close>, run without a lock held by its caller. Its new table takes the
  database's own counter of table numbers, which \<open>process_memtable\<close> does not advance.
\<close>

definition compact ::
    "'b bitset_ops \<Rightarrow> (bytes \<Rightarrow> u64) \<Rightarrow> nat \<Rightarrow> 'b database \<Rightarrow> nat \<Rightarrow> compact_error + 'b database option" where
  "compact B hasher t db l =
     (let level_ssts = sstables db ! l in
      if level_ssts = [] then Inr (Some db)
      else
        (case merge_ssts (sst_files db) level_ssts [] of
           Inl err \<Rightarrow> Inl err
         | Inr merged \<Rightarrow>
             (let db = db\<lparr>sst_files := sst_files db |` (- set level_ssts),
                          filters := filters db |` (- set level_ssts),
                          sstables := (sstables db)[l := []]\<rparr>;
                  new_id = unused_sst_id db
              in case compact_write B hasher (merged_memtable (db_pf db) t merged) of
                   None \<Rightarrow> Inr None
                 | Some (bf, out) \<Rightarrow>
                     Inr (Some (db\<lparr>unused_sst_id := new_id + 1,
                       sst_files := (sst_files db)(new_id \<mapsto> out),
                       sstables :=
                         (if l + 1 = length (sstables db) then sstables db @ [[new_id]]
                          else (sstables db)[l + 1 := sstables db ! (l + 1) @ [new_id]]),
                       filters := (filters db)(new_id \<mapsto> bf)\<rparr>)))))"

section \<open>What a flush leaves\<close>

lemma flush_indexes_prefix:
  "flush_indexes m seqs index indexes = Some out \<Longrightarrow> \<exists>more. out = indexes @ more"
proof (induction seqs arbitrary: index indexes)
  case (Cons seq seqs)
  then show ?case by (auto split: Option.bind_splits) fastforce
qed simp

lemma le_bytes_0: "le_bytes n (0 :: 'a::len word) = replicate n 0"
  by (induction n) auto

lemma flush_index_zero:
  assumes "flush_memtable B hasher junk mt = Some fl"
  shows "fl_tail fl = replicate (8 * mt_size mt) 0 @ le_bytes 8 (of_nat (mt_size mt) :: u64)"
proof -
  have "concat (map (le_bytes 8) (replicate n (0 :: u64))) = replicate (8 * n) 0" for n
    by (induction n) (simp_all add: le_bytes_0 replicate_add)
  then show ?thesis
    using assms flush_indexes_prefix
    by (fastforce simp: flush_memtable_def Let_def split: Option.bind_splits)
qed

lemma flush_defined:
  assumes "list_all2 (node_is st) nodes kvs"
  shows "\<exists>data. flush_data junk (kv_mem st) i nodes = Some data"
    and "\<exists>out. flush_indexes (kv_mem st) nodes index indexes = Some out"
    and "bf_size bf \<noteq> 0 \<or> nodes = [] \<Longrightarrow> \<exists>bf'. flush_bloom B hasher (kv_mem st) nodes bf = Some bf'"
  using assms
proof (induction arbitrary: i index indexes bf rule: list_all2_induct)
  case (Cons p nodes kv kvs)
  obtain k v where kv: "kv = (k, v)" by (cases kv)
  have "holds (kv_mem st) p (record_bytes k v)" "fits k v"
    using Cons(1) kv by (simp_all add: node_is_def)
  note get = kv_get_record [OF this]
  {
    case 1
    then show ?case using Cons.IH(1) [of "Suc i"] get by auto
  next
    case 2
    then show ?case using Cons.IH(2) get by auto
  next
    case 3
    then have sz: "bf_size bf \<noteq> 0" by simp
    then obtain bf' where bf': "bf_add B hasher bf (load_span (kv_mem st)
        (ptr_add p (get_varint_size (of_nat (length k))), length k)) = Some bf'" "bf_size bf' = bf_size bf"
      using bf_add_total by blast
    then show ?case using Cons.IH(3) [of bf'] get sz by auto
  }
qed auto

lemma flush_memtable_defined:
  assumes "sl_abs mt kvs" "length kvs < 2 ^ 63"
  shows "\<exists>fl. flush_memtable B hasher junk mt = Some fl"
proof -
  have nodes: "list_all2 (node_is (sl_kvs mt)) (sl_nodes mt) kvs" using assms(1) by (simp add: sl_abs_def)
  then have len: "mt_size mt = length kvs"
    by (simp add: mt_size_def sl_size_def list_all2_lengthD)
  have "of_nat (mt_size mt * 2) \<noteq> (0 :: u64) \<or> sl_nodes mt = []"
  proof (cases "kvs = []")
    case True
    then show ?thesis using nodes by simp
  next
    case False
    have "unat (of_nat (mt_size mt * 2) :: u64) = mt_size mt * 2"
      using assms(2) by (subst unat_of_nat) (simp add: len)
    then show ?thesis using False len by (metis length_0_conv mult_is_0 unat_0 zero_neq_numeral)
  qed
  then have "bf_size (new_bloom B (of_nat (mt_size mt * 2)) 3) \<noteq> 0 \<or> sl_nodes mt = []"
    by (simp add: new_bloom_def)
  from flush_defined(1) [OF nodes, of junk 0] flush_defined(3) [OF nodes this, of B hasher]
    flush_defined(2) [OF nodes, of 0 "replicate (mt_size mt) 0"]
  show ?thesis by (auto simp: flush_memtable_def Let_def)
qed

lemma process_finished:
  assumes "process_memtable B hasher junk db i = Finished db'"
  shows "db_memtable db' = db_memtable db \<and> db_queue db' = db_queue db \<and>
    db_working db' = remove_nth i (db_working db) \<and> \<not> sst_locked db'"
  using assms
  by (auto simp: process_memtable_def Let_def split: option.splits if_splits)

lemma find_tables_none:
  "\<forall>m \<in> set ms. mt_lookup m key = Some [] \<Longrightarrow> find_tables ms key = Some []"
  by (induction ms) auto

section \<open>Reading back a table\<close>

lemma take_read_words:
  "read_words (concat (map (le_bytes 8) ws)) (length ws) = ws"
proof (induction ws)
  case (Cons w ws)
  have "read_words (le_bytes 8 w @ bs) (Suc n) = w # read_words bs n" for bs n
  proof -
    have "map (\<lambda>i. le_word (take 8 (drop (i * 8) (le_bytes 8 w @ bs))) :: u64) [1..<Suc n] =
        map (\<lambda>i. le_word (take 8 (drop (i * 8) bs))) [0..<n]"
      by (simp add: map_Suc_upt [symmetric] del: upt_Suc)
    then show ?thesis by (simp add: read_words_def upt_conv_Cons del: upt_Suc)
  qed
  then show ?case using Cons by simp
qed (simp add: read_words_def)

lemma read_back_append:
  "length bs + length zs = k \<Longrightarrow> read_back (xs @ bs @ zs) k (length bs) = bs"
  by (simp add: read_back_def)

lemma read_record_ok:
  assumes "drop (unat start) file = record_bytes k v @ zs" "fits k v"
    and "end_pos - start = of_nat (length (record_bytes k v))" "length (record_bytes k v) < 2 ^ 63"
  shows "read_record file start end_pos = Inr (k, v)"
proof -
  have sz: "unat (end_pos - start) = length (record_bytes k v)"
    using assms(3,4) by (simp add: unat_of_nat)
  let ?m = "\<lambda>p. record_bytes k v ! off p" and ?p = "\<lparr>base = None, off = 0\<rparr>"
  have "holds ?m ?p (record_bytes k v)" by (simp add: holds_nth ptr_add_def)
  from kv_get_record [OF this assms(2)] show ?thesis
    using assms(1,4) sz by (simp add: read_record_def Let_def load_span_def)
qed

text \<open>The last record's end is taken from \<open>data_end\<close>.\<close>

lemma read_records_throw:
  assumes "kvs \<noteq> []" "list_all (\<lambda>(k, v). fits k v) kvs" "recs = map (\<lambda>(k, v). record_bytes k v) kvs"
    and "drop (unat cursor) file = concat recs @ zs" "unat cursor + length (concat recs) < 2 ^ 62"
    and "2 ^ 63 + 2 ^ 62 \<le> unat data_end"
  shows "read_records file data_end (offsets_from cursor recs) merged = Inl Length_Error"
  using assms
proof (induction kvs arbitrary: cursor recs merged)
  case (Cons kv kvs)
  obtain k v where kv: "kv = (k, v)" by (cases kv)
  let ?r = "record_bytes k v"
  let ?recs = "map (\<lambda>(k, v). record_bytes k v) kvs"
  have recs: "recs = ?r # ?recs" using Cons.prems(3) kv by simp
  show ?case
  proof (cases "kvs = []")
    case True
    have "unat (data_end - cursor) = unat data_end - unat cursor"
      using Cons.prems(5,6) by (intro unat_sub) (simp add: word_le_nat_alt)
    then have "2 ^ 63 - 1 < unat (data_end - cursor)" using Cons.prems(5,6) by simp
    then show ?thesis using recs True by (simp add: read_record_def Let_def)
  next
    case False
    define cursor' where "cursor' = cursor + of_nat (length ?r)"
    have small: "unat cursor + length ?r < 2 ^ 62" using Cons.prems(5) recs by simp
    have c': "unat cursor' = unat cursor + length ?r"
      using small by (simp add: cursor'_def unat_word_ariths unat_of_nat)
    obtain r2 rs2 where r2: "?recs = r2 # rs2" using False by (cases ?recs) auto
    have "read_record file cursor cursor' = Inr (k, v)"
      using Cons.prems(2,4) kv recs small by (intro read_record_ok) (auto simp: cursor'_def)
    moreover have "read_records file data_end (offsets_from cursor' ?recs) (map_put k v merged) =
        Inl Length_Error"
    proof (rule Cons.IH [OF False _ refl _ _ Cons.prems(6)])
      show "list_all (\<lambda>(k, v). fits k v) kvs" using Cons.prems(2) by simp
      have "drop (unat cursor') file = drop (length ?r) (drop (unat cursor) file)"
        by (simp add: c' add.commute)
      then show "drop (unat cursor') file = concat ?recs @ zs" using Cons.prems(4) recs by simp
      show "unat cursor' + length (concat ?recs) < 2 ^ 62" using Cons.prems(5) recs c' by simp
    qed
    ultimately show ?thesis unfolding recs by (simp add: r2 flip: cursor'_def)
  qed
qed simp

lemma length_offsets [simp]: "length (offsets_from c rs) = length rs"
  by (induction rs arbitrary: c) auto

lemma merge_sst_throw:
  assumes "kvs \<noteq> []" "list_all (\<lambda>(k, v). fits k v) kvs" "recs = map (\<lambda>(k, v). record_bytes k v) kvs"
    and "length (sst_bytes recs bf) < 2 ^ 61"
  shows "merge_sst (sst_bytes recs bf) merged = Inl Length_Error"
proof -
  let ?file = "sst_bytes recs bf" and ?n = "length recs"
  let ?offs = "concat (map (le_bytes 8) (offsets_from 0 recs))"
  have len: "length ?file = length (concat recs) + length bf + 16 + ?n * 8"
    by (simp add: sst_bytes_def)
  have 1: "read_back ?file 8 8 = le_bytes 8 (of_nat ?n :: u64)"
    using read_back_append [of "le_bytes 8 (of_nat ?n :: u64)" "[]" 8
        "concat recs @ bf @ le_bytes 8 (of_nat (length bf) :: u64) @ ?offs"]
    by (simp add: sst_bytes_def)
  have n: "unat (of_nat ?n :: u64) = ?n" using assms(4) len by (simp add: unat_of_nat)
  have 2: "read_back ?file (8 * (?n + 1)) (8 * ?n) = ?offs"
    using read_back_append [of ?offs "le_bytes 8 (of_nat ?n :: u64)" "8 * (?n + 1)"
        "concat recs @ bf @ le_bytes 8 (of_nat (length bf) :: u64)"]
    by (simp add: sst_bytes_def mult.commute)
  have 3: "read_back ?file (8 * (?n + 1) + 8) 8 = le_bytes 8 (of_nat (length bf) :: u64)"
    using read_back_append [of "le_bytes 8 (of_nat (length bf) :: u64)"
        "?offs @ le_bytes 8 (of_nat ?n :: u64)" "8 * (?n + 1) + 8" "concat recs @ bf"]
    by (simp add: sst_bytes_def)
  have w: "read_words ?offs ?n = offsets_from 0 recs"
    using take_read_words [of "offsets_from 0 recs"] by simp
  define d where "d = 8 * (?n + 1) + 8 + length bf"
  have d: "0 < d" "d < 2 ^ 61" using assms(4) len by (simp_all add: d_def)
  then have ud: "unat (of_nat d :: u64) = d" by (simp add: unat_of_nat)
  have e: "- of_nat (8 * (?n + 1)) - 8 - of_nat (length bf) = (- of_nat d :: u64)"
    by (simp add: d_def)
  have "unat (- of_nat d :: u64) = 2 ^ 64 - d"
    using d ud unat_sub_if_size [of 0 "of_nat d :: u64"] by (simp add: word_size word_le_nat_alt)
  then have "2 ^ 63 + 2 ^ 62 \<le> unat (- of_nat d :: u64)" using d(2) by simp
  then have "read_records ?file (- of_nat d) (offsets_from 0 recs) merged = Inl Length_Error"
    using assms len by (intro read_records_throw [where kvs = kvs]) (auto simp: sst_bytes_def)
  then show ?thesis
    by (simp add: merge_sst_def Let_def 1 n 2 [simplified] 3 [simplified] w e [simplified])
qed

section \<open>Properties\<close>

text \<open>C38: once a worker finishes a flush, the writes in the flushed memtable are gone for every
  reader: the table is on disk and registered, but no look-up reads it, so a key held by no other
  table is absent.\<close>
theorem flushed_writes_lost:
  assumes "process_memtable B hasher junk db i = Finished db'"
    and "\<forall>m \<in> set (db_memtable db # db_queue db @ remove_nth i (db_working db)).
      mt_lookup m key = Some []"
  shows "db_find db' key = Some None"
proof -
  have "find_tables (db_tables db') key = Some []"
    using process_finished [OF assms(1)] assms(2)
    by (intro find_tables_none) (auto simp: db_tables_def)
  then show ?thesis by (simp add: db_find_def internal_find_tables)
qed

definition flush_ops :: "db_op list" where
  "flush_ops = [Insert 0 None [1] [10] (HLC 5 0 1), Take]"

lemma flush_ops_state:
  assumes "open_database witness_platform True 0 0 0 [] [] Map.empty = Inr db"
  shows "db_queue (foldl db_step db flush_ops) = []"
    and "\<exists>m. db_working (foldl db_step db flush_ops) = [m] \<and> sl_abs m [stamped ([1], HLC 5 0 1, [10])]"
    and "sl_abs (db_memtable (foldl db_step db flush_ops)) []"
    and "sstables (foldl db_step db flush_ops) = [[]]" and "\<not> sst_locked (foldl db_step db flush_ops)"
proof -
  have db: "db_memtable db = fresh_memtable witness_platform" "db_queue db = []" "db_working db = []"
    "sstables db = [[]]" "flush_threshold db = 0" "db_pf db = witness_platform" "\<not> sst_locked db"
    using assms by (auto simp: open_database_def Let_def db_reset_shard_def blank_database_def)
  let ?m = "mt_insert (fresh_memtable witness_platform) 0 [1] (hlc_bytes (HLC 5 0 1) @ [10])"
  have abs: "sl_abs (fresh_memtable witness_platform) []"
    by (rule sl_abs_fresh) (simp add: witness_platform_def)
  then have m: "sl_abs ?m [stamped ([1], HLC 5 0 1, [10])]"
    using sl_abs_insert [of "fresh_memtable witness_platform" "[]" "[1]" "hlc_bytes (HLC 5 0 1) @ [10]" 0]
    by (simp add: mt_insert_def fits_def stamped_def)
  then have "mt_size ?m = 1"
    by (auto simp: sl_abs_def mt_size_def sl_size_def dest: list_all2_lengthD)
  then have run: "db_memtable (foldl db_step db flush_ops) = fresh_memtable witness_platform"
    "db_queue (foldl db_step db flush_ops) = []" "db_working (foldl db_step db flush_ops) = [?m]"
    "sstables (foldl db_step db flush_ops) = [[]]" "\<not> sst_locked (foldl db_step db flush_ops)"
    using db by (auto simp: flush_ops_def db_insert_def wal_insert_def wal_shard_def internal_insert_def
        enqueue_memtable_def worker_take_def Let_def)
  then show "db_queue (foldl db_step db flush_ops) = []"
    "\<exists>m. db_working (foldl db_step db flush_ops) = [m] \<and> sl_abs m [stamped ([1], HLC 5 0 1, [10])]"
    "sl_abs (db_memtable (foldl db_step db flush_ops)) []"
    "sstables (foldl db_step db flush_ops) = [[]]" "\<not> sst_locked (foldl db_step db flush_ops)"
    using m abs by simp_all
qed

text \<open>One insertion into a fresh database with flush threshold 0: found before the flush, and
  not after it.\<close>
theorem flushed_writes_lost_witness:
  "\<exists>(db :: bool list database) db'.
     open_database witness_platform True 0 0 0 [] [] Map.empty = Inr db \<and>
     db_find (foldl db_step db flush_ops) [1] = Some (Some [10]) \<and>
     process_memtable bool_bitset (\<lambda>_. 0) (\<lambda>_ n. replicate n 0) (foldl db_step db flush_ops) 0
       = Finished db' \<and> db_find db' [1] = Some None"
proof -
  obtain db :: "bool list database" where
    db: "open_database witness_platform True 0 0 0 [] [] Map.empty = Inr db"
    by (auto simp: open_database_def Let_def)
  note st = flush_ops_state [OF db]
  let ?db = "foldl db_step db flush_ops"
  obtain m where m: "db_working ?db = [m]" "sl_abs m [stamped ([1], HLC 5 0 1, [10])]"
    using st(2) by blast
  obtain fl where "flush_memtable bool_bitset (\<lambda>_. 0) (\<lambda>_ n. replicate n 0) m = Some fl"
    using flush_memtable_defined [OF m(2), of bool_bitset] by fastforce
  then obtain db' where fin:
    "process_memtable bool_bitset (\<lambda>_. 0) (\<lambda>_ n. replicate n 0) ?db 0 = Finished db'"
    using m(1) st(4,5) by (auto simp: process_memtable_def Let_def)
  have "mt_lookup (db_memtable ?db) [1] = Some []" using mt_lookup_abs [OF st(3)] by simp
  then have "db_find db' [1] = Some None"
    using st(1) m(1) by (intro flushed_writes_lost [OF fin]) (simp add: remove_nth_def)
  moreover have "db_find ?db [1] = Some (Some [10])"
    using mt_lookup_abs [OF st(3), of "[1]"] mt_lookup_abs [OF m(2), of "[1]"] st(1,5) m(1)
    by (simp add: db_find_def internal_find_tables db_tables_def stamped_def lww_select_def)
  ultimately show ?thesis using db fin by blast
qed



text \<open>C39: compaction never succeeds on a table it could have written itself. Whatever the level
  holds after it, the first non-empty well-formed table makes it throw \<open>std::length_error\<close>, as
  the end of the last record is taken from a position relative to the end of the file.\<close>
theorem compact_throws_length_error:
  assumes "sstables db ! l = n # rest_ids" and "sst_files db n = Some (sst_bytes recs bf)"
    and "recs = map (\<lambda>(k, v). record_bytes k v) kvs" and "kvs \<noteq> []"
    and "list_all (\<lambda>(k, v). fits k v) kvs" and "length (sst_bytes recs bf) < 2 ^ 61"
  shows "compact B hasher t db l = Inl Length_Error"
  using merge_sst_throw [OF assms(4,5,3,6)] assms(1,2) by (simp add: compact_def Let_def)

theorem compact_throws_length_error_witness:
  "compact bool_bitset (\<lambda>_. 0) 0
     ((blank_database witness_platform 0 [7 \<mapsto> sst_bytes [record_bytes [1] [2, 3]] []])
        \<lparr>sstables := [[7, 8]]\<rparr>) 0 = Inl Length_Error"
  by (rule compact_throws_length_error [where kvs = "[([1], [2, 3])]" and bf = "[]", OF _ _ refl])
    (simp_all add: blank_database_def fits_def sst_bytes_def length_record_bytes get_varint_size_def
      countl_zero_def Let_def upt_rec)

end
