(* ===== verification/Pool.thy ===== *)
theory Pool
  imports Main
begin

text \<open>
  The threads of \<open>Database::Queue\<close> (\<open>lib_database/src/mousedb/database/core.cpp\<close>): workers that take
  memtables from the queue, \<open>enqueue_memtable\<close>, and the destructor, which stops and joins the workers. The
  steps are those that the mutex, the atomic flag and the condition variable make visible; what a worker
  does with a memtable is in \<open>Sstable\<close>. And the directories that the constructor of \<open>Database\<close> needs.
\<close>

section \<open>Directories\<close>

text \<open>Whether the root is there, is a directory, and has a directory \<open>data\<close>; what the constructor leaves, or
  the exception.\<close>

record directories =
  root_exists :: bool
  root_directory :: bool
  data_directory :: bool

datatype directory_error = Root_Not_Directory | Data_Not_Directory

definition prepare_directories :: "directories \<Rightarrow> directory_error + directories" where
  "prepare_directories d =
     (let d = (if \<not> root_exists d then \<lparr>root_exists = True, root_directory = True, data_directory = True\<rparr> else d)
      in if \<not> root_directory d then Inl Root_Not_Directory
         else if \<not> data_directory d then Inl Data_Not_Directory
         else Inr d)"

definition num_workers :: "nat \<Rightarrow> nat" where
  "num_workers hardware_concurrency = max (hardware_concurrency div 2) 1"

section \<open>State\<close>

text \<open>
  Where a worker stands: before the lock; with the mutex before the test of the predicate, before going to
  sleep, and before taking a memtable; asleep; writing a memtable; before the lock for its removal; returned.
\<close>

datatype worker_pc = W_Lock | W_Test | W_Sleep | W_Asleep | W_Take | W_Process nat | W_Erase nat | W_Returned

text \<open>The destructor: not called; the flag set; the workers notified; all joined.\<close>

datatype stop_pc = Running | Stopping | Joining | Joined

text \<open>Memtables are known by numbers; \<open>po_notify\<close> counts the calls of \<open>notify_one\<close> that are still to come.
  A worker keeps an iterator into \<open>po_working\<close> for its removal; here it removes the memtable that it took.\<close>

record pool =
  po_queue :: "nat list"
  po_working :: "nat list"
  po_mutex :: "nat option"
  po_stop :: bool
  po_pcs :: "nat \<Rightarrow> worker_pc"
  po_notify :: nat
  po_main :: stop_pc

definition new_pool :: pool where
  "new_pool = \<lparr>po_queue = [], po_working = [], po_mutex = None, po_stop = False, po_pcs = (\<lambda>_. W_Lock),
     po_notify = 0, po_main = Running\<rparr>"

definition set_worker :: "nat \<Rightarrow> worker_pc \<Rightarrow> pool \<Rightarrow> pool" where
  "set_worker w pc p = p\<lparr>po_pcs := (po_pcs p)(w := pc)\<rparr>"

section \<open>Steps\<close>

text \<open>The predicate of \<open>queue_cv_.wait\<close>.\<close>

definition may_wake :: "pool \<Rightarrow> bool" where
  "may_wake p \<longleftrightarrow> po_stop p \<or> po_queue p \<noteq> []"

definition take_memtable :: "nat \<Rightarrow> pool \<Rightarrow> pool option" where
  "take_memtable w p =
     (if po_stop p \<and> po_queue p = [] then Some (set_worker w W_Returned (p\<lparr>po_mutex := None\<rparr>))
      else
        (case po_queue p of
           [] \<Rightarrow> None
         | m # ms \<Rightarrow> Some (set_worker w (W_Process m)
             (p\<lparr>po_queue := ms, po_working := po_working p @ [m], po_mutex := None\<rparr>))))"

definition worker_step :: "nat \<Rightarrow> pool \<Rightarrow> pool option" where
  "worker_step w p =
     (case po_pcs p w of
        W_Lock \<Rightarrow> (if po_mutex p = None then Some (set_worker w W_Test (p\<lparr>po_mutex := Some w\<rparr>)) else None)
      | W_Test \<Rightarrow> Some (set_worker w (if may_wake p then W_Take else W_Sleep) p)
      | W_Sleep \<Rightarrow> Some (set_worker w W_Asleep (p\<lparr>po_mutex := None\<rparr>))
      | W_Take \<Rightarrow> take_memtable w p
      | W_Process m \<Rightarrow> Some (set_worker w (W_Erase m) p)
      | W_Erase m \<Rightarrow>
          (if po_mutex p = None then Some (set_worker w W_Lock (p\<lparr>po_working := remove1 m (po_working p)\<rparr>)) else None)
      | _ \<Rightarrow> None)"

definition enqueue :: "nat \<Rightarrow> pool \<Rightarrow> pool" where
  "enqueue m p = p\<lparr>po_queue := po_queue p @ [m], po_notify := Suc (po_notify p)\<rparr>"

definition store_stop :: "pool \<Rightarrow> pool" where
  "store_stop p = p\<lparr>po_stop := True, po_main := Stopping\<rparr>"

definition notify_all :: "pool \<Rightarrow> pool" where
  "notify_all p =
     p\<lparr>po_pcs := (\<lambda>w. if po_pcs p w = W_Asleep then W_Lock else po_pcs p w), po_main := Joining\<rparr>"

text \<open>
  \<open>Outer\<close> steps are calls from outside and spurious wake-ups; \<open>Inner\<close> steps are those that the workers and the
  destructor take by themselves. Nothing is enqueued once the destructor runs.
\<close>

datatype pool_kind = Outer | Inner

inductive pool_step :: "nat \<Rightarrow> pool_kind \<Rightarrow> pool \<Rightarrow> pool \<Rightarrow> bool" for n where
  enqueue: "po_main p = Running \<Longrightarrow> po_mutex p = None \<Longrightarrow> pool_step n Outer p (enqueue m p)"
| notify_one: "po_notify p = Suc k \<Longrightarrow> w < n \<Longrightarrow> po_pcs p w = W_Asleep \<Longrightarrow>
     pool_step n Outer p (set_worker w W_Lock (p\<lparr>po_notify := k\<rparr>))"
| notify_none: "po_notify p = Suc k \<Longrightarrow> \<forall>w<n. po_pcs p w \<noteq> W_Asleep \<Longrightarrow>
     pool_step n Outer p (p\<lparr>po_notify := k\<rparr>)"
| spurious: "w < n \<Longrightarrow> po_pcs p w = W_Asleep \<Longrightarrow> pool_step n Outer p (set_worker w W_Lock p)"
| stop: "po_main p = Running \<Longrightarrow> pool_step n Outer p (store_stop p)"
| notify_all: "po_main p = Stopping \<Longrightarrow> pool_step n Inner p (notify_all p)"
| join: "po_main p = Joining \<Longrightarrow> \<forall>w<n. po_pcs p w = W_Returned \<Longrightarrow>
     pool_step n Inner p (p\<lparr>po_main := Joined\<rparr>)"
| worker: "w < n \<Longrightarrow> worker_step w p = Some p' \<Longrightarrow> pool_step n Inner p p'"

inductive pool_run :: "nat \<Rightarrow> pool \<Rightarrow> pool \<Rightarrow> bool" for n where
  nil: "pool_run n p p"
| snoc: "pool_run n p p' \<Longrightarrow> pool_step n e p' p'' \<Longrightarrow> pool_run n p p''"

section \<open>Invariant\<close>

fun holds_mutex :: "worker_pc \<Rightarrow> bool" where
  "holds_mutex W_Test = True"
| "holds_mutex W_Sleep = True"
| "holds_mutex W_Take = True"
| "holds_mutex _ = False"

definition pool_ok :: "nat \<Rightarrow> pool \<Rightarrow> bool" where
  "pool_ok n p \<longleftrightarrow>
     (\<forall>w. po_mutex p = Some w \<longleftrightarrow> w < n \<and> holds_mutex (po_pcs p w)) \<and>
     (\<forall>w<n. po_pcs p w = W_Take \<longrightarrow> may_wake p) \<and>
     (\<forall>w<n. po_pcs p w = W_Returned \<longrightarrow> po_stop p \<and> po_queue p = []) \<and>
     (po_stop p \<longleftrightarrow> po_main p \<noteq> Running) \<and>
     (po_main p = Joined \<longrightarrow> (\<forall>w<n. po_pcs p w = W_Returned))"

text \<open>Once the flag is set and no worker is caught between its test and its sleep.\<close>

definition pool_quiet :: "nat \<Rightarrow> pool \<Rightarrow> bool" where
  "pool_quiet n p \<longleftrightarrow> po_stop p \<and> (\<forall>w<n. po_pcs p w \<noteq> W_Sleep) \<and>
     (po_main p \<noteq> Stopping \<longrightarrow> (\<forall>w<n. po_pcs p w \<noteq> W_Asleep))"

lemma pcs_set_worker [simp]: "po_pcs (set_worker w pc p) = (po_pcs p)(w := pc)"
  and other_set_worker [simp]: "po_queue (set_worker w pc p) = po_queue p" "po_mutex (set_worker w pc p) = po_mutex p"
    "po_stop (set_worker w pc p) = po_stop p" "po_main (set_worker w pc p) = po_main p"
    "po_notify (set_worker w pc p) = po_notify p" "po_working (set_worker w pc p) = po_working p"
  by (simp_all add: set_worker_def)

lemma pool_ok_new: "pool_ok n new_pool"
  by (simp add: pool_ok_def new_pool_def)

lemma pool_okD:
  assumes "pool_ok n p"
  shows "w < n \<Longrightarrow> holds_mutex (po_pcs p w) \<longleftrightarrow> po_mutex p = Some w"
    "w < n \<Longrightarrow> po_pcs p w = W_Take \<Longrightarrow> po_stop p \<or> po_queue p \<noteq> []"
    "w < n \<Longrightarrow> po_pcs p w = W_Returned \<Longrightarrow> po_stop p \<and> po_queue p = []"
    "po_stop p \<longleftrightarrow> po_main p \<noteq> Running"
    "po_main p = Joined \<Longrightarrow> w < n \<Longrightarrow> po_pcs p w = W_Returned"
    "po_mutex p = Some w \<Longrightarrow> w < n"
  using assms unfolding pool_ok_def may_wake_def by blast+

text \<open>What a step of a worker may change.\<close>

lemma pool_ok_worker:
  assumes ok: "pool_ok n p" and w: "w < n" and step: "worker_step w p = Some p'"
  shows "pool_ok n p'"
proof -
  have joined: "po_main p = Joined \<Longrightarrow> po_pcs p w = W_Returned" using pool_okD(5) [OF ok] w by blast
  have "po_pcs p w \<noteq> W_Returned" using step by (auto simp: worker_step_def)
  then have main: "po_main p \<noteq> Joined" using joined by blast
  have free: "po_mutex p = None \<Longrightarrow> v < n \<Longrightarrow> \<not> holds_mutex (po_pcs p v)" for v
    using pool_okD(1) [OF ok, of v] by simp
  have mine: "holds_mutex (po_pcs p w) \<Longrightarrow> v < n \<Longrightarrow> v \<noteq> w \<Longrightarrow> \<not> holds_mutex (po_pcs p v)" for v
    using pool_okD(1) [OF ok, of v] pool_okD(1) [OF ok w] by simp
  show ?thesis
  proof (cases "po_pcs p w")
    case W_Take
    then have others: "\<forall>v<n. v \<noteq> w \<longrightarrow> po_pcs p v \<noteq> W_Take" using mine W_Take by (metis holds_mutex.simps(3))
    have gone: "\<forall>v<n. po_pcs p v = W_Returned \<longrightarrow> po_stop p \<and> po_queue p = []"
      using pool_okD(3) [OF ok] by blast
    have hold: "\<forall>v<n. holds_mutex (po_pcs p v) \<longleftrightarrow> v = w" using mine W_Take by auto
    show ?thesis
      using step W_Take main pool_okD(4) [OF ok] others gone hold
      by (auto simp: worker_step_def take_memtable_def pool_ok_def split: list.splits if_splits)
  qed (use step main free mine w ok in
    \<open>auto simp: worker_step_def pool_ok_def may_wake_def split: if_splits\<close>)
qed

lemma pool_ok_step: "pool_step n e p p' \<Longrightarrow> pool_ok n p \<Longrightarrow> pool_ok n p'"
proof (induction rule: pool_step.induct)
  case (worker w p p')
  then show ?case using pool_ok_worker by blast
next
  case (notify_one p k w)
  then show ?case by (auto simp: pool_ok_def may_wake_def)
next
  case (spurious w p)
  then show ?case by (auto simp: pool_ok_def may_wake_def)
next
  case (notify_all p)
  then show ?case by (auto simp: pool_ok_def may_wake_def notify_all_def)
next
  case (stop p)
  then show ?case by (auto simp: pool_ok_def may_wake_def store_stop_def)
next
  case (join p)
  then show ?case by (auto simp: pool_ok_def may_wake_def)
next
  case (notify_none p k)
  then show ?case by (auto simp: pool_ok_def may_wake_def)
next
  case (enqueue p m)
  then show ?case by (auto simp: pool_ok_def may_wake_def enqueue_def)
qed

lemma pool_run_ok: "pool_run n p p' \<Longrightarrow> pool_ok n p \<Longrightarrow> pool_ok n p'"
  by (induction rule: pool_run.induct) (auto intro: pool_ok_step)

section \<open>Shutting down\<close>

lemma quiet_step: "pool_step n e p p' \<Longrightarrow> pool_quiet n p \<Longrightarrow> pool_ok n p \<Longrightarrow> pool_quiet n p'"
proof (induction rule: pool_step.induct)
  case (worker w p p')
  have "po_pcs p w \<noteq> W_Sleep" using worker.prems(1) worker.hyps(1) by (simp add: pool_quiet_def)
  then show ?case
    using worker
    by (cases "po_pcs p w")
      (auto simp: worker_step_def take_memtable_def pool_quiet_def may_wake_def split: if_splits list.splits)
qed (auto simp: pool_quiet_def pool_ok_def notify_all_def)

lemma quiet_run:
  "pool_run n p p' \<Longrightarrow> pool_quiet n p \<Longrightarrow> pool_ok n p \<Longrightarrow> pool_quiet n p' \<and> pool_ok n p'"
  by (induction rule: pool_run.induct) (auto intro: quiet_step pool_ok_step)

text \<open>A bound on the steps that the workers and the destructor still take.\<close>

fun worker_left :: "worker_pc \<Rightarrow> nat" where
  "worker_left (W_Process m) = 5"
| "worker_left (W_Erase m) = 4"
| "worker_left W_Lock = 3"
| "worker_left W_Test = 2"
| "worker_left W_Take = 1"
| "worker_left W_Asleep = 3"
| "worker_left _ = 0"

fun stop_left :: "stop_pc \<Rightarrow> nat" where
  "stop_left Stopping = 2"
| "stop_left Joining = 1"
| "stop_left _ = 0"

definition pool_left :: "nat \<Rightarrow> pool \<Rightarrow> nat" where
  "pool_left n p = stop_left (po_main p) + 5 * length (po_queue p) + (\<Sum>w<n. worker_left (po_pcs p w))"

lemma sum_worker:
  assumes "w < n"
  shows "(\<Sum>v<n. f (((pcs :: nat \<Rightarrow> 'a)(w := pc)) v)) + f (pcs w) = (\<Sum>v<n. f (pcs v)) + (f pc :: nat)"
proof -
  have "(\<Sum>v<n. f ((pcs(w := pc)) v)) = f pc + (\<Sum>v\<in>{..<n} - {w}. f ((pcs(w := pc)) v))"
    using assms by (simp add: sum.remove [of "{..<n}" w])
  also have "(\<Sum>v\<in>{..<n} - {w}. f ((pcs(w := pc)) v)) = (\<Sum>v\<in>{..<n} - {w}. f (pcs v))"
    by (intro sum.cong) auto
  finally show ?thesis using assms sum.remove [of "{..<n}" w "\<lambda>v. f (pcs v)"] by simp
qed

lemma worker_step_left:
  assumes quiet: "pool_quiet n p" and w: "w < n" and step: "worker_step w p = Some p'"
  shows "pool_left n p' < pool_left n p"
proof -
  have sleep: "po_pcs p w \<noteq> W_Sleep" using quiet w by (simp add: pool_quiet_def)
  have "\<exists>pc. po_pcs p' = (po_pcs p)(w := pc) \<and> po_main p' = po_main p \<and>
    5 * length (po_queue p') + worker_left pc < 5 * length (po_queue p) + worker_left (po_pcs p w)"
  proof (cases "po_pcs p w")
    case W_Take
    then show ?thesis using step
      by (auto simp: worker_step_def take_memtable_def split: if_splits list.splits)
  qed (use step sleep quiet in \<open>auto simp: worker_step_def may_wake_def pool_quiet_def split: if_splits\<close>)
  then obtain pc where pc: "po_pcs p' = (po_pcs p)(w := pc)" "po_main p' = po_main p"
    "5 * length (po_queue p') + worker_left pc < 5 * length (po_queue p) + worker_left (po_pcs p w)" by blast
  then show ?thesis
    using sum_worker [OF w, of worker_left "po_pcs p" pc] unfolding pool_left_def pc(1,2) by linarith
qed

lemma pool_step_left:
  "pool_step n e p p' \<Longrightarrow> e = Inner \<Longrightarrow> pool_quiet n p \<Longrightarrow> pool_left n p' < pool_left n p"
proof (induction rule: pool_step.induct)
  case (worker w p p')
  then show ?case using worker_step_left by blast
next
  case (notify_all p)
  have "(\<Sum>w<n. worker_left (po_pcs (notify_all p) w)) = (\<Sum>w<n. worker_left (po_pcs p w))"
    by (intro sum.cong) (auto simp: notify_all_def)
  then show ?case using notify_all by (simp add: pool_left_def notify_all_def)
qed (simp_all add: pool_left_def)

text \<open>The worker that holds the mutex can go on, and if none does, any worker that has not returned.\<close>

lemma some_worker_steps:
  assumes ok: "pool_ok n p" and quiet: "pool_quiet n p" and main: "po_main p = Joining"
    and w: "w < n" "po_pcs p w \<noteq> W_Returned"
  shows "\<exists>v<n. \<exists>p'. worker_step v p = Some p'"
proof (cases "po_mutex p")
  case None
  have "\<not> holds_mutex (po_pcs p w)" using pool_okD(1) [OF ok w(1)] None by simp
  moreover have "po_pcs p w \<noteq> W_Asleep" using quiet main w(1) by (simp add: pool_quiet_def)
  ultimately show ?thesis
    using w None by (cases "po_pcs p w") (auto simp: worker_step_def intro!: exI [of _ w])
next
  case (Some v)
  then have v: "v < n" "holds_mutex (po_pcs p v)"
    using pool_okD(6) [OF ok Some] pool_okD(1) [OF ok, of v] by auto
  moreover have "po_pcs p v = W_Take \<Longrightarrow> po_stop p \<or> po_queue p \<noteq> []" using pool_okD(2) [OF ok v(1)] .
  ultimately show ?thesis
    by (cases "po_pcs p v")
      (auto simp: worker_step_def take_memtable_def intro!: exI [of _ v] split: list.splits)
qed

lemma shutdown_progress:
  assumes ok: "pool_ok n p" and quiet: "pool_quiet n p" and main: "po_main p \<noteq> Joined"
  shows "\<exists>p'. pool_step n Inner p p'"
proof (cases "po_main p")
  case Running
  then show ?thesis using pool_okD(4) [OF ok] quiet by (simp add: pool_quiet_def)
next
  case Stopping
  then show ?thesis by (blast intro: pool_step.notify_all)
next
  case Joining
  show ?thesis
  proof (cases "\<forall>w<n. po_pcs p w = W_Returned")
    case True
    then show ?thesis using Joining by (blast intro: pool_step.join)
  next
    case False
    then show ?thesis using some_worker_steps [OF ok quiet Joining] by (blast intro: pool_step.worker)
  qed
qed (use main in simp)

text \<open>One worker, caught: it finds nothing to do, the flag is set and the workers are notified, and it falls
  asleep.\<close>

lemma a_caught_worker_hangs:
  "\<exists>s t. pool_run 1 new_pool s \<and> po_main s = Running \<and> pool_run 1 (store_stop s) t \<and>
     po_main t = Joining \<and> (\<forall>t'. \<not> pool_step 1 Inner t t')"
proof -
  define a :: pool where "a = set_worker 0 W_Test (new_pool\<lparr>po_mutex := Some 0\<rparr>)"
  define s :: pool where "s = set_worker 0 W_Sleep a"
  define b :: pool where "b = notify_all (store_stop s)"
  define t :: pool where "t = set_worker 0 W_Asleep (b\<lparr>po_mutex := None\<rparr>)"
  have steps: "worker_step 0 new_pool = Some a" "worker_step 0 a = Some s" "worker_step 0 b = Some t"
    by (simp_all add: worker_step_def a_def s_def b_def t_def new_pool_def may_wake_def notify_all_def store_stop_def)
  have s: "pool_run 1 new_pool s"
    by (rule pool_run.snoc [OF pool_run.snoc [OF pool_run.nil pool_step.worker [OF _ steps(1)]]
      pool_step.worker [OF _ steps(2)]]) simp_all
  have "pool_step 1 Inner (store_stop s) b"
    unfolding b_def by (rule pool_step.notify_all) (simp add: store_stop_def)
  then have t: "pool_run 1 (store_stop s) t"
    by (rule pool_run.snoc [OF pool_run.snoc [OF pool_run.nil] pool_step.worker [OF _ steps(3)]]) simp
  have asleep: "po_pcs t 0 = W_Asleep" "po_main t = Joining" by (simp_all add: t_def b_def notify_all_def)
  have "\<not> pool_step 1 Inner t t'" for t'
    using asleep by (auto simp: worker_step_def elim: pool_step.cases)
  moreover have "po_main s = Running" by (simp add: s_def a_def new_pool_def)
  ultimately show ?thesis using s t asleep(2) by blast
qed



end
