(* ===== verification/Wire.thy ===== *)
theory Wire
  imports Hlc "HOL-Library.Monad_Syntax"
begin

text \<open>
  The wire format of mousedb, which the server (\<open>exe_server/src/server.{hpp,cpp}\<close>) and the
  client (\<open>client/src/client_main.cpp\<close>) each implement: frames with a length, a type and a
  payload in network byte order, and the fields of the payloads. A field read past the end of a
  payload, which the code does not check, is \<open>None\<close>.
\<close>

section \<open>Prefix codes\<close>

text \<open>What a receiver of a byte stream relies on: an encoding is recognised as a prefix.\<close>

locale prefix_codec =
  fixes enc :: "'a \<Rightarrow> bytes"
    and dec :: "bytes \<Rightarrow> ('a \<times> bytes) option"
    and ok :: "'a \<Rightarrow> bool"
  assumes dec_enc: "ok x \<Longrightarrow> dec (enc x @ zs) = Some (x, zs)"
    and dec_shorter: "dec bs = Some (x, zs) \<Longrightarrow> length zs < length bs"
begin

function dec_all :: "bytes \<Rightarrow> 'a list \<times> bytes" where
  "dec_all bs =
     (case dec bs of
        None \<Rightarrow> ([], bs)
      | Some (x, zs) \<Rightarrow> (let (xs, r) = dec_all zs in (x # xs, r)))"
  by pat_completeness auto
termination by (relation "measure length") (auto dest: dec_shorter)

declare dec_all.simps [simp del]

lemma dec_all_concat:
  assumes "\<forall>x \<in> set xs. ok x"
  shows "dec_all (concat (map enc xs) @ zs) = (let (ys, r) = dec_all zs in (xs @ ys, r))"
  using assms
proof (induction xs)
  case (Cons x xs)
  then show ?case
    using dec_enc [of x "concat (map enc xs) @ zs"]
    by (subst dec_all.simps) (auto split: prod.splits)
qed simp

end

section \<open>Fields\<close>

definition take_field :: "nat \<Rightarrow> bytes \<Rightarrow> (bytes \<times> bytes) option" where
  "take_field n p = (if length p < n then None else Some (take n p, drop n p))"

definition get_u16 :: "bytes \<Rightarrow> (u16 \<times> bytes) option" where
  "get_u16 p = do { (bs, p) \<leftarrow> take_field 2 p; Some (be_word bs, p) }"

definition get_u32 :: "bytes \<Rightarrow> (u32 \<times> bytes) option" where
  "get_u32 p = do { (bs, p) \<leftarrow> take_field 4 p; Some (be_word bs, p) }"

definition get_u64 :: "bytes \<Rightarrow> (u64 \<times> bytes) option" where
  "get_u64 p = do { (bs, p) \<leftarrow> take_field 8 p; Some (be_word bs, p) }"

definition encode_hlc :: "hlc \<Rightarrow> bytes" where
  "encode_hlc c = be_bytes 8 (physical_us c) @ be_bytes 2 (logical c) @ be_bytes 4 (node_id c)"

definition decode_hlc :: "bytes \<Rightarrow> hlc option" where
  "decode_hlc p = do {
     (phys, p) \<leftarrow> get_u64 p;
     (log, p) \<leftarrow> get_u16 p;
     (id, p) \<leftarrow> get_u32 p;
     Some (HLC phys log id)
   }"

lemma take_field_append [codec_simps]: "n = length bs \<Longrightarrow> take_field n (bs @ p) = Some (bs, p)"
  by (simp add: take_field_def)

lemma get_be_append [codec_simps]:
  "get_u16 (be_bytes 2 a @ p) = Some (a, p)"
  "get_u32 (be_bytes 4 b @ p) = Some (b, p)"
  "get_u64 (be_bytes 8 c @ p) = Some (c, p)"
  by (simp_all add: get_u16_def get_u32_def get_u64_def codec_simps)

lemma decode_encode_hlc [codec_simps]: "decode_hlc (encode_hlc c @ p) = Some c"
  by (cases c) (simp add: decode_hlc_def encode_hlc_def codec_simps)

lemma length_encode_hlc [simp]: "length (encode_hlc c) = 14"
  by (simp add: encode_hlc_def)

section \<open>Frames\<close>

datatype frame_type =
  IDENTIFY | WAL_APPEND | HEARTBEAT | PEER | WRITE_REQ | WRITE_RESP | READ_REQ | READ_RESP

text \<open>The underlying values of the enumeration; a received number need not be one of them.\<close>

definition type_code :: "frame_type \<Rightarrow> u16" where
  "type_code t =
     (case t of IDENTIFY \<Rightarrow> 0 | WAL_APPEND \<Rightarrow> 1 | HEARTBEAT \<Rightarrow> 2 | PEER \<Rightarrow> 3 | WRITE_REQ \<Rightarrow> 4
      | WRITE_RESP \<Rightarrow> 5 | READ_REQ \<Rightarrow> 6 | READ_RESP \<Rightarrow> 7)"

record message =
  msg_type :: u16
  payload :: bytes

definition message_of :: "frame_type \<Rightarrow> bytes \<Rightarrow> message" where
  "message_of t p = \<lparr>msg_type = type_code t, payload = p\<rparr>"

text \<open>\<open>Message::to_buffers\<close>: the header and the payload as they go out.\<close>

definition to_buffers :: "message \<Rightarrow> bytes" where
  "to_buffers m =
     be_bytes 4 (of_nat (length (payload m) + 4) :: u32) @ be_bytes 2 (msg_type m) @ [0, 0] @ payload m"

text \<open>
  The chain of reads of \<open>Session::process_message\<close> on the bytes a session receives: the
  length, which is checked, the type, the reserved bytes and the body.
\<close>

datatype frame_result = Need_More | Bad_Length | Frame message bytes

definition read_frame :: "bytes \<Rightarrow> frame_result" where
  "read_frame bs =
     (case get_u32 bs of
        None \<Rightarrow> Need_More
      | Some (len, bs) \<Rightarrow>
          if len < 4 \<or> len > push_bit 20 1 then Bad_Length
          else
            (case get_u16 bs of
               None \<Rightarrow> Need_More
             | Some (typ, bs) \<Rightarrow>
                 (case take_field 2 bs of
                    None \<Rightarrow> Need_More
                  | Some (rsv, bs) \<Rightarrow>
                      (case take_field (unat (len - 4)) bs of
                         None \<Rightarrow> Need_More
                       | Some (body, bs) \<Rightarrow> Frame \<lparr>msg_type = typ, payload = body\<rparr> bs))))"

definition next_frame :: "bytes \<Rightarrow> (message \<times> bytes) option" where
  "next_frame bs = (case read_frame bs of Frame m bs \<Rightarrow> Some (m, bs) | _ \<Rightarrow> None)"

text \<open>The client's \<open>read_msg\<close> checks no length: a small one wraps.\<close>

definition read_msg :: "bytes \<Rightarrow> (message \<times> bytes) option" where
  "read_msg bs = do {
     (len, bs) \<leftarrow> get_u32 bs;
     (typ, bs) \<leftarrow> get_u16 bs;
     (rsv, bs) \<leftarrow> take_field 2 bs;
     (body, bs) \<leftarrow> take_field (unat (len - 4)) bs;
     Some (\<lparr>msg_type = typ, payload = body\<rparr>, bs)
   }"

definition sendable :: "message \<Rightarrow> bool" where
  "sendable m \<longleftrightarrow> length (payload m) \<le> 2 ^ 20 - 4"

lemma frame_len:
  assumes "n \<le> 2 ^ 20 - 4"
  shows "unat (of_nat (n + 4) :: u32) = n + 4" "unat ((of_nat (n + 4) :: u32) - 4) = n"
    "\<not> (of_nat (n + 4) :: u32) < 4" "\<not> (of_nat (n + 4) :: u32) > push_bit 20 1"
proof -
  show 1: "unat (of_nat (n + 4) :: u32) = n + 4"
    using assms by (subst unat_of_nat) simp
  show 2: "\<not> (of_nat (n + 4) :: u32) < 4" by (simp only: word_less_nat_alt 1) simp
  show "unat ((of_nat (n + 4) :: u32) - 4) = n"
    using 1 2 unat_sub [of 4 "of_nat (n + 4) :: u32"] by (simp only: not_less) simp
  show "\<not> (of_nat (n + 4) :: u32) > push_bit 20 1"
    using assms by (simp only: word_less_nat_alt 1) simp
qed

lemma read_frame_append [codec_simps]:
  "sendable m \<Longrightarrow> read_frame (to_buffers m @ zs) = Frame m zs"
  using frame_len [of "length (payload m)"]
  by (simp add: sendable_def read_frame_def to_buffers_def get_be_append
      take_field_append [of 2 "[0, 0]", simplified] take_field_append del: of_nat_add)

lemma read_msg_append [codec_simps]:
  "sendable m \<Longrightarrow> read_msg (to_buffers m @ zs) = Some (m, zs)"
  using frame_len [of "length (payload m)"]
  by (simp add: sendable_def read_msg_def to_buffers_def get_be_append
      take_field_append [of 2 "[0, 0]", simplified] take_field_append del: of_nat_add)

lemma take_field_shorter: "take_field n p = Some (bs, p') \<Longrightarrow> length p' \<le> length p"
  by (auto simp: take_field_def split: if_splits)

lemma get_u32_shorter: "get_u32 p = Some (w, p') \<Longrightarrow> length p' < length p"
  by (auto simp: get_u32_def take_field_def split: Option.bind_splits if_splits)

lemma get_u16_shorter: "get_u16 p = Some (w, p') \<Longrightarrow> length p' < length p"
  by (auto simp: get_u16_def take_field_def split: Option.bind_splits if_splits)

lemma next_frame_shorter: "next_frame bs = Some (m, zs) \<Longrightarrow> length zs < length bs"
  by (auto simp: next_frame_def read_frame_def dest!: get_u32_shorter get_u16_shorter take_field_shorter
      split: option.splits prod.splits if_splits frame_result.splits)

lemma read_msg_shorter: "read_msg bs = Some (m, zs) \<Longrightarrow> length zs < length bs"
  by (auto simp: read_msg_def dest!: get_u32_shorter get_u16_shorter take_field_shorter
      split: Option.bind_splits)

interpretation server_frames: prefix_codec to_buffers next_frame sendable
  by unfold_locales (simp_all add: next_frame_def codec_simps next_frame_shorter [unfolded next_frame_def])

interpretation client_frames: prefix_codec to_buffers read_msg sendable
  by unfold_locales (simp_all add: codec_simps read_msg_shorter)

section \<open>Requests\<close>

text \<open>The payloads of the requests, and the chains of reads that take them apart.\<close>

definition write_req :: "bytes \<Rightarrow> bytes \<Rightarrow> hlc \<Rightarrow> bytes" where
  "write_req key val c =
     be_bytes 2 (of_nat (length key) :: u16) @ key @ be_bytes 4 (of_nat (length val) :: u32) @ val @
     encode_hlc c"

definition read_req :: "bytes \<Rightarrow> bytes" where
  "read_req key = be_bytes 2 (of_nat (length key) :: u16) @ key"

definition parse_write_req :: "bytes \<Rightarrow> (bytes \<times> bytes \<times> hlc) option" where
  "parse_write_req p = do {
     (klen, p) \<leftarrow> get_u16 p;
     (key, p) \<leftarrow> take_field (unat klen) p;
     (vlen, p) \<leftarrow> get_u32 p;
     (val, p) \<leftarrow> take_field (unat vlen) p;
     remote_ts \<leftarrow> decode_hlc p;
     Some (key, val, remote_ts)
   }"

definition parse_read_req :: "bytes \<Rightarrow> bytes option" where
  "parse_read_req p = do {
     (klen, p) \<leftarrow> get_u16 p;
     (key, p) \<leftarrow> take_field (unat klen) p;
     Some key
   }"

definition read_resp :: "(bytes \<times> hlc) option \<Rightarrow> bytes" where
  "read_resp vr =
     (case vr of
        Some (val, clock) \<Rightarrow>
          [0] @ be_bytes 4 (of_nat (length val) :: u32) @ val @ encode_hlc clock
      | None \<Rightarrow> [1])"

text \<open>How the client reads the answer to a GET.\<close>

datatype get_answer = Get_Error | Not_Found | Got_Value bytes hlc

definition parse_read_resp :: "message \<Rightarrow> get_answer option" where
  "parse_read_resp m =
     (let body = payload m in
      if msg_type m \<noteq> type_code READ_RESP \<or> body = [] then Some Get_Error
      else if body ! 0 = 1 then Some Not_Found
      else do {
        (vlen, p) \<leftarrow> get_u32 (drop 1 body);
        (val, p) \<leftarrow> take_field (unat vlen) p;
        ts \<leftarrow> decode_hlc p;
        Some (Got_Value val ts)
      })"

text \<open>And to a PUT.\<close>

definition parse_write_resp :: "message \<Rightarrow> bool" where
  "parse_write_resp m \<longleftrightarrow>
     msg_type m = type_code WRITE_RESP \<and> payload m \<noteq> [] \<and> payload m ! 0 = 0"

record address =
  host :: bytes
  port :: int

text \<open>The payload of IDENTIFY and PEER, and how both are read.\<close>

definition address_payload :: "address \<Rightarrow> bytes" where
  "address_payload a =
     be_bytes 2 (of_nat (length (host a)) :: u16) @ host a @ be_bytes 2 (of_int (port a) :: u16)"

definition parse_address :: "bytes \<Rightarrow> address option" where
  "parse_address p = do {
     (hlen, p) \<leftarrow> get_u16 p;
     (h, p) \<leftarrow> take_field (unat hlen) p;
     (prt, p) \<leftarrow> get_u16 p;
     Some \<lparr>host = h, port = uint prt\<rparr>
   }"

definition address_ok :: "address \<Rightarrow> bool" where
  "address_ok a \<longleftrightarrow> length (host a) < 2 ^ 16 \<and> 0 \<le> port a \<and> port a < 2 ^ 16"

lemma unat_of_length:
  "length xs < 2 ^ 16 \<Longrightarrow> unat (of_nat (length xs) :: u16) = length xs"
  "length xs < 2 ^ 32 \<Longrightarrow> unat (of_nat (length xs) :: u32) = length xs"
  by (simp_all add: unat_of_nat)

lemma parse_write_req_append [codec_simps]:
  "length key < 2 ^ 16 \<Longrightarrow> length val < 2 ^ 32 \<Longrightarrow>
    parse_write_req (write_req key val c @ zs) = Some (key, val, c)"
  using unat_of_length(1) [of key] unat_of_length(2) [of val]
  by (simp add: parse_write_req_def write_req_def codec_simps)

lemma parse_read_req_append [codec_simps]:
  "length key < 2 ^ 16 \<Longrightarrow> parse_read_req (read_req key @ zs) = Some key"
  using unat_of_length(1) [of key]
  by (simp add: parse_read_req_def read_req_def codec_simps)

lemma parse_address_append [codec_simps]:
  "address_ok a \<Longrightarrow> parse_address (address_payload a @ zs) = Some a"
  using unat_of_length(1) [of "host a"]
  by (cases a) (simp add: parse_address_def address_payload_def codec_simps address_ok_def
      uint_word_of_int)

section \<open>Properties\<close>

text \<open>C33: whatever frames one side sends one after another, the other recovers exactly those
  frames in their order, and is left with what follows them; the same holds for the client's
  reader, which checks no length.\<close>
theorem frames_roundtrip:
  assumes "\<forall>m \<in> set ms. sendable m"
  shows "server_frames.dec_all (concat (map to_buffers ms) @ zs) =
      (let (ms', r) = server_frames.dec_all zs in (ms @ ms', r)) \<and>
    client_frames.dec_all (concat (map to_buffers ms) @ zs) =
      (let (ms', r) = client_frames.dec_all zs in (ms @ ms', r))"
  using server_frames.dec_all_concat [OF assms] client_frames.dec_all_concat [OF assms] by simp

theorem frames_roundtrip_witness:
  "server_frames.dec_all (concat (map to_buffers
     [message_of READ_REQ (read_req [107]), message_of HEARTBEAT []]) @ []) =
     ([message_of READ_REQ (read_req [107]), message_of HEARTBEAT []], [])"
proof -
  have "server_frames.dec_all [] = ([], [])"
    by (subst server_frames.dec_all.simps)
      (simp add: next_frame_def read_frame_def get_u32_def take_field_def)
  moreover have ok: "\<forall>m \<in> set [message_of READ_REQ (read_req [107]), message_of HEARTBEAT []]. sendable m"
    by (simp add: message_of_def sendable_def read_req_def)
  ultimately show ?thesis
    using conjunct1 [OF frames_roundtrip [OF ok, of "[]"]] by (simp only:) simp
qed

text \<open>A request or an answer is read back by the other side as what it was made from, for keys
  shorter than \<open>2^16\<close> and values shorter than \<open>2^32\<close> bytes.\<close>
theorem requests_roundtrip:
  assumes "length key < 2 ^ 16" and "length val < 2 ^ 32" and "address_ok a"
  shows "parse_write_req (write_req key val c) = Some (key, val, c) \<and>
    parse_read_req (read_req key) = Some key \<and>
    parse_address (address_payload a) = Some a \<and>
    parse_read_resp (message_of READ_RESP (read_resp (Some (val, c)))) = Some (Got_Value val c) \<and>
    parse_read_resp (message_of READ_RESP (read_resp None)) = Some Not_Found"
proof -
  have "parse_read_resp (message_of READ_RESP (read_resp (Some (val, c)))) = Some (Got_Value val c)"
    using unat_of_length(2) [OF assms(2)] decode_encode_hlc [of c "[]"]
    by (simp add: parse_read_resp_def message_of_def read_resp_def codec_simps)
  moreover have "parse_read_resp (message_of READ_RESP (read_resp None)) = Some Not_Found"
    by (simp add: parse_read_resp_def message_of_def read_resp_def)
  ultimately show ?thesis
    using parse_write_req_append [OF assms(1,2), of c "[]"] parse_read_req_append [OF assms(1), of "[]"]
      parse_address_append [OF assms(3), of "[]"]
    by simp
qed

theorem requests_roundtrip_witness:
  "parse_write_req (write_req [107, 49] [52, 50] (HLC 5 1 2)) = Some ([107, 49], [52, 50], HLC 5 1 2) \<and>
   parse_address (address_payload \<lparr>host = [104], port = 8080\<rparr>) = Some \<lparr>host = [104], port = 8080\<rparr>"
  using requests_roundtrip [of "[107, 49]" "[52, 50]" "\<lparr>host = [104], port = 8080\<rparr>" "HLC 5 1 2"]
  by (simp add: address_ok_def)

end
