(* ===== verification/Server.thy ===== *)
theory Server
  imports Wire Database
begin

text \<open>
  The mousedb server (\<open>exe_server/src/server.{hpp,cpp}\<close>): its sessions and the frames they
  queue, the peer discovery, and the key-value requests on the database with the hybrid clock.
  Boost.Asio is the environment: what it completes are the events of \<open>server_step\<close>, each of
  which runs one completion handler to its end.
\<close>

section \<open>State\<close>

text \<open>\<open>Address::operator<\<close>.\<close>

definition address_less :: "address \<Rightarrow> address \<Rightarrow> bool" where
  "address_less a b \<longleftrightarrow> host a < host b \<or> host a = host b \<and> port a < port b"

text \<open>\<open>s_sent\<close> are the bytes whose writing has completed.\<close>

record session =
  s_remote :: address
  s_outbound :: bool
  s_write_q :: "message list"
  s_sent :: bytes

text \<open>A session is known by its pointer, a number here. The map of sessions has no particular
  order; neither has the list. \<open>m_dialing\<close> are the connections being attempted.\<close>

record 'b manager =
  m_self :: address
  m_hlc :: hybrid_clock
  m_db :: "'b database"
  m_sessions :: "(nat \<times> session) list"
  m_dialing :: "address list"

definition is_server_peer :: "session \<Rightarrow> bool" where
  "is_server_peer s \<longleftrightarrow> port (s_remote s) \<noteq> 0"

definition on_session :: "nat \<Rightarrow> (session \<Rightarrow> session) \<Rightarrow> 'b manager \<Rightarrow> 'b manager" where
  "on_session sid f mgr =
     mgr\<lparr>m_sessions := map (\<lambda>(i, s). (i, if i = sid then f s else s)) (m_sessions mgr)\<rparr>"

section \<open>Sessions\<close>

definition session_send :: "message \<Rightarrow> session \<Rightarrow> session" where
  "session_send m s = s\<lparr>s_write_q := s_write_q s @ [m]\<rparr>"

definition send :: "nat \<Rightarrow> message \<Rightarrow> 'b manager \<Rightarrow> 'b manager" where
  "send sid m = on_session sid (session_send m)"

definition set_remote :: "nat \<Rightarrow> address \<Rightarrow> 'b manager \<Rightarrow> 'b manager" where
  "set_remote sid a = on_session sid (\<lambda>s. s\<lparr>s_remote := a\<rparr>)"

definition forget :: "nat \<Rightarrow> 'b manager \<Rightarrow> 'b manager" where
  "forget sid mgr = mgr\<lparr>m_sessions := filter (\<lambda>(i, s). i \<noteq> sid) (m_sessions mgr)\<rparr>"

text \<open>The constructor of a session leaves the port of \<open>remote_\<close> uninitialised; \<open>junk\<close> is it.\<close>

definition new_session :: "int \<Rightarrow> bool \<Rightarrow> session" where
  "new_session junk outbound =
     \<lparr>s_remote = \<lparr>host = [], port = junk\<rparr>, s_outbound = outbound, s_write_q = [], s_sent = []\<rparr>"

text \<open>\<open>Session::start\<close>: the side that dialled introduces itself.\<close>

definition session_start :: "address \<Rightarrow> session \<Rightarrow> session" where
  "session_start self s =
     (if s_outbound s then session_send (message_of IDENTIFY (address_payload self)) s else s)"

text \<open>The completion handler of \<open>do_write\<close>.\<close>

definition write_done :: "session \<Rightarrow> session" where
  "write_done s =
     (case s_write_q s of
        [] \<Rightarrow> s
      | m # ms \<Rightarrow> s\<lparr>s_write_q := ms, s_sent := s_sent s @ to_buffers m\<rparr>)"

section \<open>Peers\<close>

definition connected :: "'b manager \<Rightarrow> address \<Rightarrow> bool" where
  "connected mgr a \<longleftrightarrow> list_ex (\<lambda>(i, s). s_remote s = a) (m_sessions mgr)"

definition connect_to :: "address \<Rightarrow> 'b manager \<Rightarrow> 'b manager" where
  "connect_to a mgr =
     (if a = m_self mgr \<or> connected mgr a \<or> \<not> address_less a (m_self mgr) then mgr
      else mgr\<lparr>m_dialing := m_dialing mgr @ [a]\<rparr>)"

definition peer_message :: "address \<Rightarrow> message" where
  "peer_message a = message_of PEER (address_payload a)"

text \<open>The two loops of \<open>broadcast_peer\<close>; \<open>send_peer\<close> is sending a \<open>peer_message\<close>.\<close>

definition broadcast_peer :: "address \<Rightarrow> nat \<Rightarrow> 'b manager \<Rightarrow> 'b manager" where
  "broadcast_peer newcomer skip mgr =
     (let mgr = fold (\<lambda>(i, s) mgr. if i \<noteq> skip then send i (peer_message newcomer) mgr else mgr)
                  (m_sessions mgr) mgr
      in if skip \<in> fst ` set (m_sessions mgr)
         then fold (\<lambda>(i, s) mgr. if i \<noteq> skip then send skip (peer_message (s_remote s)) mgr else mgr)
                (m_sessions mgr) mgr
         else mgr)"

definition on_identify :: "nat \<Rightarrow> address \<Rightarrow> 'b manager \<Rightarrow> 'b manager" where
  "on_identify sid a mgr = broadcast_peer a sid (set_remote sid a mgr)"

definition send_all :: "message \<Rightarrow> 'b manager \<Rightarrow> 'b manager" where
  "send_all m mgr =
     mgr\<lparr>m_sessions :=
       map (\<lambda>(i, s). (i, if is_server_peer s then session_send m s else s)) (m_sessions mgr)\<rparr>"

section \<open>Requests\<close>

definition kv_put :: "nat \<Rightarrow> nat option \<Rightarrow> bytes \<Rightarrow> bytes \<Rightarrow> hlc \<Rightarrow> 'b manager \<Rightarrow> 'b manager" where
  "kv_put t busy k v ts mgr = mgr\<lparr>m_db := db_insert (m_db mgr) t busy k v ts\<rparr>"

text \<open>\<open>ValueRec{res_str}\<close> leaves the clock at zero.\<close>

definition kv_get :: "bytes \<Rightarrow> 'b manager \<Rightarrow> (bytes \<times> hlc) option option" where
  "kv_get k mgr = map_option (map_option (\<lambda>v. (v, HLC 0 0 0))) (db_find (m_db mgr) k)"

text \<open>
  The switch of \<open>process_message\<close>, run by thread \<open>t\<close>. \<open>None\<close> is a field read past the
  end of the body or a look-up that never returns.
\<close>

definition handle_message ::
    "nat \<Rightarrow> nat option \<Rightarrow> u64 \<Rightarrow> nat \<Rightarrow> message \<Rightarrow> 'b manager \<Rightarrow> 'b manager option" where
  "handle_message t busy now sid m mgr =
     (if msg_type m = type_code WRITE_REQ then do {
        (key, val, remote_ts) \<leftarrow> parse_write_req (payload m);
        let (merged, hlc') = recv_and_merge (m_hlc mgr) now remote_ts;
        let mgr = kv_put t busy key val merged (mgr\<lparr>m_hlc := hlc'\<rparr>);
        Some (send sid (message_of WRITE_RESP [0]) mgr)
      }
      else if msg_type m = type_code READ_REQ then do {
        key \<leftarrow> parse_read_req (payload m);
        vr \<leftarrow> kv_get key mgr;
        Some (send sid (message_of READ_RESP (read_resp vr)) mgr)
      }
      else if msg_type m = type_code IDENTIFY then do {
        a \<leftarrow> parse_address (payload m);
        Some (on_identify sid a (set_remote sid a mgr))
      }
      else if msg_type m = type_code PEER then do {
        a \<leftarrow> parse_address (payload m);
        Some (connect_to a mgr)
      }
      else Some mgr)"

section \<open>Events\<close>

text \<open>\<open>Taken\<close> is the database's worker taking a memtable; it does not involve the server.\<close>

text \<open>A session whose very first read fails is not forgotten; any later failure forgets it.\<close>

datatype server_event =
    Accepted nat int
  | Dialed address nat int
  | Dial_Failed address
  | Received nat "nat option" u64 nat message
  | Bad_Frame nat
  | First_Read_Failed nat
  | Read_Failed nat
  | Written nat
  | Write_Failed nat
  | Heartbeat
  | Taken

fun server_step :: "server_event \<Rightarrow> 'b manager \<Rightarrow> 'b manager option" where
  "server_step (Accepted sid junk) mgr =
     Some (mgr\<lparr>m_sessions := m_sessions mgr @ [(sid, session_start (m_self mgr) (new_session junk False))]\<rparr>)"
| "server_step (Dialed a sid junk) mgr =
     Some (mgr\<lparr>m_dialing := remove1 a (m_dialing mgr),
       m_sessions := m_sessions mgr @
         [(sid, session_start (m_self mgr) ((new_session junk True)\<lparr>s_remote := a\<rparr>))]\<rparr>)"
| "server_step (Dial_Failed a) mgr = Some (mgr\<lparr>m_dialing := remove1 a (m_dialing mgr)\<rparr>)"
| "server_step (Received t busy now sid m) mgr = handle_message t busy now sid m mgr"
| "server_step (Bad_Frame sid) mgr = Some (forget sid mgr)"
| "server_step (First_Read_Failed sid) mgr = Some mgr"
| "server_step (Read_Failed sid) mgr = Some (forget sid mgr)"
| "server_step (Written sid) mgr = Some (on_session sid write_done mgr)"
| "server_step (Write_Failed sid) mgr = Some (forget sid mgr)"
| "server_step Heartbeat mgr = Some (send_all (message_of HEARTBEAT []) mgr)"
| "server_step Taken mgr = Some (mgr\<lparr>m_db := worker_take (m_db mgr)\<rparr>)"

definition new_manager :: "address \<Rightarrow> u64 \<Rightarrow> 'b database \<Rightarrow> 'b manager" where
  "new_manager self now db =
     \<lparr>m_self = self, m_hlc = new_clock (of_int (port self)) now, m_db = db, m_sessions = [], m_dialing = []\<rparr>"

text \<open>\<open>ConnectionManager::run\<close>.\<close>

definition run_manager :: "address option \<Rightarrow> 'b manager \<Rightarrow> 'b manager" where
  "run_manager join mgr = (case join of None \<Rightarrow> mgr | Some a \<Rightarrow> connect_to a mgr)"

section \<open>Reads see the last write\<close>

text \<open>The writes a handled frame performs.\<close>

fun event_writes :: "server_event \<Rightarrow> 'b manager \<Rightarrow> db_write list" where
  "event_writes (Received t busy now sid m) mgr =
     (if msg_type m = type_code WRITE_REQ then
        (case parse_write_req (payload m) of
           Some (key, val, remote_ts) \<Rightarrow> [(key, fst (recv_and_merge (m_hlc mgr) now remote_ts), val)]
         | None \<Rightarrow> [])
      else [])"
| "event_writes _ mgr = []"

text \<open>
  \<open>clock_ok\<close>: either nothing is cut off from any stamp, or the wall clock is past what the
  packed word can hold, as it has been since 1978, ahead of the client's stamp, and has moved on by
  a microsecond or more since the last write.
\<close>

definition clock_ok :: "hybrid_clock \<Rightarrow> db_write list \<Rightarrow> u64 \<Rightarrow> hlc \<Rightarrow> bool" where
  "clock_ok c ws now r \<longleftrightarrow>
     (if list_all (\<lambda>w. physical_us (fst (snd w)) < 2 ^ 48) ws \<and> now < 2 ^ 48
      then headroom (hc_state c) now (Some r)
      else 2 ^ 48 \<le> now \<and> physical_us r < now \<and>
        list_all (\<lambda>w. physical_us (fst (snd w)) < now) ws)"

fun event_ok :: "server_event \<Rightarrow> 'b manager \<Rightarrow> db_write list \<Rightarrow> bool" where
  "event_ok (Received t busy now sid m) mgr ws \<longleftrightarrow>
     length (payload m) < 2 ^ 20 \<and>
     (msg_type m = type_code WRITE_REQ \<longrightarrow>
        (case parse_write_req (payload m) of
           Some (key, val, remote_ts) \<Rightarrow> clock_ok (m_hlc mgr) ws now remote_ts
         | None \<Rightarrow> True))"
| "event_ok _ mgr ws \<longleftrightarrow> True"

text \<open>The runs of a server on a fresh database, with the writes handled so far, latest first.\<close>

inductive server_run :: "platform \<Rightarrow> nat \<Rightarrow> 'b manager \<Rightarrow> db_write list \<Rightarrow> bool" for pf threshold where
  init: "open_database pf fresh threshold t cpu_id [] [] files = Inr db \<Longrightarrow>
     server_run pf threshold (run_manager join (new_manager self now db)) []"
| step: "server_run pf threshold mgr ws \<Longrightarrow> event_ok ev mgr ws \<Longrightarrow> server_step ev mgr = Some mgr' \<Longrightarrow>
     server_run pf threshold mgr' (event_writes ev mgr @ ws)"

definition last_write :: "db_write list \<Rightarrow> bytes \<Rightarrow> bytes option" where
  "last_write ws key =
     (case find (\<lambda>(k, c, v). k = key) ws of
        None \<Rightarrow> None
      | Some (k, c, v) \<Rightarrow> if v = [] then None else Some v)"

definition clock_parts :: "hlc \<Rightarrow> u64 \<times> u16" where
  "clock_parts c = (physical_us c, logical c)"

definition server_inv :: "'b manager \<Rightarrow> db_write list \<Rightarrow> bool" where
  "server_inv mgr ws \<longleftrightarrow>
     db_abs (m_db mgr) ws \<and> \<not> sst_locked (m_db mgr) \<and>
     sorted_wrt (\<lambda>a b. fst (snd b) < fst (snd a)) ws \<and>
     (list_all (\<lambda>w. physical_us (fst (snd w)) < 2 ^ 48) ws \<longrightarrow>
        list_all (\<lambda>w. \<not> after_parts (clock_parts (fst (snd w))) (unpack (hc_state (m_hlc mgr)))) ws)"

lemma lww_select_sorted:
  assumes "sorted_wrt (\<lambda>a b. clk b < clk a) xs"
  shows "lww_select clk xs = (case xs of [] \<Rightarrow> None | x # _ \<Rightarrow> Some x)"
proof (cases xs)
  case (Cons x ys)
  have "lww_scan clk x ys = x" if "\<forall>y \<in> set ys. clk y < clk x" for ys
    using that by (induction ys) (auto dest: less_asym)
  then show ?thesis using Cons assms by (simp add: lww_select_def)
qed simp

lemma sorted_distinct_stamps:
  assumes "sorted_wrt (\<lambda>a b. fst (snd b) < fst (snd a)) ws"
  shows "distinct_stamps ws"
proof -
  have "distinct_stamps ws" if "sorted_wrt (\<lambda>a b. fst (snd b) < fst (snd a)) ws" for ws :: "db_write list"
    using that by (induction ws) (auto simp: distinct_stamps_def)
  then show ?thesis using assms .
qed

lemma find_filter: "(case filter P xs of [] \<Rightarrow> None | x # ys \<Rightarrow> Some x) = find P xs"
  by (induction xs) auto

lemma latest_sorted:
  assumes "sorted_wrt (\<lambda>a b. fst (snd b) < fst (snd a)) ws"
  shows "latest ws key = last_write ws key"
proof -
  let ?P = "\<lambda>(k, c, v). k = key"
  have "sorted_wrt (\<lambda>a b. (fst \<circ> snd) b < (fst \<circ> snd) a) (filter ?P ws)"
    using sorted_wrt_filter [OF assms] by simp
  from lww_select_sorted [OF this] have "lww_select (fst \<circ> snd) (filter ?P ws) = find ?P ws"
    by (simp only: find_filter)
  then show ?thesis by (simp add: latest_def last_write_def)
qed

section \<open>What the events leave alone\<close>

text \<open>Only a handled WRITE\_REQ touches the clock, and only it and the worker the database.\<close>

definition same_store :: "'b manager \<Rightarrow> 'b manager \<Rightarrow> bool" where
  "same_store mgr mgr' \<longleftrightarrow> m_db mgr' = m_db mgr \<and> m_hlc mgr' = m_hlc mgr \<and> m_self mgr' = m_self mgr"

named_theorems store_intros

lemma same_store_refl [store_intros]: "same_store mgr mgr"
  by (simp add: same_store_def)

lemma same_store_trans: "same_store a b \<Longrightarrow> same_store b c \<Longrightarrow> same_store a c"
  by (simp add: same_store_def)

lemma same_store_session [store_intros]:
  "same_store mgr (on_session sid f mgr)" "same_store mgr (send sid m mgr)"
  "same_store mgr (set_remote sid a mgr)" "same_store mgr (forget sid mgr)"
  "same_store mgr (connect_to a mgr)" "same_store mgr (send_all m mgr)"
  by (simp_all add: same_store_def on_session_def send_def set_remote_def forget_def connect_to_def
      send_all_def)

lemma same_store_send: "same_store mgr mgr' \<Longrightarrow> same_store mgr (send sid m mgr')"
  by (erule same_store_trans) (rule same_store_session)

lemma same_store_fold:
  "same_store mgr mgr' \<Longrightarrow>
    same_store mgr (fold (\<lambda>(i, s) mgr. if i \<noteq> skip then send (f i) (g s) mgr else mgr) xs mgr')"
  by (induction xs arbitrary: mgr') (auto simp: same_store_send)

lemma same_store_broadcast [store_intros]: "same_store mgr (broadcast_peer a skip mgr)"
  unfolding broadcast_peer_def Let_def
  by (simp add: same_store_fold same_store_refl same_store_fold [where f = "\<lambda>i. i"]
      same_store_fold [where f = "\<lambda>i. skip"])

lemma same_store_identify [store_intros]: "same_store mgr (on_identify sid a (set_remote sid a mgr))"
  unfolding on_identify_def
  using same_store_trans [OF same_store_trans [OF same_store_session(3) same_store_session(3)] same_store_broadcast] .

lemma server_inv_same: "same_store mgr mgr' \<Longrightarrow> server_inv mgr' ws = server_inv mgr ws"
  by (simp add: same_store_def server_inv_def)

section \<open>The invariant\<close>

lemma take_field_length: "take_field n p = Some (bs, p') \<Longrightarrow> length bs \<le> length p \<and> length p' \<le> length p"
  by (auto simp: take_field_def split: if_splits)

lemma get_length:
  "get_u16 p = Some (w, p') \<Longrightarrow> length p' \<le> length p"
  "get_u32 p = Some (w', p') \<Longrightarrow> length p' \<le> length p"
  using get_u16_shorter [of p w p'] get_u32_shorter [of p w' p'] by simp_all

lemma parse_write_req_length:
  assumes "parse_write_req p = Some (key, val, c)"
  shows "length key \<le> length p \<and> length val \<le> length p"
proof -
  obtain klen p1 p2 vlen p3 p4 where
    "get_u16 p = Some (klen, p1)" "take_field (unat klen) p1 = Some (key, p2)"
    "get_u32 p2 = Some (vlen, p3)" "take_field (unat vlen) p3 = Some (val, p4)"
    using assms by (auto simp: parse_write_req_def split: Option.bind_splits)
  then have "length p1 \<le> length p" "length key \<le> length p1" "length p2 \<le> length p1"
    "length p3 \<le> length p2" "length val \<le> length p3"
    by (simp_all add: get_length take_field_length)
  then show ?thesis by linarith
qed

lemma after_parts_beyond: "after_parts a b \<Longrightarrow> \<not> after_parts c b \<Longrightarrow> after_parts a c"
  by (auto simp: after_parts_def)

lemma merge_past_2p48:
  assumes "2 ^ 48 \<le> now" "physical_us r < now"
  shows "fst (recv_and_merge c now r) = HLC now 0 (hc_node c)"
proof -
  have "fst (unpack (hc_state c)) < now"
    using fst_unpack_less [of "hc_state c"] assms(1) by (rule less_le_trans)
  then show ?thesis
    using assms(2) by (auto simp: recv_and_merge_def advance_def advance_vals_def Let_def max_def
        split: prod.splits if_splits)
qed

lemma merge_stamp:
  assumes "clock_ok c ws now r" and "recv_and_merge c now r = (merged, c')"
    and "list_all (\<lambda>w. physical_us (fst (snd w)) < 2 ^ 48) ws \<longrightarrow>
      list_all (\<lambda>w. \<not> after_parts (clock_parts (fst (snd w))) (unpack (hc_state c))) ws"
  shows "list_all (\<lambda>w. fst (snd w) < merged) ws \<and>
    (physical_us merged < 2 ^ 48 \<and> list_all (\<lambda>w. physical_us (fst (snd w)) < 2 ^ 48) ws \<longrightarrow>
      unpack (hc_state c') = clock_parts merged)"
proof (cases "list_all (\<lambda>w. physical_us (fst (snd w)) < 2 ^ 48) ws \<and> now < 2 ^ 48")
  case True
  then have room: "headroom (hc_state c) now (Some r)" using assms(1) by (simp add: clock_ok_def)
  obtain phys log where new: "advance_vals (hc_state c) now (Some r) = (phys, log)" by fastforce
  have parts: "merged = HLC phys log (hc_node c)" "unpack (hc_state c') = (phys, log)"
    using assms(2) new advance_phys_bound [OF room] by (auto simp: recv_and_merge_def advance_def)
  have later: "after_parts (phys, log) (unpack (hc_state c))" using advance_after_local [OF room] new by simp
  have "fst (snd w) < merged" if "w \<in> set ws" for w
    using that assms(3) True after_parts_beyond [OF later] after_parts_less parts(1)
    unfolding clock_parts_def list_all_iff by metis
  then show ?thesis using parts by (simp add: list_all_iff clock_parts_def)
next
  case False
  then have now: "2 ^ 48 \<le> now" "physical_us r < now" "list_all (\<lambda>w. physical_us (fst (snd w)) < now) ws"
    using assms(1) by (auto simp: clock_ok_def split: if_splits)
  then have "merged = HLC now 0 (hc_node c)" using merge_past_2p48 [OF now(1,2), of c] assms(2) by simp
  then show ?thesis using now(1,3) by (auto simp: list_all_iff hlc_less_def)
qed

lemma not_after_le: "a \<le> b \<Longrightarrow> \<not> after_parts (clock_parts a) (clock_parts b)"
  by (auto simp: less_eq_hlc_def hlc_less_def after_parts_def clock_parts_def)

lemma server_inv_write:
  assumes inv: "server_inv mgr ws" and ok: "clock_ok (m_hlc mgr) ws now r"
    and merge: "recv_and_merge (m_hlc mgr) now r = (merged, hlc')"
    and fits: "write_fits (key, merged, val)"
  shows "server_inv (kv_put t busy key val merged (mgr\<lparr>m_hlc := hlc'\<rparr>)) ((key, merged, val) # ws)"
proof -
  have sorted: "list_all (\<lambda>w. fst (snd w) < merged) ws"
    and held: "physical_us merged < 2 ^ 48 \<Longrightarrow> list_all (\<lambda>w. physical_us (fst (snd w)) < 2 ^ 48) ws \<Longrightarrow>
      unpack (hc_state hlc') = clock_parts merged"
    using merge_stamp [OF ok merge] inv by (simp_all add: server_inv_def)
  have "\<not> after_parts (clock_parts (fst (snd w))) (clock_parts merged)" if "w \<in> set ((key, merged, val) # ws)" for w
  proof (rule not_after_le)
    show "fst (snd w) \<le> merged" using that sorted by (auto simp: list_all_iff less_imp_le)
  qed
  moreover have "db_abs (db_insert (m_db mgr) t busy key val merged) ((key, merged, val) # ws)"
    using inv fits unfolding db_insert_def Let_def
    by (intro db_abs_internal_insert db_abs_wal_insert) (simp_all add: server_inv_def stamped_def)
  moreover have "\<not> sst_locked (db_insert (m_db mgr) t busy key val merged)"
    using inv by (simp add: server_inv_def db_insert_def Let_def)
  ultimately show ?thesis
    using inv sorted held by (auto simp: server_inv_def kv_put_def list_all_iff)
qed

lemma server_inv_step [inv_intros]:
  assumes inv: "server_inv mgr ws" and ok: "event_ok ev mgr ws" and step: "server_step ev mgr = Some mgr'"
  shows "server_inv mgr' (event_writes ev mgr @ ws)"
proof (cases ev)
  case (Received t busy now sid m)
  note step = step [unfolded Received server_step.simps handle_message_def]
  show ?thesis
  proof (cases "msg_type m = type_code WRITE_REQ")
    case True
    then obtain key val r where req: "parse_write_req (payload m) = Some (key, val, r)"
      using step by (cases "parse_write_req (payload m)") auto
    obtain merged hlc' where merge: "recv_and_merge (m_hlc mgr) now r = (merged, hlc')" by fastforce
    have room: "clock_ok (m_hlc mgr) ws now r" and len: "length (payload m) < 2 ^ 20"
      using ok True req Received by simp_all
    have "write_fits (key, merged, val)"
      using parse_write_req_length [OF req] len by (simp add: write_fits_def)
    note written = server_inv_write [OF inv room merge this, of t busy]
    have "mgr' = send sid (message_of WRITE_RESP [0]) (kv_put t busy key val merged (mgr\<lparr>m_hlc := hlc'\<rparr>))"
      using step True req merge by simp
    then show ?thesis
      using written True req merge Received by (simp add: server_inv_same [OF same_store_session(2)])
  next
    case False
    then have "same_store mgr mgr'"
      using step by (auto split: if_splits Option.bind_splits simp: store_intros)
    then show ?thesis using inv False Received by (simp add: server_inv_same)
  qed
next
  case Taken
  then show ?thesis
    using step inv db_abs_take [of "m_db mgr" ws]
    by (auto simp: server_inv_def worker_take_def split: list.splits)
qed (use step inv in \<open>auto simp: server_inv_def forget_def on_session_def send_all_def\<close>)


lemma server_run_inv:
  assumes "server_run pf threshold mgr ws" "0 < pf_align pf" "pf_cpus pf \<noteq> 0"
  shows "server_inv mgr ws"
  using assms(1)
proof (induction rule: server_run.induct)
  case (init fresh t cpu_id files db join self now)
  then have "db_abs db [] \<and> \<not> sst_locked db"
    using open_empty [OF _ assms(2,3)] by blast
  then have "server_inv (new_manager self now db) []"
    by (simp add: server_inv_def new_manager_def)
  moreover have "same_store (new_manager self now db) (run_manager join (new_manager self now db))"
    by (auto simp: run_manager_def store_intros split: option.splits)
  ultimately show ?case by (simp add: server_inv_same)
qed (rule server_inv_step)

lemma server_find:
  assumes "server_inv mgr ws"
  shows "db_find (m_db mgr) key = Some (last_write ws key)"
proof -
  have inv: "db_abs (m_db mgr) ws" "\<not> sst_locked (m_db mgr)"
    "sorted_wrt (\<lambda>a b. fst (snd b) < fst (snd a)) ws"
    using assms by (simp_all add: server_inv_def)
  obtain ws' where "mset ws' = mset ws" "db_find (m_db mgr) key = Some (latest ws' key)"
    using internal_find_abs [OF inv(1,2)] by (auto simp: db_find_def)
  then show ?thesis
    using latest_cong [of ws ws' key] sorted_distinct_stamps [OF inv(3)] latest_sorted [OF inv(3)]
    by simp
qed

lemma server_run_put:
  fixes mgr :: "'b manager"
  assumes "server_run pf threshold mgr ws" "length key < 2 ^ 16" "length val < 2 ^ 19"
    and "clock_ok (m_hlc mgr) ws now r"
  shows "\<exists>mgr' :: 'b manager. server_run pf threshold mgr' ((key, fst (recv_and_merge (m_hlc mgr) now r), val) # ws)"
proof -
  let ?ev = "Received t None now sid (message_of WRITE_REQ (write_req key val r))"
  have req: "parse_write_req (write_req key val r) = Some (key, val, r)"
    using parse_write_req_append [of key val r "[]"] assms(2,3) by simp
  have "length (write_req key val r) < 2 ^ 20"
    using assms(2,3) by (simp add: write_req_def)
  then have "event_ok ?ev mgr ws"
    "event_writes ?ev mgr = [(key, fst (recv_and_merge (m_hlc mgr) now r), val)]"
    using req assms(4) by (simp_all add: message_of_def)
  moreover obtain mgr' where "server_step ?ev mgr = Some mgr'"
    using req by (cases "recv_and_merge (m_hlc mgr) now r") (auto simp: handle_message_def message_of_def)
  ultimately show ?thesis
    using server_run.step [OF assms(1), of ?ev mgr'] by auto
qed

section \<open>Introductions\<close>

lemma sessions_fold_send:
  assumes "distinct (map fst xs)"
  shows "m_sessions (fold (\<lambda>(i, s) mgr. if i \<noteq> skip then send i m mgr else mgr) xs mgr) =
    map (\<lambda>(i, s). (i, if i \<noteq> skip \<and> i \<in> fst ` set xs then session_send m s else s)) (m_sessions mgr)"
  using assms
  by (induction xs arbitrary: mgr) (auto simp: send_def on_session_def)

lemma sessions_fold_told:
  assumes "distinct (map fst (m_sessions mgr))"
  shows "m_sessions (fold (\<lambda>(i, s) mgr. if i \<noteq> skip then send i m mgr else mgr) (m_sessions mgr) mgr) =
    map (\<lambda>(i, s). (i, if i \<noteq> skip then session_send m s else s)) (m_sessions mgr)"
  unfolding sessions_fold_send [OF assms] by (intro map_cong) force+

lemma sessions_fold_collect:
  "m_sessions (fold (\<lambda>(i, s) mgr. if i \<noteq> skip then send skip (f s) mgr else mgr) xs mgr) =
    map (\<lambda>(i, s). (i, if i = skip
        then s\<lparr>s_write_q := s_write_q s @ map (\<lambda>(i, s). f s) (filter (\<lambda>(i, s). i \<noteq> skip) xs)\<rparr> else s))
      (m_sessions mgr)"
proof (induction xs arbitrary: mgr)
  case Nil
  show ?case by (auto intro!: map_idI [symmetric])
qed (auto simp: send_def on_session_def session_send_def)

text \<open>What an introduction leaves in the sessions.\<close>

definition introduced :: "address \<Rightarrow> nat \<Rightarrow> (nat \<times> session) list \<Rightarrow> nat \<times> session \<Rightarrow> nat \<times> session" where
  "introduced a sid ss = (\<lambda>(i, s).
     if i = sid
     then (i, s\<lparr>s_remote := a,
             s_write_q := s_write_q s @ map (\<lambda>(i, s). peer_message (s_remote s)) (filter (\<lambda>(i, s). i \<noteq> sid) ss)\<rparr>)
     else (i, session_send (peer_message a) s))"

lemma told_remotes:
  "map (\<lambda>(i, s). peer_message (s_remote s)) (filter (\<lambda>(i, s). i \<noteq> sid)
      (map (\<lambda>(i, s). (i, if i \<noteq> sid then session_send m s else s))
        (map (\<lambda>(i, s). (i, if i = sid then s\<lparr>s_remote := a\<rparr> else s)) ss))) =
    map (\<lambda>(i, s). peer_message (s_remote s)) (filter (\<lambda>(i, s). i \<noteq> sid) ss)"
  by (induction ss) (auto simp: session_send_def)

lemma sessions_on_identify:
  assumes "distinct (map fst (m_sessions mgr))"
  shows "m_sessions (on_identify sid a mgr) = map (introduced a sid (m_sessions mgr)) (m_sessions mgr)"
proof -
  let ?ss = "map (\<lambda>(i, s). (i, if i = sid then s\<lparr>s_remote := a\<rparr> else s)) (m_sessions mgr)"
  let ?told = "map (\<lambda>(i, s). (i, if i \<noteq> sid then session_send (peer_message a) s else s)) ?ss"
  define mgr1 where "mgr1 = fold (\<lambda>(i, s) mgr. if i \<noteq> sid then send i (peer_message a) mgr else mgr)
    (m_sessions (set_remote sid a mgr)) (set_remote sid a mgr)"
  have ss: "m_sessions (set_remote sid a mgr) = ?ss" by (simp add: set_remote_def on_session_def)
  have fst_ss: "map fst ?ss = map fst (m_sessions mgr)" by (simp add: comp_def case_prod_beta)
  have told: "m_sessions mgr1 = ?told"
    unfolding mgr1_def using sessions_fold_told [of "set_remote sid a mgr" sid] assms
    unfolding ss fst_ss by simp
  have peers: "map (\<lambda>(i, s). peer_message (s_remote s)) (filter (\<lambda>(i, s). i \<noteq> sid) ?told) =
      map (\<lambda>(i, s). peer_message (s_remote s)) (filter (\<lambda>(i, s). i \<noteq> sid) (m_sessions mgr))"
    by (rule told_remotes)
  have "on_identify sid a mgr =
      (if sid \<in> fst ` set (m_sessions mgr1)
       then fold (\<lambda>(i, s) mgr. if i \<noteq> sid then send sid (peer_message (s_remote s)) mgr else mgr)
              (m_sessions mgr1) mgr1
       else mgr1)"
    by (simp add: on_identify_def broadcast_peer_def Let_def mgr1_def)
  then have "m_sessions (on_identify sid a mgr) =
      map (\<lambda>(i, s). (i, if i = sid then s\<lparr>s_write_q := s_write_q s @
        map (\<lambda>(i, s). peer_message (s_remote s)) (filter (\<lambda>(i, s). i \<noteq> sid) (m_sessions mgr1))\<rparr> else s))
      (m_sessions mgr1)"
    by (auto simp: sessions_fold_collect [where f = "\<lambda>s. peer_message (s_remote s)"] image_iff
        intro!: map_idI [symmetric])
  then show ?thesis
    unfolding told peers by (auto simp: introduced_def intro!: map_cong)
qed


lemma identify_introduces:
  assumes "distinct (map fst (m_sessions mgr))" and "parse_address (payload m) = Some a"
  shows "\<exists>mgr'. handle_message t busy now sid (m\<lparr>msg_type := type_code IDENTIFY\<rparr>) mgr = Some mgr' \<and>
    m_sessions mgr' = map (introduced a sid (m_sessions mgr)) (m_sessions mgr) \<and>
    m_db mgr' = m_db mgr \<and> m_hlc mgr' = m_hlc mgr"
proof (intro exI conjI)
  show "handle_message t busy now sid (m\<lparr>msg_type := type_code IDENTIFY\<rparr>) mgr =
      Some (on_identify sid a (set_remote sid a mgr))"
    using assms(2) by (simp add: handle_message_def type_code_def)
  have twice: "set_remote sid a (set_remote sid a mgr) = set_remote sid a mgr"
    by (simp add: set_remote_def on_session_def comp_def case_prod_beta cong: if_cong)
  then have "on_identify sid a (set_remote sid a mgr) = on_identify sid a mgr"
    by (simp add: on_identify_def)
  then show "m_sessions (on_identify sid a (set_remote sid a mgr)) =
      map (introduced a sid (m_sessions mgr)) (m_sessions mgr)"
    using sessions_on_identify [OF assms(1)] by simp
  show "m_db (on_identify sid a (set_remote sid a mgr)) = m_db mgr"
    "m_hlc (on_identify sid a (set_remote sid a mgr)) = m_hlc mgr"
    using same_store_identify [of mgr sid a] by (simp_all add: same_store_def)
qed


section \<open>Properties\<close>



text \<open>C32: of two nodes with different addresses that do not know each other yet, exactly one dials
  when it hears of the other, so a pair is never connected from both sides; a node never dials
  itself; and a node that joins through an address not below its own dials nobody.\<close>
theorem one_side_dials:
  assumes "\<not> connected ma (m_self mb)" and "\<not> connected mb (m_self ma)"
  shows "(m_self ma \<noteq> m_self mb \<longrightarrow>
      (m_dialing (connect_to (m_self mb) ma) \<noteq> m_dialing ma) \<noteq>
      (m_dialing (connect_to (m_self ma) mb) \<noteq> m_dialing mb)) \<and>
    connect_to (m_self ma) ma = ma \<and>
    (\<not> address_less a (m_self ma) \<longrightarrow> run_manager (Some a) ma = ma)"
  using assms by (auto simp: connect_to_def address_less_def run_manager_def)

definition witness_manager :: "int \<Rightarrow> (nat \<times> session) list \<Rightarrow> bool list manager" where
  "witness_manager p ss = (new_manager \<lparr>host = [104], port = p\<rparr> 0
     (blank_database witness_platform 1 Map.empty))\<lparr>m_sessions := ss\<rparr>"

lemma witness_manager_simps [simp]:
  "m_self (witness_manager p ss) = \<lparr>host = [104], port = p\<rparr>"
  "m_dialing (witness_manager p ss) = []" "m_sessions (witness_manager p ss) = ss"
  by (simp_all add: witness_manager_def new_manager_def)

text \<open>The lower address is dialled, the higher one is not.\<close>
theorem one_side_dials_witness:
  "(m_dialing (connect_to \<lparr>host = [104], port = 1\<rparr> (witness_manager 2 [])) \<noteq> []) \<noteq>
     (m_dialing (connect_to \<lparr>host = [104], port = 2\<rparr> (witness_manager 1 [])) \<noteq> []) \<and>
   run_manager (Some \<lparr>host = [105], port = 2\<rparr>) (witness_manager 2 []) = witness_manager 2 []"
  using one_side_dials [of "witness_manager 2 []" "witness_manager 1 []" "\<lparr>host = [105], port = 2\<rparr>"]
  by (simp add: connected_def address_less_def)

text \<open>When a session introduces itself, every other session is told its address once, and the
  newcomer is told the address of every other session once, in the order of the sessions; nothing
  else changes but the newcomer's recorded address.\<close>
theorem identify_tells_everyone:
  assumes "distinct (map fst (m_sessions mgr))" and "parse_address (payload m) = Some a"
  shows "\<exists>mgr'. handle_message t busy now sid (m\<lparr>msg_type := type_code IDENTIFY\<rparr>) mgr = Some mgr' \<and>
    m_sessions mgr' = map (introduced a sid (m_sessions mgr)) (m_sessions mgr) \<and>
    m_db mgr' = m_db mgr \<and> m_hlc mgr' = m_hlc mgr"
  using assms by (rule identify_introduces)

text \<open>A second session introduces itself: the first is told of it, and it of the first.\<close>
theorem identify_tells_everyone_witness:
  "\<exists>mgr'. handle_message 0 None 0 1 (message_of IDENTIFY (address_payload \<lparr>host = [104], port = 7\<rparr>))
       (witness_manager 1 [(0, new_session 9 False), (1, new_session 0 False)]) = Some mgr' \<and>
     map (\<lambda>(i, s). s_write_q s) (m_sessions mgr') =
       [[peer_message \<lparr>host = [104], port = 7\<rparr>], [peer_message \<lparr>host = [], port = 9\<rparr>]]"
proof -
  let ?mgr = "witness_manager 1 [(0, new_session 9 False), (1, new_session 0 False)]"
  let ?a = "\<lparr>host = [104], port = 7\<rparr>"
  let ?m = "message_of IDENTIFY (address_payload ?a)"
  have a: "parse_address (payload ?m) = Some ?a"
    using parse_address_append [of ?a "[]"] by (simp add: message_of_def address_ok_def)
  have same: "?m\<lparr>msg_type := type_code IDENTIFY\<rparr> = ?m" by (simp add: message_of_def)
  have "distinct (map fst (m_sessions ?mgr))" by simp
  from identify_tells_everyone [OF this a, of 0 None 0 1, unfolded same]
  obtain mgr' where "handle_message 0 None 0 1 ?m ?mgr = Some mgr'"
    "m_sessions mgr' = map (introduced ?a 1 (m_sessions ?mgr)) (m_sessions ?mgr)"
    by blast
  then show ?thesis by (simp add: introduced_def session_send_def new_session_def)
qed

end
