(* ===== verification/Client.thy ===== *)
theory Client
  imports Server
begin

text \<open>
  The demonstration client (\<open>mousedb/client/src/client_main.cpp\<close>): its introduction, one round of
  its loop, which sends a random PUT or GET and takes the next frame for the answer, and the client
  and the server together.
\<close>

section \<open>Definitions\<close>

text \<open>The tag is \<open>kv_client\<close> and the port 0, by which the server tells clients from peers.\<close>

definition client_tag :: address where
  "client_tag = \<lparr>host = [107, 118, 95, 99, 108, 105, 101, 110, 116], port = 0\<rparr>"

definition client_identify :: message where
  "client_identify = message_of IDENTIFY (address_payload client_tag)"

definition client_key :: "nat \<Rightarrow> bytes" where
  "client_key n = [107, 101, 121] @ decimal n"

text \<open>The two branches of the loop: \<open>roll < 0.7\<close> is the first.\<close>

datatype roll = Put_Roll nat nat | Get_Roll nat

fun client_request :: "roll \<Rightarrow> message" where
  "client_request (Put_Roll k v) = message_of WRITE_REQ (write_req (client_key k) (decimal v) (HLC 0 0 0))"
| "client_request (Get_Roll k) = message_of READ_REQ (read_req (client_key k))"

datatype outcome = Put_Logged bool | Get_Logged get_answer

fun client_outcome :: "roll \<Rightarrow> message \<Rightarrow> outcome option" where
  "client_outcome (Put_Roll k v) m = Some (Put_Logged (parse_write_resp m))"
| "client_outcome (Get_Roll k) m = map_option Get_Logged (parse_read_resp m)"

text \<open>
  The part of a round after the request is sent, on the bytes received; \<open>None\<close> is a read past what the
  server sends or past the end of the body.
\<close>

definition client_round :: "roll \<Rightarrow> bytes \<Rightarrow> (outcome \<times> bytes) option" where
  "client_round r inbuf = do {
     (m, inbuf) \<leftarrow> read_msg inbuf;
     out \<leftarrow> client_outcome r m;
     Some (out, inbuf)
   }"

section \<open>The client's own encoders\<close>

text \<open>
  The client does not share the server's code but has its own: \<open>native_to_big\<close>, which is
  \<open>__builtin_bswap\<close> on the little-endian hosts it is built for, and the images of integers that are
  copied byte by byte.
\<close>

definition bswap :: "nat \<Rightarrow> 'a::len word \<Rightarrow> 'a word" where
  "bswap n w = le_word (rev (le_bytes n w))"

definition native_to_big :: "nat \<Rightarrow> 'a::len word \<Rightarrow> 'a word" where
  "native_to_big n w = bswap n w"

definition big_to_native :: "nat \<Rightarrow> 'a::len word \<Rightarrow> 'a word" where
  "big_to_native n w = native_to_big n w"

definition client_to_buffers :: "message \<Rightarrow> bytes" where
  "client_to_buffers m =
     (let len_be = native_to_big 4 (of_nat (length (payload m) + 4) :: u32);
          typ_be = native_to_big 2 (msg_type m)
      in le_bytes 4 len_be @ le_bytes 2 typ_be @ le_bytes 2 (0 :: u16) @ payload m)"

definition client_encode_hlc :: "hlc \<Rightarrow> bytes \<Rightarrow> bytes" where
  "client_encode_hlc c out =
     out @ le_bytes 8 (native_to_big 8 (physical_us c)) @ le_bytes 2 (native_to_big 2 (logical c)) @
       le_bytes 4 (native_to_big 4 (node_id c))"

definition client_decode_hlc :: "bytes \<Rightarrow> hlc" where
  "client_decode_hlc p =
     HLC (big_to_native 8 (le_word (take 8 p))) (big_to_native 2 (le_word (take 2 (drop 8 p))))
       (big_to_native 4 (le_word (take 4 (drop 10 p))))"

text \<open>The payloads that the loop and the introduction put together.\<close>

definition client_write_payload :: "bytes \<Rightarrow> bytes \<Rightarrow> bytes" where
  "client_write_payload key value =
     client_encode_hlc (HLC 0 0 0)
       (le_bytes 2 (native_to_big 2 (of_nat (length key) :: u16)) @ key @
        le_bytes 4 (native_to_big 4 (of_nat (length value) :: u32)) @ value)"

definition client_read_payload :: "bytes \<Rightarrow> bytes" where
  "client_read_payload key = le_bytes 2 (native_to_big 2 (of_nat (length key) :: u16)) @ key"

definition client_identify_payload :: bytes where
  "client_identify_payload =
     (let tag = host client_tag
      in le_bytes 2 (native_to_big 2 (of_nat (length tag) :: u16)) @ tag @ le_bytes 2 (native_to_big 2 (0 :: u16)))"

lemma le_bytes_big: "LENGTH('a) = 8 * n \<Longrightarrow> le_bytes n (native_to_big n (w :: 'a::len word)) = be_bytes n w"
  using le_bytes_le_word [of "rev (le_bytes n w)", where 'a = 'a]
  by (simp add: native_to_big_def bswap_def be_bytes_def)

lemma big_le_word:
  "LENGTH('a) = 8 * n \<Longrightarrow> length bs = n \<Longrightarrow> big_to_native n (le_word bs) = (be_word bs :: 'a::len word)"
  using le_bytes_le_word [of bs, where 'a = 'a]
  by (simp add: big_to_native_def native_to_big_def bswap_def be_word_def)

lemma zero_bytes: "le_bytes 2 (0 :: u16) = [0, 0]"
  by (simp add: numeral_eq_Suc)

lemma client_to_buffers_eq: "client_to_buffers m = to_buffers m"
  by (simp add: client_to_buffers_def to_buffers_def le_bytes_big zero_bytes Let_def del: of_nat_add)



section \<open>Lemmas\<close>

lemma length_decimal: "n < 1000 \<Longrightarrow> length (decimal n) \<le> 3"
  by (subst decimal.simps, subst decimal.simps, subst decimal.simps) auto

lemma client_key_length: "n < 10 \<Longrightarrow> length (client_key n) = 4"
  by (simp add: client_key_def decimal.simps)

lemma parse_client_request [codec_simps]:
  "k < 10 \<Longrightarrow> v < 1000 \<Longrightarrow> parse_write_req (payload (client_request (Put_Roll k v))) =
    Some (client_key k, decimal v, HLC 0 0 0)"
  "k < 10 \<Longrightarrow> parse_read_req (payload (client_request (Get_Roll k))) = Some (client_key k)"
  using parse_write_req_append [of "client_key k" "decimal v" "HLC 0 0 0" "[]"]
    parse_read_req_append [of "client_key k" "[]"] length_decimal [of v]
  by (simp_all add: message_of_def client_key_length)

lemma parse_client_identify: "parse_address (payload client_identify) = Some client_tag"
  using parse_address_append [of client_tag "[]"]
  by (simp add: client_identify_def message_of_def client_tag_def address_ok_def)


lemma sendable_peer: "length (host a) < 2 ^ 16 \<Longrightarrow> sendable (peer_message a)"
  by (simp add: sendable_def peer_message_def message_of_def address_payload_def)

text \<open>Handling a request queues one answer for its session and nothing else.\<close>

lemma request_answered:
  assumes "handle_message t busy now sid (client_request r) mgr = Some mgr'"
  shows "\<exists>m. m_sessions mgr' = map (\<lambda>(i, s). (i, if i = sid then session_send m s else s)) (m_sessions mgr)"
  using assms
  by (cases r) (auto simp: handle_message_def message_of_def type_code_def send_def on_session_def kv_put_def
      split: Option.bind_splits prod.splits)

lemma introduced_queue:
  assumes "distinct (map fst ss)" "(sid, s) \<in> set (map (introduced a sid ss0) ss)"
  shows "\<exists>s0. (sid, s0) \<in> set ss \<and> s_write_q s = s_write_q s0 @
    map (\<lambda>(i, s). peer_message (s_remote s)) (filter (\<lambda>(i, s). i \<noteq> sid) ss0)"
  using assms(2) by (auto simp: introduced_def split: if_splits)

section \<open>Properties\<close>

text \<open>A client that connects while the server has another session takes the introduction of that
  session for the answer to its first request: it logs a failed PUT, or an error for a GET, although
  the server has handled the request and queued the right answer behind the introduction.\<close>
theorem client_takes_peer_for_answer:
  assumes "distinct (map fst (m_sessions mgr))" and "(sid, s) \<in> set (m_sessions mgr)" and "s_write_q s = []"
    and "(i, other) \<in> set (m_sessions mgr)" and "i \<noteq> sid"
    and "list_all (\<lambda>(i, s). length (host (s_remote s)) < 2 ^ 16) (m_sessions mgr)"
    and "handle_message t busy now sid client_identify mgr = Some mgr1"
    and "handle_message t' busy' now' sid (client_request r) mgr1 = Some mgr2"
    and "(sid, s2) \<in> set (m_sessions mgr2)"
  shows "\<exists>inbuf. client_round r (concat (map to_buffers (s_write_q s2))) =
    Some (case r of Put_Roll k v \<Rightarrow> Put_Logged False | Get_Roll k \<Rightarrow> Get_Logged Get_Error, inbuf)"
proof -
  let ?peers = "map (\<lambda>(i, s). peer_message (s_remote s)) (filter (\<lambda>(i, s). i \<noteq> sid) (m_sessions mgr))"
  have id: "client_identify\<lparr>msg_type := type_code IDENTIFY\<rparr> = client_identify"
    by (simp add: client_identify_def message_of_def)
  obtain mgr1' where "handle_message t busy now sid client_identify mgr = Some mgr1'"
    "m_sessions mgr1' = map (introduced client_tag sid (m_sessions mgr)) (m_sessions mgr)"
    using identify_introduces [OF assms(1) parse_client_identify, of t busy now sid] unfolding id by blast
  then have mgr1: "m_sessions mgr1 = map (introduced client_tag sid (m_sessions mgr)) (m_sessions mgr)"
    using assms(7) by simp
  obtain m where "m_sessions mgr2 = map (\<lambda>(i, s). (i, if i = sid then session_send m s else s)) (m_sessions mgr1)"
    using request_answered [OF assms(8)] by blast
  then obtain s1 where s1: "(sid, s1) \<in> set (m_sessions mgr1)" "s2 = session_send m s1"
    using assms(9) by auto
  obtain s0 where "(sid, s0) \<in> set (m_sessions mgr)" "s_write_q s1 = s_write_q s0 @ ?peers"
    using introduced_queue [OF assms(1) s1(1) [unfolded mgr1]] by blast
  then have queue: "s_write_q s2 = ?peers @ [m]"
    using eq_key_imp_eq_value [OF assms(1) assms(2)] assms(3) s1(2) by (auto simp: session_send_def)
  obtain a ms where first: "s_write_q s2 = peer_message a # ms" "length (host a) < 2 ^ 16"
  proof (cases "filter (\<lambda>(i, s). i \<noteq> sid) (m_sessions mgr)")
    case Nil
    with assms(4,5) show ?thesis by (auto simp: filter_empty_conv)
  next
    case (Cons x xs)
    then have "x \<in> set (filter (\<lambda>(i, s). i \<noteq> sid) (m_sessions mgr))" by simp
    then have "x \<in> set (m_sessions mgr)" by simp
    then show ?thesis
      using that [of "s_remote (snd x)"] queue Cons assms(6) by (cases x) (auto simp: list_all_iff)
  qed
  show ?thesis
    using read_msg_append [OF sendable_peer [OF first(2)], of "concat (map to_buffers ms)"] first(1)
    by (cases r) (simp_all add: client_round_def peer_message_def message_of_def parse_write_resp_def
        parse_read_resp_def type_code_def)
qed


text \<open>The second client of a server puts 42 under \<open>key3\<close>.\<close>
theorem client_takes_peer_for_answer_witness:
  "\<exists>(mgr2 :: bool list manager) s2 inbuf. (1, s2) \<in> set (m_sessions mgr2) \<and>
     client_round (Put_Roll 3 42) (concat (map to_buffers (s_write_q s2))) = Some (Put_Logged False, inbuf)"
proof -
  let ?mgr = "witness_manager 1 [(0, new_session 9 False), (1, new_session 0 False)]"
  obtain mgr1 where mgr1: "handle_message 0 None 0 1 client_identify ?mgr = Some mgr1"
    using parse_client_identify by (simp add: handle_message_def client_identify_def message_of_def type_code_def)
  have id: "client_identify\<lparr>msg_type := type_code IDENTIFY\<rparr> = client_identify"
    by (simp add: client_identify_def message_of_def)
  have "m_sessions mgr1 = map (introduced client_tag 1 (m_sessions ?mgr)) (m_sessions ?mgr)"
    using identify_introduces [OF _ parse_client_identify, of ?mgr 0 None 0 1] mgr1 unfolding id by simp
  then obtain s1 where s1: "(1, s1) \<in> set (m_sessions mgr1)" by (auto simp: introduced_def)
  obtain mgr2 where mgr2: "handle_message 0 None 0 1 (client_request (Put_Roll 3 42)) mgr1 = Some mgr2"
    using parse_client_request(1) [of 3 42]
    by (cases "recv_and_merge (m_hlc mgr1) 0 (HLC 0 0 0)")
      (simp add: handle_message_def message_of_def)
  obtain s2 where s2: "(1, s2) \<in> set (m_sessions mgr2)"
    using request_answered [OF mgr2] s1 by force
  have "distinct (map fst (m_sessions ?mgr))" "(1, new_session 0 False) \<in> set (m_sessions ?mgr)"
    "s_write_q (new_session 0 False) = []" "(0, new_session 9 False) \<in> set (m_sessions ?mgr)"
    "(0 :: nat) \<noteq> 1" "list_all (\<lambda>(i, s). length (host (s_remote s)) < 2 ^ 16) (m_sessions ?mgr)"
    by (simp_all add: new_session_def)
  from client_takes_peer_for_answer [OF this mgr1 mgr2 s2] s2 show ?thesis by auto
qed

end
