(* ===== verification/Tempus.thy ===== *)
theory Tempus
  imports Prelude "HOL-Library.Signed_Division" "HOL-Library.Multiset" "HOL-Library.Sublist"
begin

text \<open>
  The simulation of virtual machines with logical clocks (\<open>tempus/src/logic.{hpp,cpp}\<close> and the
  set-up of the channels in \<open>main.cpp\<close>): the operations of one node, the thread that reassembles
  messages from its channels, the pacing of its loop, and the nodes together.
\<close>

section \<open>Clock and events\<close>

record vm_message =
  sender_rank :: int
  logical_timestamp :: int

text \<open>The value of a \<open>LogicalClock\<close> is an \<open>int\<close>; \<open>clocks_bounded\<close> shows that it cannot overflow.\<close>

definition update_on_receive :: "int \<Rightarrow> int \<Rightarrow> int" where
  "update_on_receive value received = max value received + 1"

definition increment :: "int \<Rightarrow> int" where
  "increment value = value + 1"

datatype event_type =
  RECEIVE | SEND_TO_NEXT | SEND_TO_SECOND_NEXT | SEND_TO_ALL | INTERNAL | NONE

definition decide_next_event :: "int \<Rightarrow> int \<Rightarrow> event_type" where
  "decide_next_event random cap =
     (if random \<le> 1 then SEND_TO_NEXT
      else if random \<le> 2 then SEND_TO_SECOND_NEXT
      else if random \<le> 3 then SEND_TO_ALL
      else if random \<le> cap then INTERNAL
      else NONE)"

definition calculate_target_rank :: "int \<Rightarrow> int \<Rightarrow> int \<Rightarrow> int" where
  "calculate_target_rank source offset num_vms = (source + offset) smod num_vms"

definition calculate_channel_index :: "int \<Rightarrow> int \<Rightarrow> int" where
  "calculate_channel_index source target = (if target > source then target - 1 else target)"

section \<open>Messages on a channel\<close>

text \<open>The object representation of a \<open>Message\<close>: two 32-bit integers.\<close>

definition msg_bytes :: "vm_message \<Rightarrow> bytes" where
  "msg_bytes m = le_bytes 4 (word_of_int (sender_rank m) :: u32) @
     le_bytes 4 (word_of_int (logical_timestamp m) :: u32)"

definition msg_of_bytes :: "bytes \<Rightarrow> vm_message" where
  "msg_of_bytes bs =
     \<lparr>sender_rank = sint (le_word (take 4 bs) :: u32), logical_timestamp = sint (le_word (drop 4 bs) :: u32)\<rparr>"

text \<open>\<open>sendMessage\<close>, where \<open>bytes_sent\<close> is the result of \<open>send\<close>.\<close>

definition send_message :: "int \<Rightarrow> bool" where
  "send_message bytes_sent \<longleftrightarrow> bytes_sent = 8"

text \<open>
  The receiver thread: for each channel the bytes of an incomplete message, and the shared queue.
  \<open>rx_streams\<close> is the environment, the bytes that each channel still delivers. One pass takes from
  each channel that \<open>poll\<close> reports what \<open>recv\<close> gives: the next bytes, as many as have arrived
  (\<open>ready\<close>) but at most those that are missing. No bytes are a disconnect, which throws (\<open>None\<close>).
\<close>

record receiver =
  rx_bufs :: "bytes list"
  rx_queue :: "vm_message list"
  rx_streams :: "bytes list"

definition new_receiver :: "bytes list \<Rightarrow> receiver" where
  "new_receiver streams = \<lparr>rx_bufs = replicate (length streams) [], rx_queue = [], rx_streams = streams\<rparr>"

definition receive_chunk :: "nat \<Rightarrow> nat \<Rightarrow> receiver \<Rightarrow> receiver option" where
  "receive_chunk i arrived rx =
     (let chunk = take (min arrived (8 - length (rx_bufs rx ! i))) (rx_streams rx ! i) in
      if chunk = [] then None
      else
        (let buf = rx_bufs rx ! i @ chunk;
             rx = rx\<lparr>rx_streams := (rx_streams rx)[i := drop (length chunk) (rx_streams rx ! i)]\<rparr>
         in if length buf = 8
            then Some (rx\<lparr>rx_bufs := (rx_bufs rx)[i := []], rx_queue := rx_queue rx @ [msg_of_bytes buf]\<rparr>)
            else Some (rx\<lparr>rx_bufs := (rx_bufs rx)[i := buf]\<rparr>)))"

fun receive_pass :: "(nat \<Rightarrow> nat option) \<Rightarrow> nat list \<Rightarrow> receiver \<Rightarrow> receiver option" where
  "receive_pass ready [] rx = Some rx"
| "receive_pass ready (i # is) rx =
     (case ready i of
        None \<Rightarrow> receive_pass ready is rx
      | Some arrived \<Rightarrow> Option.bind (receive_chunk i arrived rx) (receive_pass ready is))"

text \<open>The passes until \<open>done\<close>; a poll that times out is a pass without ready channels.\<close>

fun receive_messages :: "(nat \<Rightarrow> nat option) list \<Rightarrow> receiver \<Rightarrow> receiver option" where
  "receive_messages [] rx = Some rx"
| "receive_messages (ready # polls) rx =
     Option.bind (receive_pass ready [0..<length (rx_bufs rx)] rx) (receive_messages polls)"

section \<open>One node\<close>

text \<open>The channels a send uses, with the ranks they lead to.\<close>

definition send_targets :: "int \<Rightarrow> event_type \<Rightarrow> nat \<Rightarrow> int \<Rightarrow> (nat \<times> int) list" where
  "send_targets rank ev nch num_vms =
     (case ev of
        SEND_TO_NEXT \<Rightarrow>
          (let t = calculate_target_rank rank 1 num_vms
           in if t \<noteq> rank then [(nat (calculate_channel_index rank t), t)] else [])
      | SEND_TO_SECOND_NEXT \<Rightarrow>
          (let t = calculate_target_rank rank 2 num_vms
           in if t \<noteq> rank then [(nat (calculate_channel_index rank t), t)] else [])
      | SEND_TO_ALL \<Rightarrow>
          filter (\<lambda>(i, t). t \<noteq> rank)
            (map (\<lambda>i. (i, if int i \<ge> rank then int i + 1 else int i)) [0..<nch])
      | _ \<Rightarrow> [])"

datatype log_line =
    Log_Receive int int nat int
  | Log_Send int int
  | Log_Internal int int

text \<open>\<open>accepts\<close> gives the result of \<open>send\<close> on each channel; only the log depends on it.\<close>

definition handle_send_event ::
    "int \<Rightarrow> event_type \<Rightarrow> int \<Rightarrow> nat \<Rightarrow> int \<Rightarrow> (nat \<Rightarrow> int) \<Rightarrow> int \<times> (nat \<times> vm_message) list \<times> log_line list" where
  "handle_send_event rank ev clock nch num_vms accepts =
     (let clock = increment clock;
          msg = \<lparr>sender_rank = rank, logical_timestamp = clock\<rparr>;
          targets = send_targets rank ev nch num_vms
      in (clock, map (\<lambda>(i, t). (i, msg)) targets,
          map (\<lambda>(i, t). Log_Send t clock) (filter (\<lambda>(i, t). send_message (accepts i)) targets)))"

definition process_received_message :: "int \<Rightarrow> vm_message \<Rightarrow> int \<Rightarrow> nat \<Rightarrow> int \<times> log_line" where
  "process_received_message rank msg clock queue_size =
     (let clock = update_on_receive clock (logical_timestamp msg)
      in (clock, Log_Receive rank (sender_rank msg) queue_size clock))"

record node =
  nd_clock :: int
  nd_queue :: "vm_message list"

text \<open>The body of the loop of \<open>runNode\<close>; \<open>random\<close> is the number drawn.\<close>

definition node_body ::
    "int \<Rightarrow> nat \<Rightarrow> int \<Rightarrow> int \<Rightarrow> (nat \<Rightarrow> int) \<Rightarrow> node \<Rightarrow> node \<times> (nat \<times> vm_message) list \<times> log_line list" where
  "node_body rank nch num_vms random accepts nd =
     (case nd_queue nd of
        msg # q \<Rightarrow>
          (let (clock, line) = process_received_message rank msg (nd_clock nd) (length q)
           in (nd\<lparr>nd_clock := clock, nd_queue := q\<rparr>, [], [line]))
      | [] \<Rightarrow>
          (let ev = decide_next_event random 10 in
           if ev = SEND_TO_NEXT \<or> ev = SEND_TO_SECOND_NEXT \<or> ev = SEND_TO_ALL then
             (let (clock, sends, lines) = handle_send_event rank ev (nd_clock nd) nch num_vms accepts
              in (nd\<lparr>nd_clock := clock\<rparr>, sends, lines))
           else if ev = INTERNAL then
             (let clock = increment (nd_clock nd)
              in (nd\<lparr>nd_clock := clock\<rparr>, [], [Log_Internal rank clock]))
           else (nd, [], [])))"

section \<open>The pace of a node\<close>

text \<open>Times are in nanoseconds.\<close>

record pace =
  pc_now :: int
  pc_large_now :: int
  pc_large_count :: int

definition new_pace :: "int \<Rightarrow> pace" where
  "new_pace now = \<lparr>pc_now = now, pc_large_now = now, pc_large_count = 0\<rparr>"

definition pace_step :: "int \<Rightarrow> pace \<Rightarrow> pace" where
  "pace_step rate p =
     (let count = pc_large_count p + 1 in
      if count = rate
      then p\<lparr>pc_large_count := 0, pc_large_now := pc_large_now p + 1000000000,
             pc_now := pc_large_now p + 1000000000\<rparr>
      else p\<lparr>pc_large_count := count, pc_now := pc_now p + 1000000000 div rate\<rparr>)"

text \<open>\<open>rand() % MAX_CLOCK_RATE + 1\<close>.\<close>

definition clock_rate :: "nat \<Rightarrow> int" where
  "clock_rate random = int (random mod 6) + 1"

text \<open>
  The loop: \<open>body k\<close> is its body in round \<open>k\<close>, \<open>reads k\<close> the time read after the sleep of that
  round. The result is the number of rounds and the last state of the node.
\<close>

partial_function (option) run_loop ::
    "int \<Rightarrow> int \<Rightarrow> (nat \<Rightarrow> int) \<Rightarrow> (nat \<Rightarrow> 's \<Rightarrow> 's) \<Rightarrow> nat \<Rightarrow> pace \<Rightarrow> 's \<Rightarrow> (nat \<times> 's) option" where
  "run_loop rate end_time reads body k p nd =
     (let nd = body k nd; p = pace_step rate p
      in if reads k < end_time then run_loop rate end_time reads body (Suc k) p nd
         else Some (Suc k, nd))"

definition run_node ::
    "nat \<Rightarrow> int \<Rightarrow> (nat \<Rightarrow> int) \<Rightarrow> (nat \<Rightarrow> node \<Rightarrow> node) \<Rightarrow> (nat \<times> node) option" where
  "run_node random now reads body =
     run_loop (clock_rate random) (now + 60 * 1000000000) reads body 0 (new_pace now)
       \<lparr>nd_clock = 0, nd_queue = []\<rparr>"

section \<open>The channels\<close>

text \<open>
  The set-up of a child process in \<open>main\<close>: it accepts one connection from every lower rank, in
  the order in which they come (\<open>accepted\<close>), and connects to the higher ranks. A socket is known by
  the rank at its other end; \<open>None\<close> is a channel that is not set.
\<close>

definition setup_channels :: "nat \<Rightarrow> nat \<Rightarrow> nat list \<Rightarrow> nat option list" where
  "setup_channels num_vms rank accepted =
     fold (\<lambda>other ch. ch[other - 1 := Some other]) [rank + 1..<num_vms]
       (fold (\<lambda>other ch. ch[other := Some other]) accepted (replicate (num_vms - 1) None))"

text \<open>
  The loop that reads the four bytes of a rank: the chunk that \<open>recv\<close> delivers goes to
  \<open>&buf + size\<close>, where \<open>&buf\<close> is a pointer to the array, so the offset is \<open>4 * size\<close>. The first
  component lists the offsets written with their bytes; \<open>None\<close> is a failure.
\<close>

fun read_rank :: "nat \<Rightarrow> bytes list \<Rightarrow> ((nat \<times> byte) list) option" where
  "read_rank got chunks =
     (if got = 4 then Some []
      else
        (case chunks of
           [] \<Rightarrow> None
         | c # cs \<Rightarrow>
             if c = [] then None
             else map_option ((@) (zip [4 * got..<4 * got + length c] c)) (read_rank (got + length c) cs)))"

declare read_rank.simps [simp del]

section \<open>The nodes together\<close>

text \<open>
  All processes with their channels. \<open>sy_tags\<close> and the tags in \<open>sy_net\<close> are no part of the
  program: they name, for a message, the event that sent it, by its place in the trace of all events.
\<close>

record event =
  ev_rank :: nat
  ev_time :: int
  ev_cause :: "nat option"

record system =
  sy_node :: "nat \<Rightarrow> node"
  sy_tags :: "nat \<Rightarrow> nat list"
  sy_net :: "nat \<Rightarrow> nat \<Rightarrow> (nat \<times> vm_message) list"
  sy_trace :: "event list"

definition channel_peer :: "nat \<Rightarrow> nat \<Rightarrow> nat" where
  "channel_peer rank i = (if i \<ge> rank then i + 1 else i)"

definition new_system :: system where
  "new_system = \<lparr>sy_node = (\<lambda>_. \<lparr>nd_clock = 0, nd_queue = []\<rparr>), sy_tags = (\<lambda>_. []),
     sy_net = (\<lambda>_ _. []), sy_trace = []\<rparr>"

text \<open>What a round puts on the channels of its node.\<close>

definition put_on_net ::
    "nat \<Rightarrow> nat \<Rightarrow> (nat \<times> vm_message) list \<Rightarrow> (nat \<Rightarrow> nat \<Rightarrow> (nat \<times> vm_message) list) \<Rightarrow>
      nat \<Rightarrow> nat \<Rightarrow> (nat \<times> vm_message) list" where
  "put_on_net rank tag sends net =
     net(rank := (\<lambda>i. net rank i @ map (\<lambda>(j, m). (tag, m)) (filter (\<lambda>(j, m). j = i) sends)))"

text \<open>A step is a round of a node's loop or the arrival of a message in a node's queue.\<close>

inductive sys_step :: "nat \<Rightarrow> system \<Rightarrow> system \<Rightarrow> bool" for n where
  round: "rank < n \<Longrightarrow> 1 \<le> random \<Longrightarrow> random \<le> 10 \<Longrightarrow>
     node_body (int rank) (n - 1) (int n) random accepts (sy_node s rank) = (nd, sends, lines) \<Longrightarrow>
     sys_step n s (s\<lparr>sy_node := (sy_node s)(rank := nd),
       sy_tags := (sy_tags s)(rank := tl (sy_tags s rank)),
       sy_net := put_on_net rank (length (sy_trace s)) sends (sy_net s),
       sy_trace := sy_trace s @ [\<lparr>ev_rank = rank, ev_time = nd_clock nd,
         ev_cause = (case sy_tags s rank of [] \<Rightarrow> None | k # ks \<Rightarrow> Some k)\<rparr>]\<rparr>)"
| arrive: "rank < n \<Longrightarrow> sy_net s rank i = (k, m) # ms \<Longrightarrow> channel_peer rank i = dest \<Longrightarrow>
     sys_step n s (s\<lparr>sy_node := (sy_node s)(dest := (sy_node s dest)\<lparr>nd_queue := nd_queue (sy_node s dest) @ [m]\<rparr>),
       sy_tags := (sy_tags s)(dest := sy_tags s dest @ [k]),
       sy_net := (sy_net s)(rank := (sy_net s rank)(i := ms))\<rparr>)"

inductive sys_run :: "nat \<Rightarrow> system \<Rightarrow> bool" for n where
  init: "sys_run n new_system"
| step: "sys_run n s \<Longrightarrow> sys_step n s s' \<Longrightarrow> sys_run n s'"

text \<open>Lamport's relation on the events of a trace.\<close>

inductive happened_before :: "event list \<Rightarrow> nat \<Rightarrow> nat \<Rightarrow> bool" for tr where
  local: "a < b \<Longrightarrow> b < length tr \<Longrightarrow> ev_rank (tr ! a) = ev_rank (tr ! b) \<Longrightarrow> happened_before tr a b"
| message: "b < length tr \<Longrightarrow> ev_cause (tr ! b) = Some a \<Longrightarrow> happened_before tr a b"
| trans: "happened_before tr a b \<Longrightarrow> happened_before tr b c \<Longrightarrow> happened_before tr a c"

section \<open>Clock condition\<close>

text \<open>A message that carries a tag was sent by that event with its time stamp.\<close>

definition sent_by :: "event list \<Rightarrow> nat \<Rightarrow> vm_message \<Rightarrow> bool" where
  "sent_by tr k m \<longleftrightarrow> k < length tr \<and> logical_timestamp m = ev_time (tr ! k)"

definition trace_ok :: "event list \<Rightarrow> bool" where
  "trace_ok tr \<longleftrightarrow>
     (\<forall>b < length tr. ev_time (tr ! b) \<le> int (Suc b) \<and>
        (\<forall>a < b. ev_rank (tr ! a) = ev_rank (tr ! b) \<longrightarrow> ev_time (tr ! a) < ev_time (tr ! b)) \<and>
        (\<forall>a. ev_cause (tr ! b) = Some a \<longrightarrow> a < b \<and> ev_time (tr ! a) < ev_time (tr ! b)))"

definition lamport_inv :: "system \<Rightarrow> bool" where
  "lamport_inv s \<longleftrightarrow> trace_ok (sy_trace s) \<and>
     (\<forall>rank. nd_clock (sy_node s rank) \<le> int (length (sy_trace s)) \<and>
        (\<forall>e \<in> set (sy_trace s). ev_rank e = rank \<longrightarrow> ev_time e \<le> nd_clock (sy_node s rank)) \<and>
        list_all2 (sent_by (sy_trace s)) (sy_tags s rank) (nd_queue (sy_node s rank)) \<and>
        (\<forall>i. list_all (\<lambda>(k, m). sent_by (sy_trace s) k m) (sy_net s rank i)))"

lemma sent_by_append: "sent_by tr k m \<Longrightarrow> sent_by (tr @ es) k m"
  by (simp add: sent_by_def nth_append)

lemma trace_ok_snoc:
  assumes "trace_ok tr" "ev_time e \<le> int (Suc (length tr))"
    and "\<forall>e' \<in> set tr. ev_rank e' = ev_rank e \<longrightarrow> ev_time e' < ev_time e"
    and "\<And>a. ev_cause e = Some a \<Longrightarrow> a < length tr \<and> ev_time (tr ! a) < ev_time e"
  shows "trace_ok (tr @ [e])"
  unfolding trace_ok_def
proof (intro allI impI)
  fix b
  assume "b < length (tr @ [e])"
  then consider "b < length tr" | "b = length tr" by fastforce
  then show "ev_time ((tr @ [e]) ! b) \<le> int (Suc b) \<and>
      (\<forall>a<b. ev_rank ((tr @ [e]) ! a) = ev_rank ((tr @ [e]) ! b) \<longrightarrow>
        ev_time ((tr @ [e]) ! a) < ev_time ((tr @ [e]) ! b)) \<and>
      (\<forall>a. ev_cause ((tr @ [e]) ! b) = Some a \<longrightarrow> a < b \<and> ev_time ((tr @ [e]) ! a) < ev_time ((tr @ [e]) ! b))"
  proof cases
    case 1
    then show ?thesis using assms(1) by (auto simp: trace_ok_def nth_append)
  next
    case 2
    then show ?thesis using assms(2-4) by (auto simp: nth_append)
  qed
qed

text \<open>A round advances the clock, past the received message if there is one, by at most one
  beyond both, and what it sends carries the new value.\<close>

lemma node_body_clock:
  assumes "node_body rank nch num_vms random accepts nd = (nd', sends, lines)" "random \<le> 10"
  shows "nd_clock nd < nd_clock nd' \<and> nd_queue nd' = tl (nd_queue nd) \<and>
    (\<forall>(i, m) \<in> set sends. logical_timestamp m = nd_clock nd') \<and>
    (case nd_queue nd of
       [] \<Rightarrow> nd_clock nd' = nd_clock nd + 1
     | m # q \<Rightarrow> nd_clock nd' = max (nd_clock nd) (logical_timestamp m) + 1)"
  using assms
  by (auto simp: node_body_def handle_send_event_def process_received_message_def update_on_receive_def
      increment_def decide_next_event_def Let_def split: list.splits if_splits)

lemma list_all2_tl_tl: "list_all2 P xs ys \<Longrightarrow> list_all2 P (tl xs) (tl ys)"
  by (cases xs; cases ys) simp_all

lemma lamport_inv_step [inv_intros]:
  assumes "sys_step n s s'" "lamport_inv s"
  shows "lamport_inv s'"
  using assms(1)
proof (cases rule: sys_step.cases)
  case (arrive rank i k m ms dest)
  have "sent_by (sy_trace s) k m" "list_all (\<lambda>(k, m). sent_by (sy_trace s) k m) ms"
    using assms(2)[unfolded lamport_inv_def, THEN conjunct2, THEN spec, of rank, THEN conjunct2, THEN conjunct2,
        THEN conjunct2, THEN spec, of i] arrive(3) by simp_all
  then show ?thesis
    using assms(2) unfolding arrive(1) lamport_inv_def
    by (simp add: list_all2_appendI)
next
  case (round rank random accepts nd sends lines)
  let ?tr = "sy_trace s" and ?old = "sy_node s rank"
  let ?e = "\<lparr>ev_rank = rank, ev_time = nd_clock nd,
    ev_cause = (case sy_tags s rank of [] \<Rightarrow> None | k # ks \<Rightarrow> Some k)\<rparr>"
  have inv: "trace_ok ?tr" "\<And>r. nd_clock (sy_node s r) \<le> int (length ?tr)"
    "\<And>r e. e \<in> set ?tr \<Longrightarrow> ev_rank e = r \<Longrightarrow> ev_time e \<le> nd_clock (sy_node s r)"
    "\<And>r. list_all2 (sent_by ?tr) (sy_tags s r) (nd_queue (sy_node s r))"
    "\<And>r i. list_all (\<lambda>(k, m). sent_by ?tr k m) (sy_net s r i)"
    using assms(2) by (auto simp: lamport_inv_def)
  note body = node_body_clock [OF round(5,4)]
  have msg: "sent_by ?tr k m" if "sy_tags s rank = k # ks" "nd_queue ?old = m # q" for k ks m q
    using inv(4) [of rank] that by simp
  have cause: "a < length ?tr \<and> ev_time (?tr ! a) < nd_clock nd" if "ev_cause ?e = Some a" for a
    using that body inv(4) [of rank] msg
    by (cases "sy_tags s rank"; cases "nd_queue ?old") (auto simp: sent_by_def)
  have time: "nd_clock nd \<le> int (Suc (length ?tr))"
  proof (cases "nd_queue ?old")
    case (Cons m q)
    then obtain k where "sent_by ?tr k m" using inv(4) [of rank] by (auto simp: list_all2_Cons2)
    then have "logical_timestamp m \<le> int (length ?tr)"
      using inv(1) by (fastforce simp: sent_by_def trace_ok_def)
    then show ?thesis using body inv(2) [of rank] Cons by simp
  qed (use body inv(2) [of rank] in simp)
  have tr: "trace_ok (?tr @ [?e])"
    using body inv(3) time cause by (intro trace_ok_snoc [OF inv(1)]) fastforce+
  have clock: "nd_clock (((sy_node s)(rank := nd)) r) \<le> int (length (?tr @ [?e]))" for r
    using time inv(2) [of r] by simp
  have later: "ev_time e \<le> nd_clock (((sy_node s)(rank := nd)) r)"
    if "e \<in> set (?tr @ [?e])" "ev_rank e = r" for e r
    using that inv(3) [of e r] body by fastforce
  have queue: "list_all2 (sent_by (?tr @ [?e])) (((sy_tags s)(rank := tl (sy_tags s rank))) r)
      (nd_queue (((sy_node s)(rank := nd)) r))" for r
  proof -
    have "list_all2 (sent_by (?tr @ [?e])) (sy_tags s r) (nd_queue (sy_node s r))" for r
      using inv(4) [of r] by (rule list_all2_mono) (rule sent_by_append)
    then show ?thesis using body by (cases "r = rank") (auto intro: list_all2_tl_tl)
  qed
  have net: "list_all (\<lambda>(k, m). sent_by (?tr @ [?e]) k m) (put_on_net rank (length ?tr) sends (sy_net s) r i)" for r i
  proof -
    have "list_all (\<lambda>(k, m). sent_by (?tr @ [?e]) k m) (sy_net s r i)" for r
      using inv(5) [of r i] by (auto simp: list_all_iff intro: sent_by_append)
    moreover have "sent_by (?tr @ [?e]) (length ?tr) m" if "(j, m) \<in> set sends" for j m
      using body that by (auto simp: sent_by_def)
    ultimately show ?thesis by (auto simp: put_on_net_def list_all_iff)
  qed
  show ?thesis
    unfolding lamport_inv_def round(1) using tr clock later queue net by simp
qed

lemma sys_run_inv: "sys_run n s \<Longrightarrow> lamport_inv s"
proof (induction rule: sys_run.induct)
  case init
  show ?case by (simp add: lamport_inv_def new_system_def trace_ok_def)
qed (rule lamport_inv_step)

lemma happened_before_time:
  assumes "trace_ok tr" "happened_before tr a b"
  shows "a < b \<and> b < length tr \<and> ev_time (tr ! a) < ev_time (tr ! b)"
  using assms(2)
proof (induction rule: happened_before.induct)
  case (trans a b c)
  then show ?case by simp
qed (use assms(1) in \<open>auto simp: trace_ok_def\<close>)


section \<open>Channels\<close>

lemma fold_set_other:
  "i \<notin> f ` set xs \<Longrightarrow> fold (\<lambda>x ch. ch[f x := Some x]) xs ch ! i = ch ! i"
  by (induction xs arbitrary: ch) auto

lemma fold_set_length: "length (fold (\<lambda>x ch. ch[f x := Some x]) xs ch) = length ch"
  by (induction xs arbitrary: ch) auto

lemma fold_set_nth:
  assumes "x \<in> set xs" "\<And>y. y \<in> set xs \<Longrightarrow> f y = f x \<Longrightarrow> y = x" "f x < length ch"
  shows "fold (\<lambda>x ch. ch[f x := Some x]) xs ch ! f x = Some x"
  using assms
proof (induction xs arbitrary: ch)
  case (Cons y ys)
  show ?case
  proof (cases "x \<in> set ys")
    case True
    then show ?thesis using Cons by simp
  next
    case False
    then have "x = y" using Cons.prems(1) by simp
    moreover have "f x \<notin> f ` set ys" using Cons.prems(2) False by (metis image_iff list.set_intros(2))
    ultimately show ?thesis using Cons.prems(3) by (simp add: fold_set_other)
  qed
qed simp

lemma setup_channels_peer:
  assumes "rank < n" "mset accepted = mset [0..<rank]" "i < n - 1"
  shows "setup_channels n rank accepted ! i = Some (channel_peer rank i)"
proof -
  let ?acc = "fold (\<lambda>other ch. ch[other := Some other]) accepted (replicate (n - 1) None)"
  have set: "set accepted = {0..<rank}" using mset_eq_setD [OF assms(2)] by simp
  have len: "length ?acc = n - 1" by (simp add: fold_set_length [where f = "\<lambda>x. x", simplified])
  show ?thesis
  proof (cases "i < rank")
    case True
    then have "i \<notin> (\<lambda>x. x - 1) ` set [rank + 1..<n]" by auto
    moreover have "?acc ! i = Some i"
      using True assms(3) set by (intro fold_set_nth [where f = "\<lambda>x. x"]) simp_all
    ultimately show ?thesis
      using True fold_set_other [of i "\<lambda>x. x - 1" "[rank + 1..<n]" ?acc]
      by (simp add: setup_channels_def channel_peer_def)
  next
    case False
    then have "fold (\<lambda>x ch. ch[x - 1 := Some x]) [rank + 1..<n] ?acc ! (Suc i - 1) = Some (Suc i)"
      using assms(3) len by (intro fold_set_nth [where f = "\<lambda>x. x - 1"]) auto
    then show ?thesis using False by (simp add: setup_channels_def channel_peer_def)
  qed
qed

lemma channel_peer_index:
  assumes "rank < n" "t < n" "t \<noteq> rank"
  shows "nat (calculate_channel_index (int rank) (int t)) < n - 1 \<and>
    channel_peer rank (nat (calculate_channel_index (int rank) (int t))) = t"
  using assms by (auto simp: calculate_channel_index_def channel_peer_def nat_diff_distrib)

lemma target_rank_nat: "calculate_target_rank (int rank) (int k) (int n) = int ((rank + k) mod n)"
  by (cases "rank + k = 0") (auto simp: calculate_target_rank_def signed_modulo_int_def zmod_int sgn_if)

lemma send_all_targets: "rank < n \<Longrightarrow> send_targets (int rank) SEND_TO_ALL (n - 1) (int n) =
    map (\<lambda>i. (i, int (channel_peer rank i))) [0..<n - 1]"
  by (auto simp: send_targets_def channel_peer_def filter_map comp_def intro!: filter_True)

lemma channel_peers: "rank < n \<Longrightarrow> map (channel_peer rank) [0..<n - 1] = filter (\<lambda>t. t \<noteq> rank) [0..<n]"
proof -
  assume r: "rank < n"
  have "[0..<n] = [0..<rank] @ rank # [Suc rank..<n]"
    using r upt_add_eq_append [of 0 rank "n - rank"] by (simp add: upt_conv_Cons)
  then have "filter (\<lambda>t. t \<noteq> rank) [0..<n] = [0..<rank] @ [Suc rank..<n]"
    by (auto simp: filter_id_conv)
  moreover have "[0..<n - 1] = [0..<rank] @ [rank..<n - 1]"
    using r upt_add_eq_append [of 0 rank "n - 1 - rank"] by simp
  moreover have "map (channel_peer rank) [0..<rank] = [0..<rank]"
    by (intro map_idI) (simp add: channel_peer_def)
  moreover have "map (channel_peer rank) [rank..<n - 1] = map Suc [rank..<n - 1]"
    by (simp add: channel_peer_def)
  ultimately show ?thesis using r by (simp add: map_Suc_upt)
qed

section \<open>Reassembly\<close>

text \<open>\<open>blocks\<close> are the messages pushed so far, each with its channel.\<close>

definition rx_inv :: "bytes list \<Rightarrow> (nat \<times> bytes) list \<Rightarrow> receiver \<Rightarrow> bool" where
  "rx_inv streams blocks rx \<longleftrightarrow>
     length (rx_bufs rx) = length streams \<and> length (rx_streams rx) = length streams \<and>
     rx_queue rx = map (msg_of_bytes \<circ> snd) blocks \<and> list_all (\<lambda>(j, b). length b = 8) blocks \<and>
     (\<forall>i < length streams. length (rx_bufs rx ! i) < 8 \<and>
        streams ! i = concat (map snd (filter (\<lambda>(j, b). j = i) blocks)) @ rx_bufs rx ! i @ rx_streams rx ! i)"

lemma rx_inv_chunk [inv_intros]:
  assumes "rx_inv streams blocks rx" "i < length streams" "receive_chunk i arrived rx = Some rx'"
  shows "\<exists>blocks'. rx_inv streams blocks' rx'"
proof -
  let ?s = "rx_streams rx ! i" and ?b = "rx_bufs rx ! i"
  let ?m = "min arrived (8 - length ?b)"
  define c where "c = take ?m ?s"
  have split: "?s = c @ drop (length c) ?s"
    unfolding c_def by (metis append_eq_conv_conj append_take_drop_id)
  have c: "length c \<le> 8 - length ?b" "c \<noteq> []"
    using assms(3) by (auto simp: c_def receive_chunk_def Let_def split: if_splits)
  have inv: "length ?b < 8" "streams ! i = concat (map snd (filter (\<lambda>(j, b). j = i) blocks)) @ ?b @ ?s"
    "length (rx_bufs rx) = length streams" "length (rx_streams rx) = length streams"
    using assms(1,2) by (auto simp: rx_inv_def)
  show ?thesis
  proof (cases "length (?b @ c) = 8")
    case True
    then have rx': "rx' = rx\<lparr>rx_streams := (rx_streams rx)[i := drop (length c) ?s],
        rx_bufs := (rx_bufs rx)[i := []], rx_queue := rx_queue rx @ [msg_of_bytes (?b @ c)]\<rparr>"
      using assms(3) c(2) by (simp add: receive_chunk_def Let_def flip: c_def)
    have "streams ! i = concat (map snd (filter (\<lambda>(j, b). j = i) (blocks @ [(i, ?b @ c)]))) @ [] @ drop (length c) ?s"
      using inv(2) split by simp
    then have "rx_inv streams (blocks @ [(i, ?b @ c)]) rx'"
      using assms(1,2) inv True unfolding rx' rx_inv_def by (auto simp: nth_list_update)
    then show ?thesis ..
  next
    case False
    then have rx': "rx' = rx\<lparr>rx_streams := (rx_streams rx)[i := drop (length c) ?s],
        rx_bufs := (rx_bufs rx)[i := ?b @ c]\<rparr>"
      using assms(3) c(2) by (simp add: receive_chunk_def Let_def flip: c_def)
    have "streams ! i = concat (map snd (filter (\<lambda>(j, b). j = i) blocks)) @ (?b @ c) @ drop (length c) ?s"
      "length (?b @ c) < 8"
      using inv(1,2) split False c(1) by auto
    then have "rx_inv streams blocks rx'"
      using assms(1,2) inv unfolding rx' rx_inv_def by (auto simp: nth_list_update)
    then show ?thesis ..
  qed
qed

lemma rx_inv_pass:
  assumes "rx_inv streams blocks rx" "set is \<subseteq> {..<length streams}" "receive_pass ready is rx = Some rx'"
  shows "\<exists>blocks'. rx_inv streams blocks' rx'"
  using assms
proof (induction ready "is" rx arbitrary: blocks rule: receive_pass.induct)
  case (2 ready i "is" rx)
  show ?case
  proof (cases "ready i")
    case None
    then show ?thesis using 2 by simp
  next
    case (Some arrived)
    then obtain rx1 where "receive_chunk i arrived rx = Some rx1" "receive_pass ready is rx1 = Some rx'"
      using 2(5) by (auto split: Option.bind_splits)
    then show ?thesis using 2 Some rx_inv_chunk [of streams blocks rx i arrived rx1] by auto
  qed
qed auto

lemma rx_inv_messages:
  assumes "rx_inv streams blocks rx" "receive_messages polls rx = Some rx'"
  shows "\<exists>blocks'. rx_inv streams blocks' rx'"
  using assms
proof (induction polls arbitrary: blocks rx)
  case (Cons ready polls)
  then obtain rx1 where rx1: "receive_pass ready [0..<length (rx_bufs rx)] rx = Some rx1"
    "receive_messages polls rx1 = Some rx'"
    by (auto split: Option.bind_splits)
  have "set [0..<length (rx_bufs rx)] \<subseteq> {..<length streams}"
    using Cons.prems(1) by (auto simp: rx_inv_def)
  from rx_inv_pass [OF Cons.prems(1) this rx1(1)] Cons.IH rx1(2) show ?case by blast
qed auto

lemma rx_inv_new: "rx_inv streams [] (new_receiver streams)"
  by (simp add: rx_inv_def new_receiver_def)

definition msg_fits :: "vm_message \<Rightarrow> bool" where
  "msg_fits m \<longleftrightarrow> - (2 ^ 31) \<le> sender_rank m \<and> sender_rank m < 2 ^ 31 \<and>
     - (2 ^ 31) \<le> logical_timestamp m \<and> logical_timestamp m < 2 ^ 31"

lemma sint_of_int_u32: "- (2 ^ 31) \<le> x \<Longrightarrow> x < 2 ^ 31 \<Longrightarrow> sint (word_of_int x :: u32) = x"
  by (simp add: sint_sbintrunc' signed_take_bit_int_eq_self)

lemma msg_of_msg_bytes [codec_simps]: "msg_fits m \<Longrightarrow> msg_of_bytes (msg_bytes m) = m"
  by (cases m) (simp add: msg_of_bytes_def msg_bytes_def msg_fits_def sint_of_int_u32)

lemma length_msg_bytes [simp]: "length (msg_bytes m) = 8"
  by (simp add: msg_bytes_def)

lemma blocks_prefix:
  assumes "concat (map msg_bytes ms) = concat bs @ r" "list_all (\<lambda>b. length b = 8) bs" "list_all msg_fits ms"
  shows "\<exists>ms'. ms = map msg_of_bytes bs @ ms' \<and> concat (map msg_bytes ms') = r"
  using assms
proof (induction bs arbitrary: ms)
  case (Cons b bs)
  then obtain m ms0 where ms: "ms = m # ms0" by (cases ms) auto
  then have "b = msg_bytes m" "concat (map msg_bytes ms0) = concat bs @ r"
    using Cons.prems(1,2) by (auto simp: append_eq_append_conv)
  then show ?case using Cons.IH [of ms0] Cons.prems(2,3) ms by (auto simp: msg_of_msg_bytes)
qed simp


section \<open>Pace\<close>

definition pace_at :: "int \<Rightarrow> int \<Rightarrow> nat \<Rightarrow> pace" where
  "pace_at rate start k =
     (let large = start + int (k div nat rate) * 1000000000 in
      \<lparr>pc_now = large + int (k mod nat rate) * (1000000000 div rate), pc_large_now = large,
       pc_large_count = int (k mod nat rate)\<rparr>)"

lemma pace_step_at:
  assumes "0 < rate"
  shows "pace_step rate (pace_at rate start k) = pace_at rate start (Suc k)"
proof (cases "Suc (k mod nat rate) = nat rate")
  case True
  then have "Suc k mod nat rate = 0" "Suc k div nat rate = Suc (k div nat rate)"
    using assms by (simp_all add: mod_Suc div_Suc)
  moreover have "int (k mod nat rate) + 1 = rate" using True assms by linarith
  ultimately show ?thesis by (simp add: pace_step_def pace_at_def Let_def algebra_simps)
next
  case False
  then have "Suc k mod nat rate = Suc (k mod nat rate)" "Suc k div nat rate = k div nat rate"
    using assms by (simp_all add: mod_Suc div_Suc)
  moreover have "int (k mod nat rate) + 1 \<noteq> rate" using False assms by linarith
  ultimately show ?thesis by (simp add: pace_step_def pace_at_def Let_def algebra_simps)
qed

lemma pace_at_end:
  assumes "0 < rate"
  shows "start + 60 * 1000000000 \<le> pc_now (pace_at rate start k) \<longleftrightarrow> 60 * nat rate \<le> k"
proof -
  define q where "q = int (k div nat rate)"
  define x where "x = int (k mod nat rate) * (1000000000 div rate)"
  have r: "int (k mod nat rate) < rate" using assms by (simp add: zmod_int)
  have inc: "0 \<le> 1000000000 div rate" "rate * (1000000000 div rate) \<le> 1000000000"
    using assms by (simp_all add: pos_imp_zdiv_nonneg_iff flip: minus_mod_eq_mult_div)
  have "x < 1000000000"
  proof (cases "1000000000 div rate = 0")
    case False
    then have "x < rate * (1000000000 div rate)"
      unfolding x_def using r inc(1) by (intro mult_strict_right_mono) simp_all
    then show ?thesis using inc(2) by linarith
  qed (simp add: x_def)
  moreover have "0 \<le> x" using inc(1) by (simp add: x_def)
  ultimately have "60 * 1000000000 \<le> q * 1000000000 + x \<longleftrightarrow> 60 \<le> q" by linarith
  moreover have "60 \<le> q \<longleftrightarrow> 60 * nat rate \<le> k"
    using assms less_eq_div_iff_mult_less_eq [of "nat rate" 60 k] by (simp add: q_def)
  ultimately show ?thesis by (simp add: pace_at_def Let_def flip: q_def x_def)
qed

lemma pace_at_funpow: "0 < rate \<Longrightarrow> (pace_step rate ^^ k) (new_pace start) = pace_at rate start k"
  by (induction k) (simp_all add: pace_step_at, simp add: new_pace_def pace_at_def)

lemma run_loop_terminates:
  assumes "0 < rate" "\<And>k. pc_now (pace_at rate start (Suc k)) \<le> reads k"
  shows "k < 60 * nat rate \<Longrightarrow>
    \<exists>n. run_loop rate (start + 60 * 1000000000) reads body k (pace_at rate start k) nd =
        Some (n, fold body [k..<n] nd) \<and> k < n \<and> n \<le> 60 * nat rate \<and>
      (\<forall>j. k \<le> j \<and> Suc j < n \<longrightarrow> reads j < start + 60 * 1000000000) \<and>
      start + 60 * 1000000000 \<le> reads (n - 1)"
proof (induction "60 * nat rate - k" arbitrary: k nd rule: less_induct)
  case less
  note unfold = run_loop.simps [of rate _ reads body k "pace_at rate start k" nd, unfolded Let_def pace_step_at [OF assms(1)]]
  show ?case
  proof (cases "reads k < start + 60 * 1000000000")
    case True
    then have "\<not> start + 60 * 1000000000 \<le> pc_now (pace_at rate start (Suc k))"
      using assms(2) [of k] by linarith
    then have "Suc k < 60 * nat rate" using pace_at_end [OF assms(1)] by simp
    moreover have "60 * nat rate - Suc k < 60 * nat rate - k" using less.prems by linarith
    ultimately obtain n where n:
      "run_loop rate (start + 60 * 1000000000) reads body (Suc k) (pace_at rate start (Suc k)) (body k nd) =
        Some (n, fold body [Suc k..<n] (body k nd))" "Suc k < n" "n \<le> 60 * nat rate"
      "\<forall>j. Suc k \<le> j \<and> Suc j < n \<longrightarrow> reads j < start + 60 * 1000000000"
      "start + 60 * 1000000000 \<le> reads (n - 1)"
      using less.hyps [of "Suc k" "body k nd"] by blast
    have "\<forall>j. k \<le> j \<and> Suc j < n \<longrightarrow> reads j < start + 60 * 1000000000"
      using n(4) True by (metis le_antisym not_less_eq_eq)
    then show ?thesis
      using n True by (intro exI [of _ n]) (simp add: unfold upt_conv_Cons)
  next
    case False
    then show ?thesis
      using less.prems by (intro exI [of _ "Suc k"]) (auto simp: unfold)
  qed
qed

text \<open>A rank that arrives whole is stored in the buffer; the second part of one that does not is
  written past its four bytes.\<close>

lemma read_rank_whole: "length c = 4 \<Longrightarrow> read_rank 0 [c] = Some (zip [0..<4] c)"
  by (auto simp: read_rank.simps [of 0] read_rank.simps [of 4])

lemma read_rank_split: "read_rank 0 [[a], [b, c, d]] = Some [(0, a), (4, b), (5, c), (6, d)]"
  by (simp add: read_rank.simps numeral_eq_Suc)

section \<open>Properties\<close>

text \<open>C24: in every run of the nodes, events ordered by Lamport's relation, by the order of a node or by a
  message from its sending to its receipt, carry increasing clock values, and no clock exceeds the
  number of events so far, so with at most 360 rounds per node an \<open>int\<close> cannot overflow.\<close>
theorem lamport_clock_condition:
  assumes "sys_run n s"
  shows "(happened_before (sy_trace s) a b \<longrightarrow> ev_time (sy_trace s ! a) < ev_time (sy_trace s ! b)) \<and>
    nd_clock (sy_node s rank) \<le> int (length (sy_trace s))"
  using sys_run_inv [OF assms] happened_before_time [of "sy_trace s" a b] by (auto simp: lamport_inv_def)

text \<open>Node 0 sends to node 1, whose first event is the receipt.\<close>
theorem lamport_clock_condition_witness:
  "\<exists>s. sys_run 2 s \<and> ev_rank (sy_trace s ! 0) = 0 \<and> ev_rank (sy_trace s ! 1) = 1 \<and>
     ev_time (sy_trace s ! 0) < ev_time (sy_trace s ! 1)"
proof -
  let ?m = "\<lparr>sender_rank = 0, logical_timestamp = 1\<rparr>"
  obtain s1 where s1: "sys_run 2 s1" "sy_net s1 0 0 = [(0, ?m)]"
    "sy_node s1 1 = \<lparr>nd_clock = 0, nd_queue = []\<rparr>" "sy_tags s1 1 = []"
    "sy_trace s1 = [\<lparr>ev_rank = 0, ev_time = 1, ev_cause = None\<rparr>]"
  proof -
    have "node_body (int 0) (2 - 1) (int 2) 1 (\<lambda>_. 8) (sy_node new_system 0) =
        (\<lparr>nd_clock = 1, nd_queue = []\<rparr>, [(0, ?m)], [Log_Send 1 1])"
      by (simp add: node_body_def new_system_def decide_next_event_def handle_send_event_def increment_def
          send_targets_def calculate_target_rank_def calculate_channel_index_def send_message_def
          signed_modulo_int_def)
    from sys_run.step [OF sys_run.init sys_step.round [OF _ _ _ this]] show ?thesis
      by (rule that) (simp_all add: new_system_def put_on_net_def)
  qed
  obtain s2 where s2: "sys_run 2 s2" "sy_node s2 1 = \<lparr>nd_clock = 0, nd_queue = [?m]\<rparr>" "sy_tags s2 1 = [0]"
    "sy_trace s2 = sy_trace s1"
  proof -
    have "sy_net s1 0 0 = (0, ?m) # []" "channel_peer 0 0 = 1" using s1 by (simp_all add: channel_peer_def)
    from sys_run.step [OF s1(1) sys_step.arrive [OF _ this]] show ?thesis
      by (rule that) (simp_all add: s1 [unfolded One_nat_def])
  qed
  obtain s3 where s3: "sys_run 2 s3"
    "sy_trace s3 = sy_trace s1 @ [\<lparr>ev_rank = 1, ev_time = 2, ev_cause = Some 0\<rparr>]"
  proof -
    have "node_body (int 1) (2 - 1) (int 2) 1 (\<lambda>_. 8) (sy_node s2 1) =
        (\<lparr>nd_clock = 2, nd_queue = []\<rparr>, [], [Log_Receive 1 0 0 2])"
      by (simp add: node_body_def s2 [unfolded One_nat_def] process_received_message_def update_on_receive_def)
    from sys_run.step [OF s2(1) sys_step.round [OF _ _ _ this]] show ?thesis
      by (rule that) (simp_all add: s2 [unfolded One_nat_def])
  qed
  have "happened_before (sy_trace s3) 0 1"
    by (rule happened_before.message) (simp_all add: s3 s1)
  with lamport_clock_condition [OF s3(1), of 0 1 0] have "ev_time (sy_trace s3 ! 0) < ev_time (sy_trace s3 ! 1)"
    by simp
  with s3 s1 show ?thesis by (intro exI [of _ s3]) simp
qed




text \<open>Every channel of a node leads to the rank the node takes it for, in whatever order the lower
  ranks were accepted; the next and the second next rank are counted modulo the number of nodes and
  a node never sends to itself; a send to all uses every channel once.\<close>
theorem sends_reach_their_targets:
  assumes "rank < n" and "mset accepted = mset [0..<rank]"
    and "(i, t) \<in> set (send_targets (int rank) ev (n - 1) (int n))"
  shows "i < n - 1 \<and> t \<noteq> int rank \<and> setup_channels n rank accepted ! i = Some (nat t) \<and>
    (ev = SEND_TO_NEXT \<longrightarrow> t = int ((rank + 1) mod n)) \<and> (ev = SEND_TO_SECOND_NEXT \<longrightarrow> t = int ((rank + 2) mod n)) \<and>
    map (nat \<circ> snd) (send_targets (int rank) SEND_TO_ALL (n - 1) (int n)) = filter (\<lambda>t. t \<noteq> rank) [0..<n]"
proof -
  have all: "map (nat \<circ> snd) (send_targets (int rank) SEND_TO_ALL (n - 1) (int n)) = filter (\<lambda>t. t \<noteq> rank) [0..<n]"
    unfolding send_all_targets [OF assms(1)] using channel_peers [OF assms(1)] by (simp add: comp_def)
  have one: ?thesis
    if "t = int ((rank + k) mod n)" "t \<noteq> int rank" "i = nat (calculate_channel_index (int rank) t)"
      "ev = SEND_TO_NEXT \<and> k = 1 \<or> ev = SEND_TO_SECOND_NEXT \<and> k = 2" for k
  proof -
    have "(rank + k) mod n < n" using assms(1) by simp
    from channel_peer_index [OF assms(1) this] that(1-3)
    have "i < n - 1" "channel_peer rank i = nat t" by auto
    then show ?thesis using setup_channels_peer [OF assms(1,2)] that all by auto
  qed
  show ?thesis
  proof (cases ev)
    case SEND_TO_NEXT
    then show ?thesis using assms(3) target_rank_nat [of rank 1 n]
      by (intro one [of 1]) (auto simp: send_targets_def Let_def split: if_splits)
  next
    case SEND_TO_SECOND_NEXT
    then show ?thesis using assms(3) target_rank_nat [of rank 2 n]
      by (intro one [of 2]) (auto simp: send_targets_def Let_def split: if_splits)
  next
    case SEND_TO_ALL
    then have "i < n - 1" "t = int (channel_peer rank i)"
      using assms(3) send_all_targets [OF assms(1)] by auto
    then show ?thesis
      using SEND_TO_ALL setup_channels_peer [OF assms(1,2)] all by (auto simp: channel_peer_def)
  qed (use assms(3) in \<open>simp_all add: send_targets_def\<close>)
qed

text \<open>Rank 1 of 3, with the second next node.\<close>
theorem sends_reach_their_targets_witness:
  "(0, 0) \<in> set (send_targets 1 SEND_TO_SECOND_NEXT 2 3) \<and> setup_channels 3 1 [0] ! 0 = Some 0"
proof -
  have m: "(0, 0) \<in> set (send_targets (int 1) SEND_TO_SECOND_NEXT (3 - 1) (int 3))"
    by (simp add: send_targets_def calculate_target_rank_def calculate_channel_index_def signed_modulo_int_def)
  have "mset [0 :: nat] = mset [0..<1]" by simp
  from sends_reach_their_targets [OF _ this m] m show ?thesis by simp
qed

text \<open>C26: the loop of a node ends. If every sleep lasts at least until the time asked for, it stops after
  at most 60 rounds per unit of its clock rate, so at most 360, at the first time read that is 60
  seconds or more after the start; and the schedule does not drift: after \<open>j\<close> times the clock
  rate many rounds the time asked for is exactly \<open>j\<close> seconds after the start.\<close>
theorem run_node_terminates:
  assumes "\<And>k. pc_now ((pace_step (clock_rate random) ^^ Suc k) (new_pace start)) \<le> reads k"
  shows "(\<exists>n. run_node random start reads body = Some (n, fold body [0..<n] \<lparr>nd_clock = 0, nd_queue = []\<rparr>) \<and>
      0 < n \<and> n \<le> 60 * nat (clock_rate random) \<and> n \<le> 360 \<and>
      list_all (\<lambda>j. reads j < start + 60 * 1000000000) [0..<n - 1] \<and> start + 60 * 1000000000 \<le> reads (n - 1)) \<and>
    pc_now ((pace_step (clock_rate random) ^^ (j * nat (clock_rate random))) (new_pace start)) =
      start + int j * 1000000000"
proof -
  have rate: "0 < clock_rate random" "nat (clock_rate random) \<le> 6"
    by (simp_all add: clock_rate_def)
  have "pc_now (pace_at (clock_rate random) start (Suc k)) \<le> reads k" for k
    using assms [of k] by (simp only: pace_at_funpow [OF rate(1)])
  from run_loop_terminates [OF rate(1) this, of 0 body "\<lparr>nd_clock = 0, nd_queue = []\<rparr>"] rate(1)
  obtain n where n: "run_node random start reads body = Some (n, fold body [0..<n] \<lparr>nd_clock = 0, nd_queue = []\<rparr>)"
    "0 < n" "n \<le> 60 * nat (clock_rate random)" "\<forall>j. Suc j < n \<longrightarrow> reads j < start + 60 * 1000000000"
    "start + 60 * 1000000000 \<le> reads (n - 1)"
    unfolding run_node_def by (auto simp: new_pace_def pace_at_def)
  have "list_all (\<lambda>j. reads j < start + 60 * 1000000000) [0..<n - 1]"
    using n(4) by (auto simp: list_all_iff)
  moreover have "n \<le> 360" using n(3) rate(2) by linarith
  ultimately show ?thesis
    using n rate(1) by (simp add: pace_at_funpow [OF rate(1)] pace_at_def Let_def)
qed

text \<open>A node of rate 3 whose sleeps are exact.\<close>
theorem run_node_terminates_witness:
  "\<exists>n. run_node 2 0 (\<lambda>k. pc_now ((pace_step 3 ^^ Suc k) (new_pace 0))) (\<lambda>k nd. nd) =
     Some (n, fold (\<lambda>k nd. nd) [0..<n] \<lparr>nd_clock = 0, nd_queue = []\<rparr>)"
proof -
  have rate: "clock_rate 2 = 3" by (simp add: clock_rate_def)
  show ?thesis
    using run_node_terminates [of 2 0 "\<lambda>k. pc_now ((pace_step 3 ^^ Suc k) (new_pace 0))" "\<lambda>k nd. nd" 0]
    unfolding rate by blast
qed

end
