(* ===== verification/Mesh.thy ===== *)
theory Mesh
  imports Tempus
begin

text \<open>
  The start of the simulation (\<open>tempus/src/main.cpp\<close>): \<open>main\<close> forks one process per rank; each
  listens, accepts a connection from every lower rank and connects to every higher one, until each
  pair shares a channel, and then enters \<open>runNode\<close>. The processes are an inductive step relation whose
  steps are the system calls that other processes can see.
\<close>

section \<open>State\<close>

text \<open>
  Where a process stands: before \<open>socket\<close> and \<open>bind\<close>, before \<open>listen\<close>, in the loop of accepts before
  \<open>accept\<close> and before \<open>recv\<close>, in the loop of connects before \<open>connect\<close> and before \<open>send\<close>, before
  \<open>close(sock)\<close>, in \<open>runNode\<close>, ended with an exit code, and waited for by its parent.
\<close>

datatype rank_pc =
    Unborn | Opening | Bound | Accepting nat | Reading nat | Connecting nat | Sending nat | Closing
  | Node | Exited nat | Reaped nat

datatype main_pc = Forking nat | Waiting | Returned nat

text \<open>
  \<open>ms_conns r\<close> are the connections made to the listening socket of \<open>r\<close>, by the rank at their other
  end, in the order in which they were made; \<open>accept\<close> takes them in that order.
  \<open>ms_wire q r\<close> is what \<open>q\<close> has sent on its connection to \<open>r\<close>.
\<close>

record mesh =
  ms_main :: main_pc
  ms_pcs :: "nat \<Rightarrow> rank_pc"
  ms_chans :: "nat \<Rightarrow> nat option list"
  ms_listeners :: "nat \<rightharpoonup> nat"
  ms_conns :: "nat \<Rightarrow> nat list"
  ms_wire :: "nat \<Rightarrow> nat \<Rightarrow> bytes"

definition min_port :: nat where
  "min_port = 17050"

definition ports :: "nat \<Rightarrow> nat list" where
  "ports num_vms = map (\<lambda>k. min_port + k) [0..<num_vms]"

definition new_mesh :: "nat \<Rightarrow> mesh" where
  "new_mesh num_vms =
     \<lparr>ms_main = (if 0 < num_vms then Forking 0 else Waiting), ms_pcs = (\<lambda>_. Unborn),
      ms_chans = (\<lambda>_. []), ms_listeners = Map.empty, ms_conns = (\<lambda>_. []), ms_wire = (\<lambda>_ _. [])\<rparr>"

section \<open>Steps of a process\<close>

text \<open>The heads of the two loops.\<close>

definition after_connect :: "nat \<Rightarrow> nat \<Rightarrow> rank_pc" where
  "after_connect num_vms other_rank =
     (if other_rank < num_vms then Connecting other_rank else Closing)"

definition after_accept :: "nat \<Rightarrow> nat \<Rightarrow> nat \<Rightarrow> rank_pc" where
  "after_accept num_vms rank i =
     (if i < rank then Accepting i else after_connect num_vms (rank + 1))"

text \<open>The object representation of a rank, which the connecting side copies and sends.\<close>

definition rank_bytes :: "nat \<Rightarrow> bytes" where
  "rank_bytes rank = le_bytes 4 (word_of_nat rank :: u32)"

text \<open>The rank that the accepting side reads, when \<open>recv\<close> delivers \<open>chunk\<close>.\<close>

definition other_rank_of :: "bytes \<Rightarrow> int option" where
  "other_rank_of chunk =
     map_option (\<lambda>stores. sint (le_word (map snd stores) :: u32)) (read_rank 0 [chunk])"

text \<open>Connections that wait in the backlog of a listening socket.\<close>

fun accepted_by :: "rank_pc \<Rightarrow> nat \<Rightarrow> nat" where
  "accepted_by (Accepting i) rank = i"
| "accepted_by (Reading i) rank = Suc i"
| "accepted_by Unborn rank = 0"
| "accepted_by Opening rank = 0"
| "accepted_by Bound rank = 0"
| "accepted_by _ rank = rank"

definition backlog :: "mesh \<Rightarrow> nat \<Rightarrow> nat list" where
  "backlog s rank = drop (accepted_by (ms_pcs s rank) rank) (ms_conns s rank)"

definition set_pc :: "nat \<Rightarrow> rank_pc \<Rightarrow> mesh \<Rightarrow> mesh" where
  "set_pc rank pc s = s\<lparr>ms_pcs := (ms_pcs s)(rank := pc)\<rparr>"

text \<open>
  The next system call of a process, when it succeeds; \<open>None\<close> is a call that blocks or, for
  \<open>connect\<close>, one that is refused.
\<close>

definition open_step :: "nat \<Rightarrow> mesh \<Rightarrow> mesh option" where
  "open_step rank s = Some (set_pc rank Bound s)"

definition listen_step :: "nat \<Rightarrow> nat \<Rightarrow> mesh \<Rightarrow> mesh option" where
  "listen_step num_vms rank s =
     Some (set_pc rank (after_accept num_vms rank 0)
       (s\<lparr>ms_listeners := (ms_listeners s)(ports num_vms ! rank \<mapsto> rank)\<rparr>))"

definition accept_step :: "nat \<Rightarrow> nat \<Rightarrow> mesh \<Rightarrow> mesh option" where
  "accept_step rank i s = (case backlog s rank of [] \<Rightarrow> None | q # qs \<Rightarrow> Some (set_pc rank (Reading i) s))"

definition read_step :: "nat \<Rightarrow> nat \<Rightarrow> nat \<Rightarrow> mesh \<Rightarrow> mesh option" where
  "read_step num_vms rank i s =
     (let q = ms_conns s rank ! i in
      case other_rank_of (take 4 (ms_wire s q rank)) of
        None \<Rightarrow> None
      | Some other \<Rightarrow>
          if 0 \<le> other \<and> nat other < length (ms_chans s rank)
          then Some (set_pc rank (after_accept num_vms rank (Suc i))
            (s\<lparr>ms_chans := (ms_chans s)(rank := (ms_chans s rank)[nat other := Some q])\<rparr>))
          else None)"

definition connect_step :: "nat \<Rightarrow> nat \<Rightarrow> nat \<Rightarrow> mesh \<Rightarrow> mesh option" where
  "connect_step num_vms rank other s =
     (case ms_listeners s (ports num_vms ! other) of
        None \<Rightarrow> None
      | Some l \<Rightarrow>
          if length (backlog s l) < num_vms - 1
          then Some (set_pc rank (Sending other)
            (s\<lparr>ms_conns := (ms_conns s)(l := ms_conns s l @ [rank]),
               ms_chans := (ms_chans s)(rank := (ms_chans s rank)[other - 1 := Some l])\<rparr>))
          else None)"

definition send_step :: "nat \<Rightarrow> nat \<Rightarrow> nat \<Rightarrow> mesh \<Rightarrow> mesh option" where
  "send_step num_vms rank other s =
     (case ms_chans s rank ! (other - 1) of
        None \<Rightarrow> None
      | Some l \<Rightarrow>
          Some (set_pc rank (after_connect num_vms (Suc other))
            (s\<lparr>ms_wire := (ms_wire s)(rank := (ms_wire s rank)(l := ms_wire s rank l @ rank_bytes rank))\<rparr>)))"

definition close_step :: "nat \<Rightarrow> nat \<Rightarrow> mesh \<Rightarrow> mesh option" where
  "close_step num_vms rank s =
     Some (set_pc rank Node (s\<lparr>ms_listeners := (ms_listeners s)(ports num_vms ! rank := None)\<rparr>))"

definition rank_step :: "nat \<Rightarrow> nat \<Rightarrow> mesh \<Rightarrow> mesh option" where
  "rank_step num_vms rank s =
     (case ms_pcs s rank of
        Opening \<Rightarrow> open_step rank s
      | Bound \<Rightarrow> listen_step num_vms rank s
      | Accepting i \<Rightarrow> accept_step rank i s
      | Reading i \<Rightarrow> read_step num_vms rank i s
      | Connecting other \<Rightarrow> connect_step num_vms rank other s
      | Sending other \<Rightarrow> send_step num_vms rank other s
      | Closing \<Rightarrow> close_step num_vms rank s
      | Node \<Rightarrow> Some (set_pc rank (Exited 0) s)
      | _ \<Rightarrow> None)"

lemmas rank_step_defs = rank_step_def open_step_def listen_step_def accept_step_def read_step_def
  connect_step_def send_step_def close_step_def

text \<open>
  A system call of the set-up that fails, but for \<open>connect\<close>: the process closes its sockets and ends
  with exit code 1.
\<close>

fun in_setup :: "rank_pc \<Rightarrow> bool" where
  "in_setup Opening = True"
| "in_setup Bound = True"
| "in_setup (Accepting i) = True"
| "in_setup (Reading i) = True"
| "in_setup (Connecting other) = True"
| "in_setup (Sending other) = True"
| "in_setup _ = False"

definition rank_fails :: "nat \<Rightarrow> nat \<Rightarrow> mesh \<Rightarrow> mesh option" where
  "rank_fails num_vms rank s =
     (if in_setup (ms_pcs s rank)
      then Some (set_pc rank (Exited 1)
        (s\<lparr>ms_listeners := (\<lambda>p. if ms_listeners s p = Some rank then None else ms_listeners s p)\<rparr>))
      else None)"

text \<open>A refused \<open>connect\<close>: a fresh socket and a second's sleep, and the loop goes round.\<close>

definition refused :: "nat \<Rightarrow> nat \<Rightarrow> mesh \<Rightarrow> bool" where
  "refused num_vms rank s =
     (case ms_pcs s rank of
        Connecting other \<Rightarrow> ms_listeners s (ports num_vms ! other) = None
      | _ \<Rightarrow> False)"

section \<open>Steps of the program\<close>

definition fork_step :: "nat \<Rightarrow> nat \<Rightarrow> mesh \<Rightarrow> mesh" where
  "fork_step num_vms rank s =
     set_pc rank Opening
       (s\<lparr>ms_main := (if Suc rank < num_vms then Forking (Suc rank) else Waiting),
          ms_chans := (ms_chans s)(rank := replicate (num_vms - 1) None)\<rparr>)"

fun reaped :: "rank_pc \<Rightarrow> bool" where
  "reaped (Reaped c) = True"
| "reaped _ = False"

datatype mesh_event = Progress | Retry | Fault

inductive mesh_step :: "nat \<Rightarrow> mesh_event \<Rightarrow> mesh \<Rightarrow> mesh \<Rightarrow> bool" for n where
  fork: "ms_main s = Forking k \<Longrightarrow> mesh_step n Progress s (fork_step n k s)"
| fork_fails: "ms_main s = Forking k \<Longrightarrow> mesh_step n Fault s (s\<lparr>ms_main := Returned 1\<rparr>)"
| reap: "ms_main s = Waiting \<Longrightarrow> r < n \<Longrightarrow> ms_pcs s r = Exited c \<Longrightarrow>
     mesh_step n Progress s (set_pc r (Reaped c) s)"
| finish: "ms_main s = Waiting \<Longrightarrow> (\<forall>r<n. reaped (ms_pcs s r)) \<Longrightarrow>
     mesh_step n Progress s (s\<lparr>ms_main := Returned 0\<rparr>)"
| rank: "r < n \<Longrightarrow> rank_step n r s = Some s' \<Longrightarrow> mesh_step n Progress s s'"
| retry: "r < n \<Longrightarrow> refused n r s \<Longrightarrow> mesh_step n Retry s s"
| fault: "r < n \<Longrightarrow> rank_fails n r s = Some s' \<Longrightarrow> mesh_step n Fault s s'"

inductive mesh_run :: "nat \<Rightarrow> mesh_event list \<Rightarrow> mesh \<Rightarrow> mesh \<Rightarrow> bool" for n where
  nil: "mesh_run n [] s s"
| snoc: "mesh_run n es s s' \<Longrightarrow> mesh_step n e s' s'' \<Longrightarrow> mesh_run n (es @ [e]) s s''"

inductive_cases mesh_stepE: "mesh_step n e s s'"

section \<open>Invariant\<close>

text \<open>A process that has made, and one that has used, its connection to a higher rank.\<close>

fun reached :: "rank_pc \<Rightarrow> nat \<Rightarrow> bool" where
  "reached (Connecting j) r = (r < j)"
| "reached (Sending j) r = (r \<le> j)"
| "reached Closing r = True"
| "reached Node r = True"
| "reached (Exited c) r = True"
| "reached (Reaped c) r = True"
| "reached _ r = False"

fun told :: "rank_pc \<Rightarrow> nat \<Rightarrow> bool" where
  "told (Sending j) r = (r < j)"
| "told pc r = reached pc r"

fun faulty :: "rank_pc \<Rightarrow> bool" where
  "faulty (Exited c) = (c \<noteq> 0)"
| "faulty (Reaped c) = (c \<noteq> 0)"
| "faulty _ = False"

fun listening :: "rank_pc \<Rightarrow> bool" where
  "listening (Accepting i) = True"
| "listening (Reading i) = True"
| "listening (Connecting i) = True"
| "listening (Sending i) = True"
| "listening Closing = True"
| "listening _ = False"

text \<open>How many of the connections are in the table of channels.\<close>

fun entered :: "rank_pc \<Rightarrow> nat \<Rightarrow> nat" where
  "entered (Reading i) r = i"
| "entered pc r = accepted_by pc r"

text \<open>Where the loops can stand.\<close>

fun pc_range :: "nat \<Rightarrow> nat \<Rightarrow> nat \<Rightarrow> rank_pc \<Rightarrow> bool" where
  "pc_range n r arrived (Accepting i) = (i < r \<and> i \<le> arrived)"
| "pc_range n r arrived (Reading i) = (i < arrived)"
| "pc_range n r arrived (Connecting j) = (r < j \<and> j < n \<and> arrived = r)"
| "pc_range n r arrived (Sending j) = (r < j \<and> j < n \<and> arrived = r)"
| "pc_range n r arrived Unborn = (arrived = 0)"
| "pc_range n r arrived Opening = (arrived = 0)"
| "pc_range n r arrived Bound = (arrived = 0)"
| "pc_range n r arrived pc = (arrived = r)"

definition table :: "nat \<Rightarrow> nat \<Rightarrow> rank_pc \<Rightarrow> nat list \<Rightarrow> nat \<Rightarrow> nat option" where
  "table n r pc arrived k =
     (if k < r then if k \<in> set (take (entered pc r) arrived) then Some k else None
      else if reached pc (Suc k) then Some (Suc k) else None)"

definition arrivals_ok :: "nat \<Rightarrow> mesh \<Rightarrow> bool" where
  "arrivals_ok n s \<longleftrightarrow>
     (\<forall>r<n. distinct (ms_conns s r) \<and> (\<forall>q\<in>set (ms_conns s r). q < r \<and> reached (ms_pcs s q) r)) \<and>
     (\<forall>r<n. \<forall>q<r. reached (ms_pcs s q) r \<longrightarrow> \<not> faulty (ms_pcs s q) \<longrightarrow> q \<in> set (ms_conns s r))"

definition listeners_ok :: "nat \<Rightarrow> mesh \<Rightarrow> bool" where
  "listeners_ok n s \<longleftrightarrow>
     (\<forall>p l. ms_listeners s p = Some l \<longleftrightarrow> l < n \<and> p = min_port + l \<and> listening (ms_pcs s l))"

definition wires_ok :: "nat \<Rightarrow> mesh \<Rightarrow> bool" where
  "wires_ok n s \<longleftrightarrow>
     (\<forall>r<n. \<forall>q<r. ms_wire s q r \<in> {[], rank_bytes q} \<and>
        (\<not> told (ms_pcs s q) r \<longrightarrow> ms_wire s q r = []) \<and>
        (told (ms_pcs s q) r \<longrightarrow> \<not> faulty (ms_pcs s q) \<longrightarrow> ms_wire s q r = rank_bytes q))"

definition tables_ok :: "nat \<Rightarrow> mesh \<Rightarrow> bool" where
  "tables_ok n s \<longleftrightarrow>
     (\<forall>r<n. \<not> faulty (ms_pcs s r) \<longrightarrow>
        pc_range n r (length (ms_conns s r)) (ms_pcs s r) \<and>
        (ms_pcs s r \<noteq> Unborn \<longrightarrow>
           ms_chans s r = map (table n r (ms_pcs s r) (ms_conns s r)) [0..<n - 1]))"

definition main_ok :: "nat \<Rightarrow> mesh \<Rightarrow> bool" where
  "main_ok n s \<longleftrightarrow>
     (case ms_main s of
        Forking k \<Rightarrow> k < n \<and> (\<forall>r<n. ms_pcs s r = Unborn \<longleftrightarrow> k \<le> r)
      | Waiting \<Rightarrow> (\<forall>r<n. ms_pcs s r \<noteq> Unborn)
      | Returned c \<Rightarrow> c = 0 \<longrightarrow> (\<forall>r<n. reaped (ms_pcs s r)))"

definition mesh_ok :: "nat \<Rightarrow> mesh \<Rightarrow> bool" where
  "mesh_ok n s \<longleftrightarrow> arrivals_ok n s \<and> listeners_ok n s \<and> wires_ok n s \<and> tables_ok n s \<and> main_ok n s"

lemmas mesh_ok_defs = arrivals_ok_def listeners_ok_def wires_ok_def tables_ok_def main_ok_def

lemma ports_nth [simp]: "r < n \<Longrightarrow> ports n ! r = min_port + r"
  by (simp add: ports_def)

lemma pcs_set_pc [simp]: "ms_pcs (set_pc r pc s) = (ms_pcs s)(r := pc)"
  and other_set_pc [simp]: "ms_main (set_pc r pc s) = ms_main s" "ms_chans (set_pc r pc s) = ms_chans s"
    "ms_listeners (set_pc r pc s) = ms_listeners s" "ms_conns (set_pc r pc s) = ms_conns s"
    "ms_wire (set_pc r pc s) = ms_wire s"
  by (simp_all add: set_pc_def)

lemma told_reached: "told pc r \<Longrightarrow> reached pc r"
  by (cases pc) auto

lemma entered_le: "pc_range n r m pc \<Longrightarrow> entered pc r \<le> m"
  by (cases pc) auto

text \<open>Connections from distinct lower ranks: a full list holds every one of them.\<close>

lemma full_arrivals:
  assumes "distinct (c :: nat list)" "\<forall>q\<in>set c. q < r"
  shows "length c \<le> r" "length c = r \<Longrightarrow> set c = {0..<r}"
proof -
  have sub: "set c \<subseteq> {0..<r}" using assms(2) by auto
  have card: "card (set c) = length c" using assms(1) by (rule distinct_card)
  show "length c \<le> r" using card_mono [OF _ sub] card by simp
  show "set c = {0..<r}" if "length c = r"
    using card_subset_eq [OF _ sub] card that by simp
qed

lemma rank_bytes_length [simp]: "length (rank_bytes q) = 4"
  by (simp add: rank_bytes_def)

lemma rank_bytes_not_Nil [simp]: "rank_bytes q \<noteq> []"
  by (simp add: rank_bytes_def numeral_eq_Suc)

lemma sint_small_rank: "q < 2 ^ 31 \<Longrightarrow> sint (word_of_nat q :: u32) = int q"
proof -
  assume q: "q < 2 ^ 31"
  have "sint (word_of_nat q :: u32) = signed_take_bit 31 (int q)"
    by (simp add: signed_of_nat)
  also have "\<dots> = int q" using q by (intro signed_take_bit_int_eq_self) auto
  finally show ?thesis .
qed

lemma other_rank_of_bytes: "q < 2 ^ 31 \<Longrightarrow> other_rank_of (rank_bytes q) = Some (int q)"
  by (simp add: other_rank_of_def read_rank_whole rank_bytes_def sint_small_rank)

lemma other_rank_of_Nil [simp]: "other_rank_of [] = None"
  by (simp add: other_rank_of_def read_rank.simps [of 0])

lemma mesh_ok_new: "mesh_ok n (new_mesh n)"
  by (simp add: mesh_ok_def mesh_ok_defs new_mesh_def)

section \<open>Every step keeps it\<close>

lemma arrivals_okD:
  assumes "arrivals_ok n s" "j < n"
  shows "distinct (ms_conns s j)"
    "q \<in> set (ms_conns s j) \<Longrightarrow> q < j" "q \<in> set (ms_conns s j) \<Longrightarrow> reached (ms_pcs s q) j"
    "q < j \<Longrightarrow> reached (ms_pcs s q) j \<Longrightarrow> \<not> faulty (ms_pcs s q) \<Longrightarrow> q \<in> set (ms_conns s j)"
  using assms unfolding arrivals_ok_def by blast+

lemma wires_okD:
  assumes "wires_ok n s" "q < j" "j < n"
  shows "ms_wire s q j = [] \<or> ms_wire s q j = rank_bytes q"
    "\<not> told (ms_pcs s q) j \<Longrightarrow> ms_wire s q j = []"
    "told (ms_pcs s q) j \<Longrightarrow> \<not> faulty (ms_pcs s q) \<Longrightarrow> ms_wire s q j = rank_bytes q"
  using assms unfolding wires_ok_def by blast+

text \<open>
  What a step of one process that makes no connection has to keep. The connections to higher ranks
  stand as they stood, unless the process failed.
\<close>

lemma mesh_ok_change:
  assumes ok: "mesh_ok n s" and r: "r < n"
    and s': "ms_pcs s' = (ms_pcs s)(r := pc)" "ms_main s' = ms_main s" "ms_conns s' = ms_conns s"
      "\<And>q. q \<noteq> r \<Longrightarrow> ms_chans s' q = ms_chans s q"
    and reached: "\<And>j. r < j \<Longrightarrow> j < n \<Longrightarrow> reached (ms_pcs s r) j \<Longrightarrow> reached pc j"
      "\<And>j. r < j \<Longrightarrow> j < n \<Longrightarrow> reached pc j \<Longrightarrow> \<not> faulty pc \<Longrightarrow> reached (ms_pcs s r) j"
    and live: "ms_pcs s r \<noteq> Unborn" "pc \<noteq> Unborn" "\<not> reaped (ms_pcs s r)"
      "faulty (ms_pcs s r) \<Longrightarrow> faulty pc"
    and listeners: "\<And>p l. ms_listeners s' p = Some l \<longleftrightarrow>
      (if l = r then p = min_port + r \<and> listening pc else ms_listeners s p = Some l)"
    and wires: "wires_ok n s'"
    and tab: "\<not> faulty pc \<Longrightarrow> pc_range n r (length (ms_conns s r)) pc \<and>
      ms_chans s' r = map (table n r pc (ms_conns s r)) [0..<n - 1]"
  shows "mesh_ok n s'"
proof -
  have a: "arrivals_ok n s" "listeners_ok n s" "tables_ok n s" "main_ok n s"
    using ok by (simp_all add: mesh_ok_def)
  have "arrivals_ok n s'"
    unfolding arrivals_ok_def s'
  proof (intro conjI allI impI ballI)
    fix q j assume "j < n"
    note j = arrivals_okD [OF a(1) \<open>j < n\<close>]
    show "distinct (ms_conns s j)" by (rule j(1))
    { assume q: "q \<in> set (ms_conns s j)"
      show "q < j" using q by (rule j(2))
      then show "reached (((ms_pcs s)(r := pc)) q) j"
        using j(3) [OF q] \<open>j < n\<close> reached(1) [of j] by (cases "q = r") simp_all }
    assume "q < j" "reached (((ms_pcs s)(r := pc)) q) j" "\<not> faulty (((ms_pcs s)(r := pc)) q)"
    then show "q \<in> set (ms_conns s j)"
      using \<open>j < n\<close> reached(2) [of j] live(4) by (cases "q = r") (auto intro: j(4))
  qed
  moreover have "listeners_ok n s'"
    using a(2) r unfolding listeners_ok_def listeners s' by simp
  moreover have "tables_ok n s'"
    unfolding tables_ok_def s'
  proof (intro allI impI)
    fix q assume q: "q < n" "\<not> faulty (((ms_pcs s)(r := pc)) q)"
    show "pc_range n q (length (ms_conns s q)) (((ms_pcs s)(r := pc)) q) \<and>
      (((ms_pcs s)(r := pc)) q \<noteq> Unborn \<longrightarrow>
        ms_chans s' q = map (table n q (((ms_pcs s)(r := pc)) q) (ms_conns s q)) [0..<n - 1])"
      using q tab a(3) s'(4) [of q] by (cases "q = r") (simp_all add: tables_ok_def)
  qed
  moreover have "ms_main s \<noteq> Returned 0"
    using a(4) r live(3) by (auto simp: main_ok_def)
  then have "main_ok n s'"
    using a(4) live r unfolding main_ok_def s' by (simp split: main_pc.splits)
  ultimately show ?thesis using wires by (simp add: mesh_ok_def)
qed

text \<open>A process that goes on without touching wires, channels or listeners.\<close>

definition same_standing :: "nat \<Rightarrow> rank_pc \<Rightarrow> rank_pc \<Rightarrow> bool" where
  "same_standing r pc pc' \<longleftrightarrow>
     reached pc' = reached pc \<and> told pc' = told pc \<and> faulty pc' = faulty pc \<and> listening pc' = listening pc \<and>
     entered pc' r = entered pc r \<and> pc \<noteq> Unborn \<and> pc' \<noteq> Unborn \<and> \<not> reaped pc"

lemma mesh_ok_move:
  assumes ok: "mesh_ok n s" and r: "r < n" and same: "same_standing r (ms_pcs s r) pc"
    and range: "\<not> faulty pc \<Longrightarrow> pc_range n r (length (ms_conns s r)) pc"
  shows "mesh_ok n (set_pc r pc s)"
proof (rule mesh_ok_change [OF ok r])
  have "told (((ms_pcs s)(r := pc)) q) = told (ms_pcs s q)"
    "faulty (((ms_pcs s)(r := pc)) q) = faulty (ms_pcs s q)" for q
    using same by (auto simp: same_standing_def)
  then show "wires_ok n (set_pc r pc s)"
    using ok unfolding mesh_ok_def wires_ok_def pcs_set_pc other_set_pc by simp
  have "table n r pc = table n r (ms_pcs s r)"
    using same by (auto simp: same_standing_def table_def fun_eq_iff)
  then show "pc_range n r (length (ms_conns s r)) pc \<and>
    ms_chans (set_pc r pc s) r = map (table n r pc (ms_conns s r)) [0..<n - 1]" if "\<not> faulty pc"
    using range ok that r same by (simp add: mesh_ok_def tables_ok_def same_standing_def)
  show "ms_listeners (set_pc r pc s) p = Some l \<longleftrightarrow>
      (if l = r then p = min_port + r \<and> listening pc else ms_listeners s p = Some l)" for p l
    using ok r same by (auto simp: mesh_ok_def listeners_ok_def same_standing_def)
qed (use same in \<open>auto simp: same_standing_def\<close>)

lemma mesh_ok_range:
  "mesh_ok n s \<Longrightarrow> r < n \<Longrightarrow> \<not> faulty (ms_pcs s r) \<Longrightarrow>
     pc_range n r (length (ms_conns s r)) (ms_pcs s r)"
  by (simp add: mesh_ok_def tables_ok_def)

lemma open_ok:
  assumes "mesh_ok n s" "r < n" "ms_pcs s r = Opening" "open_step r s = Some s'"
  shows "mesh_ok n s'"
  using assms mesh_ok_range [OF assms(1,2)]
  by (auto simp: open_step_def same_standing_def fun_eq_iff intro!: mesh_ok_move)

lemma accept_ok:
  assumes "mesh_ok n s" "r < n" "ms_pcs s r = Accepting i" "accept_step r i s = Some s'"
  shows "mesh_ok n s'"
proof -
  have "i < length (ms_conns s r)" "s' = set_pc r (Reading i) s"
    using assms(3,4) by (auto simp: accept_step_def backlog_def split: list.splits intro: ccontr)
  then show ?thesis
    using assms(1-3) by (auto simp: same_standing_def fun_eq_iff intro!: mesh_ok_move)
qed

lemma exit_ok:
  assumes "mesh_ok n s" "r < n" "ms_pcs s r = Node"
  shows "mesh_ok n (set_pc r (Exited 0) s)"
  using assms mesh_ok_range [OF assms(1,2)]
  by (auto simp: same_standing_def fun_eq_iff intro!: mesh_ok_move)

lemma reap_ok:
  assumes "mesh_ok n s" "r < n" "ms_pcs s r = Exited c"
  shows "mesh_ok n (set_pc r (Reaped c) s)"
  using assms mesh_ok_range [OF assms(1,2)]
  by (auto simp: same_standing_def fun_eq_iff intro!: mesh_ok_move)


text \<open>The heads of the loops.\<close>

lemma after_connect_simps [simp]:
  "j < n \<Longrightarrow> reached (after_connect n k) j = (j < k)" "j < n \<Longrightarrow> told (after_connect n k) j = (j < k)"
  "\<not> faulty (after_connect n k)" "listening (after_connect n k)" "after_connect n k \<noteq> Unborn"
  "entered (after_connect n k) r = r"
  by (auto simp: after_connect_def)

lemma after_accept_simps [simp]:
  "r < j \<Longrightarrow> j < n \<Longrightarrow> \<not> reached (after_accept n r i) j" "r < j \<Longrightarrow> j < n \<Longrightarrow> \<not> told (after_accept n r i) j"
  "\<not> faulty (after_accept n r i)" "listening (after_accept n r i)" "after_accept n r i \<noteq> Unborn"
  "i \<le> r \<Longrightarrow> entered (after_accept n r i) r = i"
  by (auto simp: after_accept_def)

lemma pc_range_after_connect: "r < k \<Longrightarrow> pc_range n r r (after_connect n k)"
  by (auto simp: after_connect_def)

lemma pc_range_after_accept: "i \<le> m \<Longrightarrow> m \<le> r \<Longrightarrow> pc_range n r m (after_accept n r i)"
  using pc_range_after_connect [of r "Suc r" n] by (cases "m = r") (auto simp: after_accept_def)

lemma wires_ok_pc:
  assumes "wires_ok n s" "ms_pcs s' = (ms_pcs s)(r := pc)" "ms_wire s' = ms_wire s"
    and "\<And>j. r < j \<Longrightarrow> j < n \<Longrightarrow> told (ms_pcs s r) j \<Longrightarrow> told pc j"
      "\<And>j. r < j \<Longrightarrow> j < n \<Longrightarrow> told pc j \<Longrightarrow> \<not> faulty pc \<Longrightarrow> told (ms_pcs s r) j"
      "faulty (ms_pcs s r) \<Longrightarrow> faulty pc"
  shows "wires_ok n s'"
  unfolding wires_ok_def assms(2,3)
proof (intro allI impI conjI)
  fix q j assume "j < n" "q < j"
  note w = wires_okD [OF assms(1) \<open>q < j\<close> \<open>j < n\<close>]
  show "ms_wire s q j \<in> {[], rank_bytes q}" using w(1) by blast
  show "ms_wire s q j = []" if "\<not> told (((ms_pcs s)(r := pc)) q) j"
    using that assms(4) [of j] \<open>q < j\<close> \<open>j < n\<close> w(2)
    by (cases "q = r"; cases "told (ms_pcs s q) j") simp_all
  show "ms_wire s q j = rank_bytes q"
    if "told (((ms_pcs s)(r := pc)) q) j" "\<not> faulty (((ms_pcs s)(r := pc)) q)"
    using that assms(5) [of j] assms(6) \<open>q < j\<close> \<open>j < n\<close> w(3) by (cases "q = r") auto
qed

text \<open>Listening: the socket takes connections from now on, and the loop of accepts begins.\<close>

lemma listen_ok:
  assumes ok: "mesh_ok n s" and r: "r < n" and pc: "ms_pcs s r = Bound" and step: "listen_step n r s = Some s'"
  shows "mesh_ok n s'"
proof -
  have s': "s' = set_pc r (after_accept n r 0) (s\<lparr>ms_listeners := (ms_listeners s)(min_port + r \<mapsto> r)\<rparr>)"
    using step r by (simp add: listen_step_def)
  have none: "ms_conns s r = []" using mesh_ok_range [OF ok r] pc by simp
  show ?thesis
  proof (rule mesh_ok_change [OF ok r])
    show "ms_pcs s' = (ms_pcs s)(r := after_accept n r 0)" by (simp add: s')
    show "wires_ok n s'"
      by (rule wires_ok_pc [where s = s and r = r and pc = "after_accept n r 0"])
        (use ok in \<open>simp_all add: s' mesh_ok_def pc\<close>)
    show "ms_listeners s' p = Some l \<longleftrightarrow> (if l = r then p = min_port + r \<and> listening (after_accept n r 0)
        else ms_listeners s p = Some l)" for p l
      using ok r pc by (cases "p = min_port + r") (auto simp: s' mesh_ok_def listeners_ok_def)
    show "pc_range n r (length (ms_conns s r)) (after_accept n r 0) \<and>
      ms_chans s' r = map (table n r (after_accept n r 0) (ms_conns s r)) [0..<n - 1]"
      using ok r pc none by (auto simp: s' mesh_ok_def tables_ok_def table_def pc_range_after_accept)
  qed (auto simp: pc s')
qed

text \<open>Reading a rank: the peer of the connection is who it says it is, and the store is in bounds.\<close>

lemma read_step_ok:
  assumes ok: "mesh_ok n s" and r: "r < n" and n: "n < 2 ^ 31" and pc: "ms_pcs s r = Reading i"
    and step: "read_step n r i s = Some s'"
  shows "mesh_ok n s'"
proof -
  let ?c = "ms_conns s r" and ?q = "ms_conns s r ! i" and ?pc = "after_accept n r (Suc i)"
  have a: "arrivals_ok n s" "wires_ok n s" "tables_ok n s" using ok by (simp_all add: mesh_ok_def)
  have i: "i < length ?c" using mesh_ok_range [OF ok r] pc by simp
  then have q: "?q \<in> set ?c" "?q < r" using arrivals_okD(2) [OF a(1) r] by simp_all
  have le: "length ?c \<le> r"
    using full_arrivals(1) [of ?c r] arrivals_okD(1,2) [OF a(1) r] by blast
  have "ms_wire s ?q r = rank_bytes ?q"
    using step wires_okD(1) [OF a(2) q(2) r] by (auto simp: read_step_def)
  then have s': "s' = set_pc r ?pc (s\<lparr>ms_chans := (ms_chans s)(r := (ms_chans s r)[?q := Some ?q])\<rparr>)"
    using step other_rank_of_bytes [of ?q] q(2) r n by (simp add: read_step_def Let_def split: if_splits)
  have chans: "ms_chans s r = map (table n r (Reading i) ?c) [0..<n - 1]"
    using a(3) r pc by (simp add: tables_ok_def)
  have "(ms_chans s r)[?q := Some ?q] = map (table n r ?pc ?c) [0..<n - 1]"
  proof (rule nth_equalityI)
    fix k assume "k < length ((ms_chans s r)[?q := Some ?q])"
    then have k: "k < n - 1" by (simp add: chans)
    then have "r \<le> k \<Longrightarrow> \<not> reached ?pc (Suc k)" by simp
    then show "(ms_chans s r)[?q := Some ?q] ! k = map (table n r ?pc ?c) [0..<n - 1] ! k"
      using k i q(2) le
      by (cases "k = ?q") (auto simp: chans table_def nth_list_update take_Suc_conv_app_nth)
  qed (simp add: chans)
  show ?thesis
  proof (rule mesh_ok_change [OF ok r])
    show "ms_pcs s' = (ms_pcs s)(r := ?pc)" by (simp add: s')
    show "wires_ok n s'"
      by (rule wires_ok_pc [where s = s and r = r and pc = ?pc])
        (use a in \<open>simp_all add: s' pc\<close>)
    show "ms_listeners s' p = Some l \<longleftrightarrow> (if l = r then p = min_port + r \<and> listening ?pc
        else ms_listeners s p = Some l)" for p l
      using ok r pc by (auto simp: s' mesh_ok_def listeners_ok_def)
    show "pc_range n r (length ?c) ?pc \<and> ms_chans s' r = map (table n r ?pc ?c) [0..<n - 1]"
      using i le \<open>(ms_chans s r)[?q := Some ?q] = _\<close> by (simp add: s' pc_range_after_accept)
  qed (auto simp: pc s')
qed

text \<open>Sending the own rank over the new connection.\<close>

lemma send_step_ok:
  assumes ok: "mesh_ok n s" and r: "r < n" and pc: "ms_pcs s r = Sending j"
    and step: "send_step n r j s = Some s'"
  shows "mesh_ok n s'"
proof -
  let ?c = "ms_conns s r" and ?pc = "after_connect n (Suc j)"
  have a: "arrivals_ok n s" "wires_ok n s" "tables_ok n s" using ok by (simp_all add: mesh_ok_def)
  have j: "r < j" "j < n" "length ?c = r" using mesh_ok_range [OF ok r] pc by simp_all
  have chans: "ms_chans s r = map (table n r (Sending j) ?c) [0..<n - 1]"
    using a(3) r pc by (simp add: tables_ok_def)
  have "ms_chans s r ! (j - 1) = Some j" using j by (simp add: chans table_def)
  moreover have "ms_wire s r j = []" using wires_okD(2) [OF a(2) j(1,2)] pc by simp
  ultimately have s': "s' = set_pc r ?pc (s\<lparr>ms_wire := (ms_wire s)(r := (ms_wire s r)(j := rank_bytes r))\<rparr>)"
    using step by (simp add: send_step_def)
  have tab: "ms_chans s r = map (table n r ?pc ?c) [0..<n - 1]"
    unfolding chans by (auto simp: table_def)
  show ?thesis
  proof (rule mesh_ok_change [OF ok r])
    show "ms_pcs s' = (ms_pcs s)(r := ?pc)" by (simp add: s')
    show "wires_ok n s'"
      unfolding wires_ok_def
    proof (intro allI impI)
      fix k q assume "k < n" "q < k"
      note w = wires_okD [OF a(2) \<open>q < k\<close> \<open>k < n\<close>]
      show "ms_wire s' q k \<in> {[], rank_bytes q} \<and> (\<not> told (ms_pcs s' q) k \<longrightarrow> ms_wire s' q k = []) \<and>
        (told (ms_pcs s' q) k \<longrightarrow> \<not> faulty (ms_pcs s' q) \<longrightarrow> ms_wire s' q k = rank_bytes q)"
        using w pc \<open>k < n\<close> by (cases "q = r") (auto simp: s')
    qed
    show "ms_listeners s' p = Some l \<longleftrightarrow> (if l = r then p = min_port + r \<and> listening ?pc
        else ms_listeners s p = Some l)" for p l
      using ok r pc by (auto simp: s' mesh_ok_def listeners_ok_def)
    show "pc_range n r (length ?c) ?pc \<and> ms_chans s' r = map (table n r ?pc ?c) [0..<n - 1]"
      using j by (simp add: s' tab pc_range_after_connect)
  qed (auto simp: pc s')
qed

lemma close_ok:
  assumes ok: "mesh_ok n s" and r: "r < n" and pc: "ms_pcs s r = Closing"
    and step: "close_step n r s = Some s'"
  shows "mesh_ok n s'"
proof -
  have s': "s' = set_pc r Node (s\<lparr>ms_listeners := (ms_listeners s)(min_port + r := None)\<rparr>)"
    using step r by (simp add: close_step_def)
  show ?thesis
  proof (rule mesh_ok_change [OF ok r])
    show "ms_pcs s' = (ms_pcs s)(r := Node)" by (simp add: s')
    show "wires_ok n s'"
      by (rule wires_ok_pc [where s = s and r = r and pc = Node])
        (use ok in \<open>simp_all add: s' mesh_ok_def pc\<close>)
    show "ms_listeners s' p = Some l \<longleftrightarrow> (if l = r then p = min_port + r \<and> listening Node
        else ms_listeners s p = Some l)" for p l
      using ok r pc by (cases "p = min_port + r") (auto simp: s' mesh_ok_def listeners_ok_def)
    have "table n r Node = table n r Closing" by (simp add: table_def fun_eq_iff)
    then show "pc_range n r (length (ms_conns s r)) Node \<and>
      ms_chans s' r = map (table n r Node (ms_conns s r)) [0..<n - 1]"
      using ok r pc by (auto simp: s' mesh_ok_def tables_ok_def)
  qed (auto simp: pc s')
qed

lemma in_setupD: "in_setup pc \<Longrightarrow> \<not> reaped pc \<and> pc \<noteq> Unborn"
  by (cases pc) auto

lemma rank_fails_ok:
  assumes ok: "mesh_ok n s" and r: "r < n" and step: "rank_fails n r s = Some s'"
  shows "mesh_ok n s'"
proof -
  have early: "in_setup (ms_pcs s r)"
    and s': "s' = set_pc r (Exited 1)
      (s\<lparr>ms_listeners := (\<lambda>p. if ms_listeners s p = Some r then None else ms_listeners s p)\<rparr>)"
    using step by (auto simp: rank_fails_def split: if_splits)
  show ?thesis
  proof (rule mesh_ok_change [OF ok r])
    show "ms_pcs s' = (ms_pcs s)(r := Exited 1)" by (simp add: s')
    show "wires_ok n s'"
      by (rule wires_ok_pc [where s = s and r = r and pc = "Exited 1"])
        (use ok in \<open>simp_all add: s' mesh_ok_def\<close>)
    show "ms_listeners s' p = Some l \<longleftrightarrow> (if l = r then p = min_port + r \<and> listening (Exited 1)
        else ms_listeners s p = Some l)" for p l
      by (simp add: s')
  qed (use in_setupD [OF early] in \<open>simp_all add: s'\<close>)
qed

text \<open>
  A connection: the listener is the process of that rank, and it has not had one from this process.
\<close>

lemma table_arrival:
  assumes "entered pc l \<le> length c"
  shows "table n l pc (c @ [r]) = table n l pc c"
  using assms by (simp add: table_def fun_eq_iff)

lemma connect_step_ok:
  assumes ok: "mesh_ok n s" and r: "r < n" and pc: "ms_pcs s r = Connecting j"
    and step: "connect_step n r j s = Some s'"
  shows "mesh_ok n s'"
proof -
  let ?c = "ms_conns s j"
  have a: "arrivals_ok n s" "listeners_ok n s" "wires_ok n s" "tables_ok n s" "main_ok n s"
    using ok by (simp_all add: mesh_ok_def)
  have j: "r < j" "j < n" "length (ms_conns s r) = r" using mesh_ok_range [OF ok r] pc by simp_all
  obtain l where l: "ms_listeners s (min_port + j) = Some l"
    using step j by (auto simp: connect_step_def split: option.splits)
  then have lj: "l = j" "listening (ms_pcs s j)"
    using a(2) by (auto simp: listeners_ok_def)
  have s': "s' = set_pc r (Sending j)
      (s\<lparr>ms_conns := (ms_conns s)(j := ?c @ [r]),
         ms_chans := (ms_chans s)(r := (ms_chans s r)[j - 1 := Some j])\<rparr>)"
    using step j(2) l lj(1) by (simp add: connect_step_def split: if_splits)
  have new: "r \<notin> set ?c" using arrivals_okD(3) [OF a(1) j(2), of r] pc by auto
  then have part: "length ?c \<noteq> j"
    using full_arrivals(2) [of ?c j] arrivals_okD(1,2) [OF a(1) j(2)] j(1) by auto
  have live: "\<not> faulty (ms_pcs s j)" using lj(2) by (cases "ms_pcs s j") auto
  have jr: "pc_range n j (length ?c) (ms_pcs s j)" using mesh_ok_range [OF ok j(2) live] .
  have jpc: "pc_range n j (Suc (length ?c)) (ms_pcs s j)"
    using jr lj(2) part by (cases "ms_pcs s j") auto
  have chans: "ms_chans s r = map (table n r (Connecting j) (ms_conns s r)) [0..<n - 1]"
    using a(4) r pc by (simp add: tables_ok_def)
  have tab: "(ms_chans s r)[j - 1 := Some j] = map (table n r (Sending j) (ms_conns s r)) [0..<n - 1]"
    using j by (intro nth_equalityI) (auto simp: chans table_def nth_list_update)
  have "arrivals_ok n s'"
    unfolding arrivals_ok_def
  proof (intro conjI allI impI ballI)
    fix q k assume "k < n"
    note k = arrivals_okD [OF a(1) \<open>k < n\<close>]
    show "distinct (ms_conns s' k)" using k(1) new by (auto simp: s')
    { assume q: "q \<in> set (ms_conns s' k)"
      show "q < k" using q k(2) j(1) by (auto simp: s' split: if_splits)
      show "reached (ms_pcs s' q) k" using q k(3) [of q] pc by (auto simp: s' split: if_splits) }
    assume "q < k" "reached (ms_pcs s' q) k" "\<not> faulty (ms_pcs s' q)"
    then show "q \<in> set (ms_conns s' k)"
      using k(4) [of q] pc by (cases "q = r"; cases "k = j") (auto simp: s')
  qed
  moreover have "listeners_ok n s'"
    using a(2) r pc unfolding listeners_ok_def by (simp add: s')
  moreover have "wires_ok n s'"
    by (rule wires_ok_pc [where s = s and r = r and pc = "Sending j"]) (use a in \<open>simp_all add: s' pc\<close>)
  moreover have "tables_ok n s'"
    unfolding tables_ok_def
  proof (intro allI impI)
    fix q assume q: "q < n" "\<not> faulty (ms_pcs s' q)"
    show "pc_range n q (length (ms_conns s' q)) (ms_pcs s' q) \<and> (ms_pcs s' q \<noteq> Unborn \<longrightarrow>
        ms_chans s' q = map (table n q (ms_pcs s' q) (ms_conns s' q)) [0..<n - 1])"
      using q a(4) j jpc tab table_arrival [OF entered_le [OF jr], of n r]
      by (cases "q = r"; cases "q = j") (simp_all add: s' tables_ok_def)
  qed
  moreover have "main_ok n s'"
    using a(5) r pc unfolding main_ok_def by (auto simp: s' split: main_pc.splits)
  ultimately show ?thesis by (simp add: mesh_ok_def)
qed

lemma fork_ok:
  assumes ok: "mesh_ok n s" and k: "ms_main s = Forking k"
  shows "mesh_ok n (fork_step n k s)"
proof -
  have a: "arrivals_ok n s" "listeners_ok n s" "wires_ok n s" "tables_ok n s" "main_ok n s"
    using ok by (simp_all add: mesh_ok_def)
  have kn: "k < n" "ms_pcs s k = Unborn" using a(5) k by (auto simp: main_ok_def)
  have none: "ms_conns s k = []" using mesh_ok_range [OF ok kn(1)] kn(2) by simp
  let ?s = "fork_step n k s"
  have pcs: "ms_pcs ?s = (ms_pcs s)(k := Opening)" by (simp add: fork_step_def)
  have "arrivals_ok n ?s"
    unfolding arrivals_ok_def
  proof (intro conjI allI impI ballI)
    fix q j assume "j < n"
    note j = arrivals_okD [OF a(1) \<open>j < n\<close>]
    show "distinct (ms_conns ?s j)" using j(1) by (simp add: fork_step_def)
    { assume q: "q \<in> set (ms_conns ?s j)"
      show "q < j" using q j(2) by (simp add: fork_step_def)
      show "reached (ms_pcs ?s q) j" using q j(3) [of q] kn by (auto simp: fork_step_def) }
    assume "q < j" "reached (ms_pcs ?s q) j" "\<not> faulty (ms_pcs ?s q)"
    then show "q \<in> set (ms_conns ?s j)"
      using j(4) [of q] kn by (cases "q = k") (auto simp: fork_step_def)
  qed
  moreover have "listeners_ok n ?s"
    using a(2) kn unfolding listeners_ok_def by (simp add: fork_step_def)
  moreover have "wires_ok n ?s"
    by (rule wires_ok_pc [where s = s and r = k and pc = Opening])
      (use a kn in \<open>simp_all add: fork_step_def\<close>)
  moreover have "tables_ok n ?s"
    unfolding tables_ok_def
  proof (intro allI impI)
    fix q assume q: "q < n" "\<not> faulty (ms_pcs ?s q)"
    show "pc_range n q (length (ms_conns ?s q)) (ms_pcs ?s q) \<and> (ms_pcs ?s q \<noteq> Unborn \<longrightarrow>
        ms_chans ?s q = map (table n q (ms_pcs ?s q) (ms_conns ?s q)) [0..<n - 1])"
      using q a(4) none
      by (cases "q = k") (auto simp: fork_step_def tables_ok_def table_def intro!: nth_equalityI)
  qed
  moreover have "main_ok n ?s"
    using a(5) kn k unfolding main_ok_def by (auto simp: fork_step_def)
  ultimately show ?thesis by (simp add: mesh_ok_def)
qed

theorem mesh_step_ok:
  assumes step: "mesh_step n e s s'" and n: "n < 2 ^ 31" and ok: "mesh_ok n s"
  shows "mesh_ok n s'"
  using step
proof cases
  case (fork k)
  then show ?thesis using fork_ok [OF ok] by simp
next
  case (fork_fails k)
  then show ?thesis
    using ok by (simp add: mesh_ok_def mesh_ok_defs)
next
  case (reap r c)
  then show ?thesis using reap_ok [OF ok] by simp
next
  case finish
  then show ?thesis using ok by (simp add: mesh_ok_def mesh_ok_defs)
next
  case (rank r)
  then show ?thesis
    using open_ok [OF ok] listen_ok [OF ok] accept_ok [OF ok] read_step_ok [OF ok _ n]
      connect_step_ok [OF ok] send_step_ok [OF ok] close_ok [OF ok] exit_ok [OF ok]
    by (auto simp: rank_step_def split: rank_pc.splits)
next
  case (retry r)
  then show ?thesis using ok by simp
next
  case (fault r)
  then show ?thesis using rank_fails_ok [OF ok] by simp
qed

lemma mesh_run_ok: "mesh_run n es s s' \<Longrightarrow> n < 2 ^ 31 \<Longrightarrow> mesh_ok n s \<Longrightarrow> mesh_ok n s'"
  by (induction rule: mesh_run.induct) (auto intro: mesh_step_ok)

section \<open>The table of channels\<close>

lemma mesh_run_new_ok: "mesh_run n es (new_mesh n) s \<Longrightarrow> n < 2 ^ 31 \<Longrightarrow> mesh_ok n s"
  using mesh_run_ok mesh_ok_new by blast

lemma all_arrived:
  assumes ok: "mesh_ok n s" and r: "r < n" and full: "length (ms_conns s r) = r"
  shows "set (ms_conns s r) = {0..<r}"
  using full_arrivals(2) [of "ms_conns s r" r] arrivals_okD(1,2) [OF _ r] ok full
  by (auto simp: mesh_ok_def)

lemma arrivals_le: "mesh_ok n s \<Longrightarrow> r < n \<Longrightarrow> length (ms_conns s r) \<le> r"
  using full_arrivals(1) arrivals_okD(1,2) unfolding mesh_ok_def by blast

lemma setup_channels_length [simp]: "length (setup_channels n rank accepted) = n - 1"
  by (simp add: setup_channels_def fold_set_length)

lemma node_channels:
  assumes ok: "mesh_ok n s" and r: "r < n" and pc: "ms_pcs s r = Node"
  shows "mset (ms_conns s r) = mset [0..<r]" "ms_chans s r = setup_channels n r (ms_conns s r)"
    "\<forall>i<n - 1. ms_chans s r ! i = Some (channel_peer r i)"
proof -
  have full: "length (ms_conns s r) = r" using mesh_ok_range [OF ok r] pc by simp
  note all = all_arrived [OF ok r full]
  have "distinct (ms_conns s r)" using ok arrivals_okD(1) [OF _ r] by (simp add: mesh_ok_def)
  then show m: "mset (ms_conns s r) = mset [0..<r]"
    using all by (simp flip: mset_set_set)
  have chans: "ms_chans s r = map (table n r Node (ms_conns s r)) [0..<n - 1]"
    using ok r pc by (simp add: mesh_ok_def tables_ok_def)
  show *: "\<forall>i<n - 1. ms_chans s r ! i = Some (channel_peer r i)"
    using all full by (auto simp: chans table_def channel_peer_def)
  show "ms_chans s r = setup_channels n r (ms_conns s r)"
    using * setup_channels_peer [OF r m] by (intro nth_equalityI) (simp_all add: chans)
qed

text \<open>Schedules: at each place the rank that takes a step, or \<open>n\<close> for a fork.\<close>

fun mesh_exec :: "nat \<Rightarrow> nat list \<Rightarrow> mesh \<Rightarrow> mesh option" where
  "mesh_exec n [] s = Some s"
| "mesh_exec n (k # ks) s =
     (case (if k < n then rank_step n k s
            else case ms_main s of Forking r \<Rightarrow> Some (fork_step n r s) | _ \<Rightarrow> None) of
        None \<Rightarrow> None
      | Some s' \<Rightarrow> mesh_exec n ks s')"

lemma mesh_run_Cons: "mesh_run n es s' s'' \<Longrightarrow> mesh_step n e s s' \<Longrightarrow> mesh_run n (e # es) s s''"
proof (induction rule: mesh_run.induct)
  case (nil s')
  then show ?case using mesh_run.snoc [OF mesh_run.nil] by fastforce
next
  case (snoc es s1 s2 e' s3)
  then show ?case using mesh_run.snoc [of n "e # es" s s2 e' s3] by simp
qed

lemma mesh_exec_run:
  "mesh_exec n ks s = Some s' \<Longrightarrow> mesh_run n (replicate (length ks) Progress) s s'"
proof (induction ks arbitrary: s)
  case Nil
  then show ?case by (simp add: mesh_run.nil)
next
  case (Cons k ks)
  then obtain s1 where "mesh_step n Progress s s1" "mesh_exec n ks s1 = Some s'"
    by (auto intro: mesh_step.rank mesh_step.fork split: option.splits if_splits main_pc.splits)
  then show ?case using mesh_run_Cons [OF Cons.IH] by simp
qed

lemma mesh_exec_witness:
  "map_option (\<lambda>s. ms_pcs s 1) (mesh_exec 2 [2, 2, 0, 0, 1, 1, 0, 1, 0, 1, 1] (new_mesh 2)) = Some Node"
  "map_option (\<lambda>s. ms_pcs s 1) (mesh_exec 3 [3, 3] (new_mesh 3)) = Some Opening"
  using other_rank_of_bytes [of 0]
  by (simp_all add: rank_step_defs fork_step_def new_mesh_def after_accept_def after_connect_def backlog_def)

text \<open>C28: whatever fails and in whatever order the connections come, a process that enters \<open>runNode\<close> has
  accepted exactly one connection from every lower rank, and its table of channels is the one that
  \<open>logic.cpp\<close> indexes: entry \<open>i\<close> is the socket whose other end is the \<open>i\<close>th of the other ranks.
\<close>

theorem node_has_its_channels:
  assumes "mesh_run n es (new_mesh n) s" "n < 2 ^ 31" "r < n" "ms_pcs s r = Node"
  shows "mset (ms_conns s r) = mset [0..<r] \<and> ms_chans s r = setup_channels n r (ms_conns s r) \<and>
    (\<forall>i<n - 1. ms_chans s r ! i = Some (channel_peer r i))"
  using node_channels [OF mesh_run_new_ok [OF assms(1,2)] assms(3,4)] by blast

theorem node_has_its_channels_witness:
  "\<exists>es s. mesh_run 2 es (new_mesh 2) s \<and> ms_pcs s 1 = Node \<and> ms_chans s 1 ! 0 = Some 0"
proof -
  obtain s where s: "mesh_exec 2 [2, 2, 0, 0, 1, 1, 0, 1, 0, 1, 1] (new_mesh 2) = Some s" "ms_pcs s 1 = Node"
    using mesh_exec_witness(1) by blast
  note run = mesh_exec_run [OF s(1)]
  show ?thesis
    using node_has_its_channels [OF run _ _ s(2)] run s(2) by (auto simp: channel_peer_def)
qed

section \<open>A process that fails early\<close>

text \<open>A process that ended before it listened, and to which nobody is connected.\<close>

definition missing :: "nat \<Rightarrow> mesh \<Rightarrow> nat \<Rightarrow> bool" where
  "missing n s r \<longleftrightarrow> faulty (ms_pcs s r) \<and> ms_conns s r = [] \<and> (\<forall>q<n. r \<notin> set (ms_conns s q))"

lemma rank_step_frame:
  assumes "rank_step n q s = Some s'" "faulty (ms_pcs s r)"
  shows "ms_pcs s' r = ms_pcs s r"
  using assms
  by (cases "q = r"; cases "ms_pcs s q")
    (auto simp: rank_step_defs Let_def split: option.splits list.splits if_splits)

lemma rank_step_conns:
  assumes "rank_step n q s = Some s'"
  shows "ms_conns s' = ms_conns s \<or> (\<exists>j l. ms_pcs s q = Connecting j \<and>
    ms_listeners s (ports n ! j) = Some l \<and> ms_conns s' = (ms_conns s)(l := ms_conns s l @ [q]))"
  using assms
  by (cases "ms_pcs s q")
    (auto simp: rank_step_defs Let_def split: option.splits list.splits if_splits)

lemma missing_step:
  assumes "mesh_step n e s s'" "mesh_ok n s" "r < n" "missing n s r"
  shows "missing n s' r"
  using assms(1)
proof cases
  case (fork k)
  then have "ms_pcs s k = Unborn" using assms(2) by (auto simp: mesh_ok_def main_ok_def)
  then show ?thesis using assms(4) fork by (auto simp: missing_def fork_step_def)
next
  case (rank q)
  have "ms_conns s' r = [] \<and> (\<forall>k<n. r \<notin> set (ms_conns s' k))"
    using rank_step_conns [OF rank(3)]
  proof (elim disjE exE conjE)
    fix j l assume "ms_pcs s q = Connecting j" "ms_listeners s (ports n ! j) = Some l"
      "ms_conns s' = (ms_conns s)(l := ms_conns s l @ [q])"
    moreover from this have "listening (ms_pcs s l)"
      using assms(2) by (auto simp: mesh_ok_def listeners_ok_def)
    then have "l \<noteq> r" using assms(4) by (cases "ms_pcs s l") (auto simp: missing_def)
    ultimately show ?thesis using assms(4) by (auto simp: missing_def)
  qed (use assms(4) in \<open>simp add: missing_def\<close>)
  then show ?thesis using assms(4) rank_step_frame [OF rank(3), of r] by (simp add: missing_def)
next
  case (fault q)
  then have "q \<noteq> r" using assms(4) by (cases "ms_pcs s r") (auto simp: missing_def rank_fails_def)
  then show ?thesis using fault assms(4) by (auto simp: missing_def rank_fails_def split: if_splits)
qed (use assms(4) in \<open>auto simp: missing_def\<close>)

lemma missing_run:
  "mesh_run n es s s' \<Longrightarrow> n < 2 ^ 31 \<Longrightarrow> mesh_ok n s \<Longrightarrow> r < n \<Longrightarrow> missing n s r \<Longrightarrow> missing n s' r"
proof (induction rule: mesh_run.induct)
  case (snoc es s s' e s'')
  then show ?case using missing_step [OF snoc.hyps(2) mesh_run_ok] by blast
qed

lemma missing_blocks:
  assumes ok: "mesh_ok n s" and r: "r < n" and gone: "missing n s r" and q: "q < n" "q \<noteq> r"
  shows "ms_pcs s q \<notin> {Node, Exited 0, Reaped 0}"
proof
  assume pc: "ms_pcs s q \<in> {Node, Exited 0, Reaped 0}"
  have a: "arrivals_ok n s" using ok by (simp add: mesh_ok_def)
  show False
  proof (cases "q < r")
    case True
    then show False using arrivals_okD(4) [OF a r True] pc gone by (auto simp: missing_def)
  next
    case False
    then have "r < q" using q(2) by simp
    moreover have "length (ms_conns s q) = q" using mesh_ok_range [OF ok q(1)] pc by auto
    ultimately show False using all_arrived [OF ok q(1)] gone q(1) by (auto simp: missing_def)
  qed
qed

text \<open>C29: if a process fails before it listens (its port is taken, say), no other process ever enters
  \<open>runNode\<close>: the lower ranks retry their \<open>connect\<close> and the higher ranks wait in \<open>accept\<close>, unless
  they fail as well.
\<close>

theorem one_failed_bind_stops_all:
  assumes "mesh_run n es (new_mesh n) s" "n < 2 ^ 31" "r < n" "ms_pcs s r \<in> {Opening, Bound}"
    and "rank_fails n r s = Some s'" "mesh_run n es' s' s''" "q < n" "q \<noteq> r"
  shows "ms_pcs s'' q \<notin> {Node, Exited 0, Reaped 0}"
proof -
  have ok: "mesh_ok n s" using assms(1,2) by (rule mesh_run_new_ok)
  then have ok': "mesh_ok n s'" using assms(3,5) by (blast intro: rank_fails_ok)
  have "ms_conns s r = []" using mesh_ok_range [OF ok assms(3)] assms(4) by auto
  moreover have "r \<notin> set (ms_conns s k)" if "k < n" for k
    using arrivals_okD(3) [OF _ that, of s r] ok assms(4) by (auto simp: mesh_ok_def)
  ultimately have "missing n s' r"
    using assms(5) by (auto simp: missing_def rank_fails_def split: if_splits)
  then show ?thesis
    using missing_blocks [OF mesh_run_ok [OF assms(6,2) ok'] assms(3) _ assms(7,8)]
      missing_run [OF assms(6,2) ok' assms(3)] by blast
qed

theorem one_failed_bind_stops_all_witness:
  "\<exists>es s s'. mesh_run 3 es (new_mesh 3) s \<and> rank_fails 3 1 s = Some s' \<and>
     (\<forall>es' s''. mesh_run 3 es' s' s'' \<longrightarrow> ms_pcs s'' 0 \<noteq> Node \<and> ms_pcs s'' 2 \<noteq> Node)"
proof -
  obtain s where s: "mesh_exec 3 [3, 3] (new_mesh 3) = Some s" "ms_pcs s 1 = Opening"
    using mesh_exec_witness(2) by blast
  note run = mesh_exec_run [OF s(1)]
  obtain s' where s': "rank_fails 3 1 s = Some s'" using s(2) by (simp add: rank_fails_def)
  have "ms_pcs s'' q \<noteq> Node" if "mesh_run 3 es' s' s''" "q < 3" "q \<noteq> 1" for es' s'' q
    using one_failed_bind_stops_all [OF run _ _ _ s' that] s(2) by simp
  then have "\<forall>es' s''. mesh_run 3 es' s' s'' \<longrightarrow> ms_pcs s'' 0 \<noteq> Node \<and> ms_pcs s'' 2 \<noteq> Node" by simp
  then show ?thesis using run s' by blast
qed

section \<open>Progress\<close>

text \<open>How many system calls are left to a process, and to the program.\<close>

fun calls_left :: "nat \<Rightarrow> nat \<Rightarrow> rank_pc \<Rightarrow> nat" where
  "calls_left n r Unborn = 2 * (n - 1) + 5"
| "calls_left n r Opening = 2 * (n - 1) + 5"
| "calls_left n r Bound = 2 * (n - 1) + 4"
| "calls_left n r (Accepting i) = 2 * (n - 1 - i) + 3"
| "calls_left n r (Reading i) = 2 * (n - 1 - i) + 2"
| "calls_left n r (Connecting j) = 2 * (n - j) + 3"
| "calls_left n r (Sending j) = 2 * (n - j) + 2"
| "calls_left n r Closing = 3"
| "calls_left n r Node = 2"
| "calls_left n r (Exited c) = 1"
| "calls_left n r (Reaped c) = 0"

fun main_left :: "nat \<Rightarrow> main_pc \<Rightarrow> nat" where
  "main_left n (Forking k) = n - k + 1"
| "main_left n Waiting = 1"
| "main_left n (Returned c) = 0"

definition mesh_left :: "nat \<Rightarrow> mesh \<Rightarrow> nat" where
  "mesh_left n s = main_left n (ms_main s) + (\<Sum>r<n. calls_left n r (ms_pcs s r))"

lemma mesh_left_new: "mesh_left n (new_mesh n) = 2 * n ^ 2 + 4 * n + 1"
  by (cases n) (simp_all add: mesh_left_def new_mesh_def power2_eq_square algebra_simps)

lemma sum_decrease:
  assumes "r < (n :: nat)" "f r = Suc (g r)" "\<And>q. q < n \<Longrightarrow> q \<noteq> r \<Longrightarrow> f q = (g q :: nat)"
  shows "(\<Sum>q<n. f q) = Suc (\<Sum>q<n. g q)"
proof -
  have "(\<Sum>q<n. f q) = f r + (\<Sum>q\<in>{..<n} - {r}. f q)" using assms(1) by (intro sum.remove) auto
  also have "(\<Sum>q\<in>{..<n} - {r}. f q) = (\<Sum>q\<in>{..<n} - {r}. g q)" using assms(3) by (intro sum.cong) auto
  also have "f r + \<dots> = Suc (\<Sum>q<n. g q)" using assms(1,2) by (simp add: sum.remove [of "{..<n}" r g])
  finally show ?thesis .
qed

lemma calls_left_after_connect: "r < j \<Longrightarrow> j \<le> n \<Longrightarrow> calls_left n r (after_connect n j) = 2 * (n - j) + 3"
  by (auto simp: after_connect_def)

lemma calls_left_after_accept: "i \<le> r \<Longrightarrow> r < n \<Longrightarrow> calls_left n r (after_accept n r i) = 2 * (n - 1 - i) + 3"
  by (auto simp: after_accept_def calls_left_after_connect)

lemma rank_step_calls:
  assumes ok: "mesh_ok n s" and r: "r < n" and step: "rank_step n r s = Some s'" and "\<not> faulty (ms_pcs s r)"
  shows "ms_main s' = ms_main s \<and> calls_left n r (ms_pcs s r) = Suc (calls_left n r (ms_pcs s' r)) \<and>
    (\<forall>q. q \<noteq> r \<longrightarrow> ms_pcs s' q = ms_pcs s q) \<and> \<not> faulty (ms_pcs s' r)"
proof -
  show ?thesis
    using mesh_ok_range [OF ok r assms(4)] arrivals_le [OF ok r] step r
    by (cases "ms_pcs s r")
      (auto simp: rank_step_defs Let_def calls_left_after_accept calls_left_after_connect
        split: option.splits list.splits if_splits)
qed

text \<open>Runs in which no call fails.\<close>

definition mesh_fine :: "nat \<Rightarrow> mesh \<Rightarrow> bool" where
  "mesh_fine n s \<longleftrightarrow> (\<forall>r<n. \<not> faulty (ms_pcs s r)) \<and> (\<forall>c. ms_main s = Returned c \<longrightarrow> c = 0)"

lemma mesh_step_left:
  assumes step: "mesh_step n e s s'" and ok: "mesh_ok n s" and fine: "mesh_fine n s" and e: "e \<noteq> Fault"
  shows "mesh_fine n s' \<and> mesh_left n s = (if e = Progress then 1 else 0) + mesh_left n s'"
  using step
proof cases
  case (fork k)
  then have k: "k < n" "ms_pcs s k = Unborn" using ok by (auto simp: mesh_ok_def main_ok_def)
  have "(\<Sum>r<n. calls_left n r (ms_pcs s' r)) = (\<Sum>r<n. calls_left n r (ms_pcs s r))"
    using fork k by (intro sum.cong) (auto simp: fork_step_def)
  then show ?thesis using fork k fine by (auto simp: mesh_left_def mesh_fine_def fork_step_def)
next
  case (reap r c)
  have "(\<Sum>q<n. calls_left n q (ms_pcs s q)) = Suc (\<Sum>q<n. calls_left n q (ms_pcs s' q))"
    using reap by (intro sum_decrease [of r]) auto
  then show ?thesis using reap fine by (auto simp: mesh_left_def mesh_fine_def)
next
  case finish
  then show ?thesis using fine by (simp add: mesh_left_def mesh_fine_def)
next
  case (rank r)
  have r: "\<not> faulty (ms_pcs s r)" using fine rank(2) by (simp add: mesh_fine_def)
  note calls = rank_step_calls [OF ok rank(2,3) r]
  have "(\<Sum>q<n. calls_left n q (ms_pcs s q)) = Suc (\<Sum>q<n. calls_left n q (ms_pcs s' q))"
    using calls rank by (intro sum_decrease [of r]) auto
  moreover have "\<not> faulty (ms_pcs s' q)" if "q < n" for q
    using calls fine that by (cases "q = r") (auto simp: mesh_fine_def)
  ultimately show ?thesis using calls fine rank(1) by (auto simp: mesh_left_def mesh_fine_def)
qed (use fine e in auto)

text \<open>
  A process that waits waits for a process that can go on: for the lowest one that is still setting up,
  or for the one it connects to, which is not past its loop of accepts.
\<close>

definition can_step :: "nat \<Rightarrow> mesh \<Rightarrow> nat \<Rightarrow> bool" where
  "can_step n s r \<longleftrightarrow> (\<exists>s'. rank_step n r s = Some s')"

lemma lowest_can_step:
  assumes ok: "mesh_ok n s" and fine: "mesh_fine n s" and n: "n < 2 ^ 31" and r: "r < n"
    and born: "\<forall>q<n. ms_pcs s q \<noteq> Unborn"
    and pc: "in_setup (ms_pcs s r)" and low: "\<forall>q<r. \<not> in_setup (ms_pcs s q)"
  shows "\<exists>q<n. can_step n s q"
proof -
  have a: "arrivals_ok n s" "listeners_ok n s" "wires_ok n s" "tables_ok n s"
    using ok by (simp_all add: mesh_ok_def)
  have past: "told (ms_pcs s q) r \<and> reached (ms_pcs s q) r" if "q < r" for q
  proof -
    have "\<not> in_setup (ms_pcs s q)" "ms_pcs s q \<noteq> Unborn" using low born that r by simp_all
    then show ?thesis by (cases "ms_pcs s q") simp_all
  qed
  have fault: "\<not> faulty (ms_pcs s q)" if "q < n" for q using fine that by (simp add: mesh_fine_def)
  have here: "q \<in> set (ms_conns s r)" "ms_wire s q r = rank_bytes q" if "q < r" for q
    using arrivals_okD(4) [OF a(1) r that] wires_okD(3) [OF a(3) that r] past [OF that]
      fault [of q] r that by simp_all
  have "{0..<r} \<subseteq> set (ms_conns s r)" using here(1) by (simp add: subset_iff)
  then have "card {0..<r} \<le> length (ms_conns s r)"
    by (meson List.finite_set card_length card_mono le_trans)
  then have full: "length (ms_conns s r) = r" using arrivals_le [OF ok r] by simp
  note range = mesh_ok_range [OF ok r fault [OF r]]
  show ?thesis
  proof (cases "ms_pcs s r")
    case (Accepting i)
    then have "backlog s r \<noteq> []" using range full by (simp add: backlog_def)
    then show ?thesis using Accepting r
      by (auto simp: can_step_def rank_step_def accept_step_def neq_Nil_conv)
  next
    case (Reading i)
    let ?q = "ms_conns s r ! i"
    have q: "?q < r" using Reading range arrivals_okD(2) [OF a(1) r] by simp
    have "length (ms_chans s r) = n - 1" using a(4) r Reading by (simp add: tables_ok_def)
    then have "can_step n s r"
      using Reading here(2) [OF q] other_rank_of_bytes [of ?q] q r n
      by (simp add: can_step_def rank_step_def read_step_def Let_def)
    then show ?thesis using r by blast
  next
    case (Connecting j)
    then have j: "r < j" "j < n" using range by simp_all
    have new: "r \<notin> set (ms_conns s j)" using arrivals_okD(3) [OF a(1) j(2), of r] Connecting by auto
    moreover have "length (ms_conns s j) = j \<Longrightarrow> r \<in> set (ms_conns s j)"
      using all_arrived [OF ok j(2)] j(1) by simp
    ultimately have part: "length (ms_conns s j) \<noteq> j" by blast
    show ?thesis
    proof (cases "listening (ms_pcs s j)")
      case True
      then have l: "ms_listeners s (min_port + j) = Some j" using a(2) j(2) by (simp add: listeners_ok_def)
      have "length (ms_conns s j) < j"
        using arrivals_le [OF ok j(2)] part by simp
      then have "length (backlog s j) < n - 1" using j(2) by (simp add: backlog_def)
      then have "can_step n s r"
        using Connecting l j by (simp add: can_step_def rank_step_def connect_step_def)
      then show ?thesis using r by blast
    next
      case False
      then have "ms_pcs s j = Opening \<or> ms_pcs s j = Bound"
        using born j(2) part mesh_ok_range [OF ok j(2) fault [OF j(2)]] by (cases "ms_pcs s j") auto
      then have "can_step n s j"
        by (auto simp: can_step_def rank_step_def open_step_def listen_step_def)
      then show ?thesis using j(2) by blast
    qed
  next
    case (Sending j)
    moreover have "ms_chans s r = map (table n r (Sending j) (ms_conns s r)) [0..<n - 1]"
      using r a(4) Sending by (simp add: tables_ok_def)
    moreover have "r < j" "j < n" using range Sending by simp_all
    ultimately have "ms_chans s r ! (j - 1) = Some j" by (simp add: table_def)
    then have "can_step n s r"
      using Sending by (simp add: can_step_def rank_step_def send_step_def)
    then show ?thesis using r by blast
  qed (use pc r in \<open>auto simp: can_step_def rank_step_def open_step_def listen_step_def\<close>)
qed

lemma progress_possible:
  assumes ok: "mesh_ok n s" and fine: "mesh_fine n s" and n: "n < 2 ^ 31" and main: "ms_main s \<noteq> Returned 0"
  shows "\<exists>s'. mesh_step n Progress s s'"
proof (cases "ms_main s")
  case (Forking k)
  then show ?thesis by (blast intro: mesh_step.fork)
next
  case (Returned c)
  then show ?thesis using main fine by (simp add: mesh_fine_def)
next
  case Waiting
  then have born: "\<forall>q<n. ms_pcs s q \<noteq> Unborn" using ok by (simp add: mesh_ok_def main_ok_def)
  have step: ?thesis if "q < n" "can_step n s q" for q
    using that by (auto simp: can_step_def intro: mesh_step.rank)
  show ?thesis
  proof (cases "\<exists>r<n. in_setup (ms_pcs s r)")
    case True
    define r where "r = (LEAST r. r < n \<and> in_setup (ms_pcs s r))"
    have r: "r < n" "in_setup (ms_pcs s r)"
      using LeastI_ex [OF True] by (simp_all add: r_def)
    have "\<forall>q<r. \<not> in_setup (ms_pcs s q)"
      using not_less_Least [of _ "\<lambda>r. r < n \<and> in_setup (ms_pcs s r)"] r(1) by (auto simp: r_def [symmetric])
    then show ?thesis using lowest_can_step [OF ok fine n r(1) born r(2)] step by blast
  next
    case over: False
    show ?thesis
    proof (cases "\<forall>r<n. reaped (ms_pcs s r)")
      case True
      then show ?thesis using Waiting by (blast intro: mesh_step.finish)
    next
      case False
      then obtain r where r: "r < n" "\<not> reaped (ms_pcs s r)" by blast
      then consider "can_step n s r" | c where "ms_pcs s r = Exited c"
        using over born by (cases "ms_pcs s r") (auto simp: can_step_def rank_step_def close_step_def)
      then show ?thesis using step r(1) Waiting by cases (blast intro: mesh_step.reap)+
    qed
  qed
qed

lemma run_left:
  "mesh_run n es s s' \<Longrightarrow> n < 2 ^ 31 \<Longrightarrow> mesh_ok n s \<Longrightarrow> mesh_fine n s \<Longrightarrow> Fault \<notin> set es \<Longrightarrow>
     mesh_fine n s' \<and> mesh_left n s = count_list es Progress + mesh_left n s'"
proof (induction rule: mesh_run.induct)
  case (snoc es s s' e s'')
  have "mesh_ok n s'" using mesh_run_ok snoc by blast
  then show ?case using snoc mesh_step_left [OF snoc.hyps(2)] by auto
qed simp

text \<open>C27: as long as no system call fails, the start of the simulation cannot get stuck, for any number of
  processes and in any order of their steps: until \<open>main\<close> has returned, some process can complete a
  call other than a refused \<open>connect\<close>, and \<open>2n^2 + 4n + 1\<close> such calls are all that a run can make.
\<close>

theorem mesh_never_stuck:
  assumes "mesh_run n es (new_mesh n) s" "n < 2 ^ 31" "Fault \<notin> set es"
  shows "count_list es Progress + mesh_left n s = 2 * n ^ 2 + 4 * n + 1 \<and>
    (ms_main s = Returned 0 \<longleftrightarrow> mesh_left n s = 0) \<and>
    (ms_main s \<noteq> Returned 0 \<longrightarrow> (\<exists>s'. mesh_step n Progress s s'))"
proof -
  have ok: "mesh_ok n s" using assms(1,2) by (rule mesh_run_new_ok)
  have "mesh_fine n (new_mesh n)" by (simp add: mesh_fine_def new_mesh_def)
  then have left: "mesh_fine n s" "count_list es Progress + mesh_left n s = 2 * n ^ 2 + 4 * n + 1"
    using run_left [OF assms(1,2) mesh_ok_new _ assms(3)] mesh_left_new [of n] by simp_all
  have over: "mesh_left n s = 0" if "ms_main s = Returned 0"
  proof -
    have "calls_left n r (ms_pcs s r) = 0" if "r < n" for r
      using ok \<open>ms_main s = Returned 0\<close> that
      by (cases "ms_pcs s r") (auto simp: mesh_ok_def main_ok_def)
    then show ?thesis using that by (simp add: mesh_left_def)
  qed
  have "ms_main s = Returned 0" if "mesh_left n s = 0"
    using that left(1) by (cases "ms_main s") (simp_all add: mesh_left_def mesh_fine_def)
  then show ?thesis using over left progress_possible [OF ok left(1) assms(2)] by blast
qed

theorem mesh_never_stuck_witness:
  "\<exists>es s s'. mesh_run 2 es (new_mesh 2) s \<and> length es = 11 \<and> mesh_left 2 s = 6 \<and> mesh_step 2 Progress s s'"
proof -
  obtain s where s: "mesh_exec 2 [2, 2, 0, 0, 1, 1, 0, 1, 0, 1, 1] (new_mesh 2) = Some s" "ms_pcs s 1 = Node"
    using mesh_exec_witness(1) by blast
  note run = mesh_exec_run [OF s(1)]
  have "count_list (replicate 11 Progress) Progress = 11" by (simp add: numeral_eq_Suc)
  moreover have "Fault \<notin> set (replicate 11 Progress)" by simp
  ultimately have "mesh_left 2 s = 6" "\<exists>s'. mesh_step 2 Progress s s'"
    using mesh_never_stuck [OF run] by simp_all
  moreover have "length (replicate (length [2, 2, 0, 0, 1, 1, 0, 1, 0, 1, 1 :: nat]) Progress) = 11" by simp
  ultimately show ?thesis using run by blast
qed

end
