(* ===== verification/ChatDb.thy ===== *)
theory ChatDb
  imports Prelude "HOL-Library.Multiset"
begin

text \<open>
  The database of the converse server (\<open>converse/exe_server/src/main.sql\<close>,
  \<open>database.{hpp,cpp}\<close> and the SQL texts of \<open>service/main/impl.cpp\<close>): its tables, one
  definition per statement, and transactions. The SQL texts are translated by the meaning of SQL;
  what SQL leaves open or SQLite and Argon2 compute is a parameter, the record \<open>engine\<close>.
\<close>

section \<open>Tables\<close>

text \<open>
  The columns that some statement reads; \<open>updated_at\<close> is never read, \<open>created_at\<close> only that of the
  messages. Identifiers are 64-bit integers in the database and unsigned in the requests. Foreign keys
  are declared, but SQLite does not enforce them unless it is told to, and the program does not.
\<close>

record user_row =
  u_id :: int
  u_username :: bytes
  u_password :: bytes
  u_deleted :: bool

record conversation_row =
  c_id :: int
  c_deleted :: bool

record member_row =
  cu_conversation :: int
  cu_user :: int

record message_row =
  m_id :: int
  m_conversation :: int
  m_content :: bytes
  m_user :: int
  m_read :: bool
  m_deleted :: bool
  m_created :: nat

text \<open>The counters are those of AUTOINCREMENT: the largest identifier ever used in a table.\<close>

record tables =
  users :: "user_row list"
  users_seq :: int
  conversations :: "conversation_row list"
  conversations_seq :: int
  members :: "member_row list"
  messages :: "message_row list"
  messages_seq :: int

definition no_tables :: tables where
  "no_tables = \<lparr>users = [], users_seq = 0, conversations = [], conversations_seq = 0, members = [],
     messages = [], messages_seq = 0\<rparr>"

text \<open>
  \<open>en_like\<close> is the LIKE operator of a pattern and a text; \<open>en_users\<close>, \<open>en_members\<close>,
  \<open>en_messages\<close> and \<open>en_groups\<close> give the order in which a statement without ORDER BY returns rows; \<open>en_verify\<close> is \<open>argon2i_verify\<close> of an encoding and a
  password, \<open>en_hash\<close> is \<open>argon2i_hash_encoded\<close> of a salt and a password.
\<close>

record engine =
  en_like :: "bytes \<Rightarrow> bytes \<Rightarrow> bool"
  en_users :: "user_row list \<Rightarrow> user_row list"
  en_members :: "member_row list \<Rightarrow> member_row list"
  en_messages :: "message_row list \<Rightarrow> message_row list"
  en_groups :: "(int \<times> int \<times> bytes \<times> bytes) list \<Rightarrow> (int \<times> int \<times> bytes \<times> bytes) list"
  en_verify :: "bytes \<Rightarrow> bytes \<Rightarrow> bool"
  en_hash :: "bytes \<Rightarrow> bytes \<Rightarrow> bytes option"

text \<open>What the code relies on: a query loses and invents no rows, and an encoding verifies exactly the
  password it was made from.\<close>

definition engine_ok :: "engine \<Rightarrow> bool" where
  "engine_ok en \<longleftrightarrow> (\<forall>us. mset (en_users en us) = mset us) \<and> (\<forall>cus. mset (en_members en cus) = mset cus) \<and>
     (\<forall>ms. mset (en_messages en ms) = mset ms) \<and> (\<forall>gs. mset (en_groups en gs) = mset gs) \<and>
     (\<forall>salt pwd e pwd'. en_hash en salt pwd = Some e \<longrightarrow> en_verify en e pwd' = (pwd' = pwd))"

lemma engine_order:
  assumes "engine_ok en"
  shows "set (en_users en us) = set us" "set (en_members en cus) = set cus" "set (en_messages en ms) = set ms"
    "set (en_groups en gs) = set gs"
  using assms unfolding engine_ok_def by (metis set_mset_mset)+

lemma engine_empty:
  assumes "engine_ok en"
  shows "en_members en cus = [] \<longleftrightarrow> cus = []" "en_messages en ms = [] \<longleftrightarrow> ms = []"
  using engine_order(2,3) [OF assms] by (metis set_empty)+

section \<open>Arguments\<close>

text \<open>A request's identifier as an \<open>sqlite3_int64\<close>, and back. The overload of \<open>bind_arg\<close> for
  \<open>unsigned long\<close> goes through \<open>int\<close>.\<close>

definition to_int64 :: "u64 \<Rightarrow> int" where
  "to_int64 w = sint w"

definition of_int64 :: "int \<Rightarrow> u64" where
  "of_int64 i = word_of_int i"

definition bind_unsigned :: "u64 \<Rightarrow> int" where
  "bind_unsigned w = sint (ucast w :: u32)"

text \<open>\<open>std::to_string\<close> of a signed number, and its numeric value.\<close>

definition to_string :: "int \<Rightarrow> bytes" where
  "to_string i = (if i < 0 then 45 # decimal (nat (- i)) else decimal (nat i))"

definition of_string :: "bytes \<Rightarrow> int" where
  "of_string s =
     (case s of
        [] \<Rightarrow> 0
      | b # bs \<Rightarrow> if b = 45 then - int (undecimal 0 bs) else int (undecimal 0 s))"

section \<open>Statements\<close>

definition auto_id :: "int \<Rightarrow> int option" where
  "auto_id seq = (if seq < 2 ^ 63 - 1 then Some (seq + 1) else None)"

text \<open>
  An INSERT that violates a constraint or finds no free identifier changes nothing and returns no rows:
  \<open>Db::execute\<close> throws for \<open>SQLITE_ERROR\<close> only. The result is what RETURNING gives.
\<close>

definition insert_user :: "bytes \<Rightarrow> bytes \<Rightarrow> tables \<Rightarrow> int list \<times> tables" where
  "insert_user username password t =
     (if list_ex (\<lambda>u. u_username u = username) (users t) then ([], t)
      else
        (case auto_id (users_seq t) of
           None \<Rightarrow> ([], t)
         | Some i \<Rightarrow>
             ([i], t\<lparr>users := users t @
                [\<lparr>u_id = i, u_username = username, u_password = password, u_deleted = False\<rparr>], users_seq := i\<rparr>)))"

definition select_login :: "engine \<Rightarrow> bytes \<Rightarrow> tables \<Rightarrow> (int \<times> bytes) list" where
  "select_login en username t =
     map (\<lambda>u. (u_id u, u_password u))
       (en_users en (filter (\<lambda>u. u_username u = username \<and> \<not> u_deleted u) (users t)))"

definition select_password :: "engine \<Rightarrow> int \<Rightarrow> tables \<Rightarrow> bytes list" where
  "select_password en i t = map u_password (en_users en (filter (\<lambda>u. u_id u = i \<and> \<not> u_deleted u) (users t)))"

definition select_username :: "engine \<Rightarrow> int \<Rightarrow> tables \<Rightarrow> bytes list" where
  "select_username en i t = map u_username (en_users en (filter (\<lambda>u. u_id u = i \<and> \<not> u_deleted u) (users t)))"

definition delete_user :: "int \<Rightarrow> tables \<Rightarrow> tables" where
  "delete_user i t = t\<lparr>users := map (\<lambda>u. if u_id u = i then u\<lparr>u_deleted := True\<rparr> else u) (users t)\<rparr>"

text \<open>\<open>LIMIT\<close> takes all rows if its argument is negative; a negative offset is none.\<close>

definition limit_offset :: "int \<Rightarrow> int \<Rightarrow> 'a list \<Rightarrow> 'a list" where
  "limit_offset lim off xs = (let xs = drop (nat off) xs in if lim < 0 then xs else take (nat lim) xs)"

definition select_others :: "engine \<Rightarrow> int \<Rightarrow> bytes \<Rightarrow> int \<Rightarrow> int \<Rightarrow> tables \<Rightarrow> (int \<times> bytes) list" where
  "select_others en i pattern lim off t =
     map (\<lambda>u. (u_id u, u_username u))
       (limit_offset lim off
         (en_users en (filter (\<lambda>u. u_id u \<noteq> i \<and> \<not> u_deleted u \<and> en_like en pattern (u_username u)) (users t))))"

definition insert_conversation :: "tables \<Rightarrow> int list \<times> tables" where
  "insert_conversation t =
     (case auto_id (conversations_seq t) of
        None \<Rightarrow> ([], t)
      | Some i \<Rightarrow>
          ([i], t\<lparr>conversations := conversations t @ [\<lparr>c_id = i, c_deleted = False\<rparr>], conversations_seq := i\<rparr>))"

definition insert_members :: "int \<Rightarrow> int list \<Rightarrow> tables \<Rightarrow> tables" where
  "insert_members c us t =
     t\<lparr>members := members t @ map (\<lambda>u. \<lparr>cu_conversation = c, cu_user = u\<rparr>) us\<rparr>"

definition delete_conversation :: "int \<Rightarrow> tables \<Rightarrow> tables" where
  "delete_conversation i t =
     t\<lparr>conversations := map (\<lambda>c. if c_id c = i then c\<lparr>c_deleted := True\<rparr> else c) (conversations t)\<rparr>"

text \<open>The unread messages that GROUP\_CONCAT joins, as a text.\<close>

fun join_ids :: "int list \<Rightarrow> bytes" where
  "join_ids [] = []"
| "join_ids [i] = to_string i"
| "join_ids (i # is) = to_string i @ [44] @ join_ids is"

text \<open>\<open>views::split(',')\<close> and \<open>stoll\<close>; an empty text, which stands for NULL, has no parts.\<close>

fun split_commas :: "bytes \<Rightarrow> bytes \<Rightarrow> bytes list" where
  "split_commas acc [] = [acc]"
| "split_commas acc (b # bs) = (if b = 44 then acc # split_commas [] bs else split_commas (acc @ [b]) bs)"

definition split_ids :: "bytes \<Rightarrow> int list" where
  "split_ids s = (if s = [] then [] else map of_string (split_commas [] s))"

definition unread_from :: "engine \<Rightarrow> int \<Rightarrow> int \<Rightarrow> tables \<Rightarrow> int list" where
  "unread_from en c u t =
     map m_id (en_messages en (filter (\<lambda>m. m_conversation m = c \<and> m_user m = u \<and> \<not> m_read m) (messages t)))"

text \<open>
  The join of members and users, grouped: one row per conversation, user and name, with the messages
  of all rows of the group.
\<close>

definition member_groups :: "(member_row \<Rightarrow> user_row \<Rightarrow> bool) \<Rightarrow> engine \<Rightarrow> tables \<Rightarrow> (int \<times> int \<times> bytes \<times> bytes) list" where
  "member_groups ok en t =
     (let joined = concat (map (\<lambda>cu. map (\<lambda>u. (cu_conversation cu, cu_user cu, u_username u))
                     (filter (\<lambda>u. u_id u = cu_user cu \<and> ok cu u) (users t))) (members t))
      in en_groups en (map (\<lambda>(c, i, name). (c, i, name,
            join_ids (concat (map (\<lambda>_. unread_from en c i t) (filter (\<lambda>g. g = (c, i, name)) joined)))))
          (remdups joined)))"

definition select_conversation :: "engine \<Rightarrow> int \<Rightarrow> int \<Rightarrow> tables \<Rightarrow> (int \<times> int \<times> bytes \<times> bytes) list" where
  "select_conversation en c i t = member_groups (\<lambda>cu u. cu_conversation cu = c \<and> cu_user cu \<noteq> i) en t"

definition select_conversations :: "engine \<Rightarrow> int \<Rightarrow> tables \<Rightarrow> (int \<times> int \<times> bytes \<times> bytes) list" where
  "select_conversations en i t =
     member_groups (\<lambda>cu u.
       list_ex (\<lambda>cu'. cu_conversation cu' = cu_conversation cu \<and> cu_user cu' = i) (members t) \<and>
       cu_user cu \<noteq> i \<and> \<not> u_deleted u \<and>
       list_ex (\<lambda>c. c_id c = cu_conversation cu \<and> \<not> c_deleted c) (conversations t)) en t"

definition insert_message :: "nat \<Rightarrow> int \<Rightarrow> int \<Rightarrow> bytes \<Rightarrow> tables \<Rightarrow> int list \<times> tables" where
  "insert_message now c u content t =
     (case auto_id (messages_seq t) of
        None \<Rightarrow> ([], t)
      | Some i \<Rightarrow>
          ([i], t\<lparr>messages := messages t @ [\<lparr>m_id = i, m_conversation = c, m_content = content, m_user = u,
             m_read = False, m_deleted = False, m_created = now\<rparr>], messages_seq := i\<rparr>))"

definition other_members :: "int \<Rightarrow> int \<Rightarrow> tables \<Rightarrow> member_row list" where
  "other_members c u t = filter (\<lambda>cu. cu_conversation cu = c \<and> cu_user cu \<noteq> u) (members t)"

definition select_recipients :: "engine \<Rightarrow> int \<Rightarrow> int \<Rightarrow> tables \<Rightarrow> int list" where
  "select_recipients en c u t = map cu_user (en_members en (other_members c u t))"

definition select_messages :: "engine \<Rightarrow> int \<Rightarrow> tables \<Rightarrow> message_row list" where
  "select_messages en c t =
     sort_key m_created (en_messages en (filter (\<lambda>m. m_conversation m = c \<and> \<not> m_deleted m) (messages t)))"

definition read_messages :: "engine \<Rightarrow> int \<Rightarrow> int list \<Rightarrow> tables \<Rightarrow> int list \<times> tables" where
  "read_messages en u is t =
     (let hit = (\<lambda>m. m_user m \<noteq> u \<and> m_id m \<in> set is)
      in (map m_user (en_messages en (filter hit (messages t))),
          t\<lparr>messages := map (\<lambda>m. if hit m then m\<lparr>m_read := True\<rparr> else m) (messages t)\<rparr>))"

definition delete_message :: "int \<Rightarrow> int \<Rightarrow> tables \<Rightarrow> tables" where
  "delete_message c i t =
     t\<lparr>messages := map (\<lambda>m. if m_conversation m = c \<and> m_id m = i then m\<lparr>m_deleted := True\<rparr> else m) (messages t)\<rparr>"

section \<open>Transactions\<close>

text \<open>\<open>cd_saved\<close> is the state to which an open transaction rolls back. The three statements fail,
  and \<open>execute\<close> throws, when a transaction is open that should not be or none that should.\<close>

record chat_db =
  cd_tables :: tables
  cd_saved :: "tables option"

definition begin_transaction :: "chat_db \<Rightarrow> chat_db option" where
  "begin_transaction db =
     (case cd_saved db of None \<Rightarrow> Some (db\<lparr>cd_saved := Some (cd_tables db)\<rparr>) | Some _ \<Rightarrow> None)"

definition commit :: "chat_db \<Rightarrow> chat_db option" where
  "commit db = (case cd_saved db of None \<Rightarrow> None | Some _ \<Rightarrow> Some (db\<lparr>cd_saved := None\<rparr>))"

definition rollback :: "chat_db \<Rightarrow> chat_db option" where
  "rollback db = (case cd_saved db of None \<Rightarrow> None | Some t \<Rightarrow> Some (db\<lparr>cd_tables := t, cd_saved := None\<rparr>))"

section \<open>Text and numbers\<close>

lemma of_to_string [simp]: "of_string (to_string i) = i"
proof (cases "i < 0")
  case False
  have "of_string (decimal n) = int n" for n
  proof (cases "decimal n")
    case (Cons b bs)
    then have "b \<noteq> 45" using decimal_digits [of b n] by auto
    then have "of_string (b # bs) = int (undecimal 0 (b # bs))" by (simp add: of_string_def)
    then show ?thesis using undecimal_decimal [of n] by (simp only: Cons)
  qed simp
  then show ?thesis using False by (simp add: to_string_def)
qed (simp add: to_string_def of_string_def)

lemma to_string_no_comma: "44 \<notin> set (to_string i)"
  using decimal_digits [of 44] by (auto simp: to_string_def)

lemma to_string_not_Nil [simp]: "to_string i \<noteq> []"
  by (simp add: to_string_def)

lemma split_commas_part:
  "44 \<notin> set s \<Longrightarrow> split_commas acc (s @ rest) = (case rest of [] \<Rightarrow> [acc @ s] | b # bs \<Rightarrow>
    if b = 44 then (acc @ s) # split_commas [] bs else split_commas (acc @ s) rest)"
  by (induction s arbitrary: acc) (auto split: list.splits)

text \<open>The server reads back exactly the identifiers that the query joined.\<close>

lemma split_join_ids [codec_simps]: "split_ids (join_ids is) = is"
proof -
  have "split_commas [] (join_ids (i # is)) = map to_string (i # is)" for i "is"
  proof (induction "is" arbitrary: i)
    case Nil
    show ?case using split_commas_part [OF to_string_no_comma, of "[]" i "[]"] by simp
  next
    case (Cons j js)
    then show ?case using split_commas_part [OF to_string_no_comma, of "[]" i "44 # join_ids (j # js)"] by simp
  qed
  moreover have "join_ids (i # is) \<noteq> []" for i "is" by (cases "is") simp_all
  ultimately show ?thesis by (cases "is") (simp_all add: split_ids_def comp_def)
qed


section \<open>Well-formed tables\<close>

text \<open>
  Identifiers and names are unique, the counters bound the identifiers, every membership is of an
  existing conversation, and every message has a member of its conversation other than its sender.
\<close>

definition tables_ok :: "tables \<Rightarrow> bool" where
  "tables_ok t \<longleftrightarrow>
     distinct (map u_id (users t)) \<and> distinct (map u_username (users t)) \<and>
     list_all (\<lambda>i. 0 < i \<and> i \<le> users_seq t) (map u_id (users t)) \<and>
     distinct (map c_id (conversations t)) \<and>
     list_all (\<lambda>i. 0 < i \<and> i \<le> conversations_seq t) (map c_id (conversations t)) \<and>
     distinct (map m_id (messages t)) \<and>
     list_all (\<lambda>i. 0 < i \<and> i \<le> messages_seq t) (map m_id (messages t)) \<and>
     0 \<le> users_seq t \<and> 0 \<le> conversations_seq t \<and> 0 \<le> messages_seq t \<and>
     users_seq t < 2 ^ 63 \<and> conversations_seq t < 2 ^ 63 \<and> messages_seq t < 2 ^ 63 \<and>
     list_all (\<lambda>cu. cu_conversation cu \<in> set (map c_id (conversations t))) (members t) \<and>
     list_all (\<lambda>(c, u). other_members c u t \<noteq> []) (map (\<lambda>m. (m_conversation m, m_user m)) (messages t))"

lemma tables_ok_no_tables: "tables_ok no_tables"
  by (simp add: tables_ok_def no_tables_def)

lemma other_members_simps [simp]:
  "other_members c u (t\<lparr>users := us\<rparr>) = other_members c u t"
  "other_members c u (t\<lparr>users_seq := n\<rparr>) = other_members c u t"
  "other_members c u (t\<lparr>conversations := cs\<rparr>) = other_members c u t"
  "other_members c u (t\<lparr>conversations_seq := n\<rparr>) = other_members c u t"
  "other_members c u (t\<lparr>messages := ms\<rparr>) = other_members c u t"
  "other_members c u (t\<lparr>messages_seq := n\<rparr>) = other_members c u t"
  by (simp_all add: other_members_def)

lemma auto_id_Some [simp]: "auto_id n = Some i \<longleftrightarrow> n < 2 ^ 63 - 1 \<and> i = n + 1"
  by (auto simp: auto_id_def)

lemma tables_ok_insert_user [inv_intros]:
  assumes "tables_ok t" "insert_user n p t = (rows, t')"
  shows "tables_ok t'"
proof (cases "rows")
  case Nil
  then show ?thesis using assms by (auto simp: insert_user_def split: if_splits option.splits)
next
  case (Cons i ids)
  then have t': "t' = t\<lparr>users := users t @
      [\<lparr>u_id = users_seq t + 1, u_username = n, u_password = p, u_deleted = False\<rparr>], users_seq := users_seq t + 1\<rparr>"
    and new: "users_seq t < 2 ^ 63 - 1" "\<not> list_ex (\<lambda>u. u_username u = n) (users t)"
    using assms(2) by (auto simp: insert_user_def split: if_splits option.splits)
  then show ?thesis
    using assms(1) by (fastforce simp: tables_ok_def list_all_iff list_ex_iff)
qed

lemma tables_ok_insert_conversation:
  assumes "tables_ok t" "insert_conversation t = (c # cs, t')"
  shows "tables_ok (insert_members c us t')"
proof -
  have t': "t' = t\<lparr>conversations := conversations t @ [\<lparr>c_id = c, c_deleted = False\<rparr>], conversations_seq := c\<rparr>"
    and c: "c = conversations_seq t + 1" "conversations_seq t < 2 ^ 63 - 1"
    using assms(2) by (auto simp: insert_conversation_def split: option.splits)
  have "other_members c' u (insert_members c us t') = other_members c' u t @
      filter (\<lambda>cu. cu_conversation cu = c' \<and> cu_user cu \<noteq> u)
        (map (\<lambda>u. \<lparr>cu_conversation = c, cu_user = u\<rparr>) us)" for c' u
    by (simp add: t' insert_members_def other_members_def)
  then show ?thesis
    using assms(1) c by (fastforce simp: tables_ok_def list_all_iff list_ex_iff t' insert_members_def)
qed

lemma tables_ok_insert_message:
  assumes "tables_ok t" "insert_message now c u content t = (i # is, t')" "other_members c u t' \<noteq> []"
  shows "tables_ok t'"
proof -
  have t': "t' = t\<lparr>messages := messages t @ [\<lparr>m_id = i, m_conversation = c, m_content = content, m_user = u,
      m_read = False, m_deleted = False, m_created = now\<rparr>], messages_seq := i\<rparr>"
    and i: "i = messages_seq t + 1" "messages_seq t < 2 ^ 63 - 1"
    using assms(2) by (auto simp: insert_message_def split: option.splits)
  then show ?thesis using assms(1,3) by (fastforce simp: tables_ok_def list_all_iff)
qed

lemma map_map_if: "(\<And>x. g (f x) = g x) \<Longrightarrow> map g (map (\<lambda>x. if P x then f x else x) xs) = map g xs"
  by simp

lemma tables_ok_updates [inv_intros]:
  assumes "tables_ok t"
  shows "tables_ok (delete_user i t)" "tables_ok (delete_conversation i t)" "tables_ok (delete_message c i t)"
    "tables_ok (snd (read_messages en u is t))"
  using assms
  by (simp_all add: tables_ok_def delete_user_def delete_conversation_def delete_message_def read_messages_def
      Let_def map_map_if del: map_map set_map)

end
