(* ===== verification/ChatService.thy ===== *)
theory ChatService
  imports ChatDb
begin

text \<open>
  The main service of the converse server (\<open>service/main/impl.{hpp,cpp}\<close>): one definition per remote
  procedure, on the database, the streams of the connected users and the streams of the replicas.
  Here a procedure runs to its end before the next (\<open>ChatRace\<close> cuts it into steps); the wall clock (\<open>now\<close>, in seconds) and the salt are
  arguments.
\<close>

section \<open>State\<close>

text \<open>The operations a replica is told to carry out (\<open>link.proto\<close>); a map of strings is a list of
  pairs here.\<close>

datatype operation_type = OPERATION_TYPE_UNSPECIFIED | OPERATION_TYPE_INSERT | OPERATION_TYPE_UPDATE

record operation =
  op_type :: operation_type
  op_table :: string
  op_new :: "(string \<times> bytes) list"
  op_old :: "(string \<times> bytes) list"

definition insert_op :: "string \<Rightarrow> (string \<times> bytes) list \<Rightarrow> operation" where
  "insert_op table new = \<lparr>op_type = OPERATION_TYPE_INSERT, op_table = table, op_new = new, op_old = []\<rparr>"

definition update_op :: "string \<Rightarrow> string \<Rightarrow> int \<Rightarrow> operation" where
  "update_op table column i =
     \<lparr>op_type = OPERATION_TYPE_UPDATE, op_table = table, op_new = [(column, [49])], op_old = [(''id'', to_string i)]\<rparr>"

text \<open>The streams are known by numbers; \<open>sv_notes\<close> is what was written to the streams of users, and
  \<open>sv_cluster\<close> holds for every replica the transactions written to its stream.\<close>

record writers =
  w_message :: "nat option"
  w_read :: "nat option"

datatype notice = Note_Message u64 u64 u64 bytes | Note_Read u64 "u64 list"

record service =
  sv_db :: chat_db
  sv_cluster :: "(nat \<times> operation list list) list"
  sv_writers :: "u64 \<rightharpoonup> writers"
  sv_notes :: "(nat \<times> notice) list"

text \<open>\<open>Internal_Error\<close> is the status of the catch block; \<open>Escaped\<close> is an exception that the catch
  block itself throws.\<close>

datatype 'r reply = Ok (reply_value: 'r) | Internal_Error | Escaped

record conversation =
  cv_id :: u64
  cv_recv_user_id :: u64
  cv_recv_user_username :: bytes
  cv_unread_message_ids :: "u64 list"

record chat_message =
  cm_id :: u64
  cm_send_user_id :: u64
  cm_content :: bytes

abbreviation sv_tables :: "service \<Rightarrow> tables" where
  "sv_tables sv \<equiv> cd_tables (sv_db sv)"

definition set_tables :: "tables \<Rightarrow> service \<Rightarrow> service" where
  "set_tables t sv = sv\<lparr>sv_db := (sv_db sv)\<lparr>cd_tables := t\<rparr>\<rparr>"

definition broadcast :: "operation list \<Rightarrow> service \<Rightarrow> service" where
  "broadcast ops sv = sv\<lparr>sv_cluster := map (\<lambda>(w, txs). (w, txs @ [ops])) (sv_cluster sv)\<rparr>"

text \<open>A catch block that rolls back.\<close>

definition fail_rollback :: "service \<Rightarrow> 'r reply \<times> service" where
  "fail_rollback sv =
     (case rollback (sv_db sv) of
        None \<Rightarrow> (Escaped, sv)
      | Some db \<Rightarrow> (Internal_Error, sv\<lparr>sv_db := db\<rparr>))"

definition notify :: "(writers \<Rightarrow> nat option) \<Rightarrow> u64 \<Rightarrow> notice \<Rightarrow> service \<Rightarrow> service" where
  "notify stream user item sv =
     (case sv_writers sv user of
        None \<Rightarrow> sv
      | Some ws \<Rightarrow>
          (case stream ws of
             None \<Rightarrow> sv
           | Some w \<Rightarrow> sv\<lparr>sv_notes := sv_notes sv @ [(w, item)]\<rparr>))"

section \<open>Users\<close>

text \<open>Passwords are handed to Argon2 as C strings.\<close>

definition c_str :: "bytes \<Rightarrow> bytes" where
  "c_str s = takeWhile (\<lambda>b. b \<noteq> 0) s"

definition verify_password :: "engine \<Rightarrow> bytes \<Rightarrow> bytes \<Rightarrow> bool" where
  "verify_password en password encoded = en_verify en encoded (c_str password)"

definition generate_password_encoded :: "engine \<Rightarrow> bytes \<Rightarrow> bytes \<Rightarrow> bytes option" where
  "generate_password_encoded en password salt = en_hash en salt (c_str password)"

text \<open>\<open>substr(first, last + 1)\<close>, which takes a length and not an end; it throws for a name of blanks.\<close>

definition trimmed_username :: "bytes \<Rightarrow> bytes option" where
  "trimmed_username s =
     (if list_all (\<lambda>b. b = 32) s then None
      else
        (let first = length (takeWhile (\<lambda>b. b = 32) s);
             last = length s - 1 - length (takeWhile (\<lambda>b. b = 32) (rev s))
         in Some (take (last + 1) (drop first s))))"

definition signup_user :: "engine \<Rightarrow> bytes \<Rightarrow> bytes \<Rightarrow> bytes \<Rightarrow> service \<Rightarrow> u64 reply \<times> service" where
  "signup_user en user_username user_password salt sv =
     (case trimmed_username user_username of
        None \<Rightarrow> (Internal_Error, sv)
      | Some username \<Rightarrow>
          if username = [] \<or> length username > 255 \<or> user_password = [] then (Internal_Error, sv)
          else
            (case generate_password_encoded en user_password salt of
               None \<Rightarrow> (Internal_Error, sv)
             | Some password_encoded \<Rightarrow>
                 (let (rows, t) = insert_user user_username password_encoded (sv_tables sv); sv = set_tables t sv
                  in case rows of
                       [] \<Rightarrow> (Internal_Error, sv)
                     | i # _ \<Rightarrow>
                         (Ok (of_int64 i),
                          broadcast [insert_op ''users'' [(''id'', to_string i), (''username'', username),
                            (''password_encoded'', password_encoded)]] sv))))"

definition signin_user :: "engine \<Rightarrow> bytes \<Rightarrow> bytes \<Rightarrow> service \<Rightarrow> u64 reply \<times> service" where
  "signin_user en user_username user_password sv =
     (case select_login en user_username (sv_tables sv) of
        [] \<Rightarrow> (Internal_Error, sv)
      | (i, password_encoded) # _ \<Rightarrow>
          if verify_password en user_password password_encoded then (Ok (of_int64 i), sv)
          else (Internal_Error, sv))"

definition signout_user :: "u64 \<Rightarrow> service \<Rightarrow> unit reply \<times> service" where
  "signout_user user_id sv = (Ok (), sv)"

definition delete_user_rpc :: "engine \<Rightarrow> u64 \<Rightarrow> bytes \<Rightarrow> service \<Rightarrow> unit reply \<times> service" where
  "delete_user_rpc en user_id user_password sv =
     (case begin_transaction (sv_db sv) of
        None \<Rightarrow> fail_rollback sv
      | Some db \<Rightarrow>
          (let sv = sv\<lparr>sv_db := db\<rparr> in
           case select_password en (to_int64 user_id) (sv_tables sv) of
             [] \<Rightarrow> fail_rollback sv
           | password_encoded # _ \<Rightarrow>
               if \<not> verify_password en user_password password_encoded then fail_rollback sv
               else
                 (let sv = set_tables (delete_user (to_int64 user_id) (sv_tables sv)) sv in
                  case commit (sv_db sv) of
                    None \<Rightarrow> fail_rollback sv
                  | Some db \<Rightarrow>
                      (Ok (), broadcast [update_op ''users'' ''is_deleted'' (to_int64 user_id)] (sv\<lparr>sv_db := db\<rparr>)))))"

definition get_other_users ::
    "engine \<Rightarrow> u64 \<Rightarrow> bytes \<Rightarrow> u64 \<Rightarrow> u64 \<Rightarrow> service \<Rightarrow> (u64 \<times> bytes) list reply \<times> service" where
  "get_other_users en user_id query limit offset sv =
     (let like_pattern = [37] @ query @ [37];
          rows = select_others en (to_int64 user_id) like_pattern (to_int64 limit) (to_int64 offset) (sv_tables sv)
      in (Ok (map (\<lambda>(i, username). (of_int64 i, username)) rows), sv))"

section \<open>Conversations\<close>

definition create_conversation :: "engine \<Rightarrow> u64 \<Rightarrow> u64 \<Rightarrow> service \<Rightarrow> conversation reply \<times> service" where
  "create_conversation en user_id other_user_id sv =
     (let send_user_id = to_int64 user_id; recv_user_id = to_int64 other_user_id in
      case begin_transaction (sv_db sv) of
        None \<Rightarrow> fail_rollback sv
      | Some db \<Rightarrow>
          (let sv = sv\<lparr>sv_db := db\<rparr> in
           case select_username en recv_user_id (sv_tables sv) of
             [] \<Rightarrow> fail_rollback sv
           | recv_user_username # _ \<Rightarrow>
               (let (rows, t) = insert_conversation (sv_tables sv); sv = set_tables t sv in
                case rows of
                  [] \<Rightarrow> fail_rollback sv
                | conversation_id # _ \<Rightarrow>
                    (let sv = set_tables (insert_members conversation_id [send_user_id, recv_user_id] (sv_tables sv)) sv in
                     case commit (sv_db sv) of
                       None \<Rightarrow> fail_rollback sv
                     | Some db \<Rightarrow>
                         (Ok \<lparr>cv_id = of_int64 conversation_id, cv_recv_user_id = of_int64 recv_user_id,
                             cv_recv_user_username = recv_user_username, cv_unread_message_ids = []\<rparr>,
                          broadcast
                            [insert_op ''conversations'' [(''id'', to_string conversation_id)],
                             insert_op ''conversations_users'' [(''conversation_id'', to_string conversation_id),
                               (''user_id'', to_string send_user_id)],
                             insert_op ''conversations_users'' [(''conversation_id'', to_string conversation_id),
                               (''user_id'', to_string recv_user_id)]]
                            (sv\<lparr>sv_db := db\<rparr>))))))"

definition conversation_of_row :: "int \<times> int \<times> bytes \<times> bytes \<Rightarrow> conversation" where
  "conversation_of_row row =
     (case row of
        (conversation_id, recv_user_id, recv_user_username, unread_message_ids) \<Rightarrow>
          \<lparr>cv_id = of_int64 conversation_id, cv_recv_user_id = of_int64 recv_user_id,
           cv_recv_user_username = recv_user_username,
           cv_unread_message_ids = map of_int64 (split_ids unread_message_ids)\<rparr>)"

definition get_conversation :: "engine \<Rightarrow> u64 \<Rightarrow> u64 \<Rightarrow> service \<Rightarrow> conversation reply \<times> service" where
  "get_conversation en user_id conversation_id sv =
     (case select_conversation en (to_int64 conversation_id) (to_int64 user_id) (sv_tables sv) of
        [] \<Rightarrow> (Internal_Error, sv)
      | row # _ \<Rightarrow> (Ok (conversation_of_row row), sv))"

definition get_conversations :: "engine \<Rightarrow> u64 \<Rightarrow> service \<Rightarrow> conversation list reply \<times> service" where
  "get_conversations en user_id sv =
     (Ok (map conversation_of_row (select_conversations en (to_int64 user_id) (sv_tables sv))), sv)"

definition delete_conversation_rpc :: "u64 \<Rightarrow> service \<Rightarrow> unit reply \<times> service" where
  "delete_conversation_rpc conversation_id sv =
     (Ok (), broadcast [update_op ''conversations'' ''is_deleted'' (to_int64 conversation_id)]
       (set_tables (delete_conversation (to_int64 conversation_id) (sv_tables sv)) sv))"

section \<open>Messages\<close>

text \<open>The response is never given the identifier of the message, so it carries 0.\<close>

definition send_message_rpc :: "engine \<Rightarrow> nat \<Rightarrow> u64 \<Rightarrow> u64 \<Rightarrow> bytes \<Rightarrow> service \<Rightarrow> u64 reply \<times> service" where
  "send_message_rpc en now conversation_id message_send_user_id content sv =
     (let c = to_int64 conversation_id; u = to_int64 message_send_user_id in
      if content = [] then fail_rollback sv
      else
        (case begin_transaction (sv_db sv) of
           None \<Rightarrow> fail_rollback sv
         | Some db \<Rightarrow>
             (let (rows, t) = insert_message now c u content (cd_tables db); sv = set_tables t (sv\<lparr>sv_db := db\<rparr>) in
              case rows of
                [] \<Rightarrow> fail_rollback sv
              | message_id # _ \<Rightarrow>
                  (case select_recipients en c u (sv_tables sv) of
                     [] \<Rightarrow> fail_rollback sv
                   | recv_user_id # _ \<Rightarrow>
                       (case commit (sv_db sv) of
                          None \<Rightarrow> fail_rollback sv
                        | Some db \<Rightarrow>
                            (let item = Note_Message (of_int64 c) (of_int64 message_id) (of_int64 u) content;
                                 sv = broadcast [insert_op ''messages'' [(''id'', to_string message_id),
                                        (''conversation_id'', to_string c), (''user_id'', to_string u),
                                        (''content'', content)]] (sv\<lparr>sv_db := db\<rparr>);
                                 sv = notify w_message (of_int64 recv_user_id) item sv;
                                 sv = notify w_message (of_int64 u) item sv
                             in (Ok 0, sv)))))))"

definition get_messages :: "engine \<Rightarrow> u64 \<Rightarrow> service \<Rightarrow> chat_message list reply \<times> service" where
  "get_messages en conversation_id sv =
     (Ok (map (\<lambda>m. \<lparr>cm_id = of_int64 (m_id m), cm_send_user_id = of_int64 (m_user m), cm_content = m_content m\<rparr>)
        (select_messages en (to_int64 conversation_id) (sv_tables sv))), sv)"

definition read_messages_rpc :: "engine \<Rightarrow> u64 \<Rightarrow> u64 \<Rightarrow> u64 list \<Rightarrow> service \<Rightarrow> unit reply \<times> service" where
  "read_messages_rpc en user_id conversation_id message_ids sv =
     (let (rows, t) = read_messages en (bind_unsigned user_id) (map bind_unsigned message_ids) (sv_tables sv);
          sv = set_tables t sv
      in case rows of
           [] \<Rightarrow> (Internal_Error, sv)
         | recv_user_id # _ \<Rightarrow>
             (let item = Note_Read conversation_id message_ids;
                  sv = broadcast (map (\<lambda>i. \<lparr>op_type = OPERATION_TYPE_UPDATE, op_table = ''messages'',
                         op_new = [(''is_read'', [49])], op_old = [(''id'', decimal (unat i))]\<rparr>) message_ids) sv;
                  sv = notify w_read user_id item sv;
                  sv = notify w_read (of_int64 recv_user_id) item sv
              in (Ok (), sv)))"

definition delete_message_rpc :: "u64 \<Rightarrow> u64 \<Rightarrow> service \<Rightarrow> unit reply \<times> service" where
  "delete_message_rpc conversation_id message_id sv =
     (Ok (), broadcast [update_op ''messages'' ''is_deleted'' (to_int64 message_id)]
       (set_tables (delete_message (to_int64 conversation_id) (to_int64 message_id) (sv_tables sv)) sv))"

section \<open>Streams of users\<close>

text \<open>The two halves of the procedures that keep a stream open: up to the wait and after it.\<close>

definition receive_message_open :: "u64 \<Rightarrow> nat \<Rightarrow> service \<Rightarrow> service" where
  "receive_message_open user_id writer sv =
     sv\<lparr>sv_writers := (sv_writers sv)(user_id \<mapsto>
       (case sv_writers sv user_id of
          None \<Rightarrow> \<lparr>w_message = Some writer, w_read = None\<rparr>
        | Some ws \<Rightarrow> ws\<lparr>w_message := Some writer\<rparr>))\<rparr>"

definition receive_message_close :: "u64 \<Rightarrow> service \<Rightarrow> service" where
  "receive_message_close user_id sv =
     (case sv_writers sv user_id of
        None \<Rightarrow> sv
      | Some ws \<Rightarrow>
          if w_read ws = None then sv\<lparr>sv_writers := (sv_writers sv)(user_id := None)\<rparr>
          else sv\<lparr>sv_writers := (sv_writers sv)(user_id \<mapsto> ws\<lparr>w_message := None\<rparr>)\<rparr>)"

definition receive_read_open :: "u64 \<Rightarrow> nat \<Rightarrow> service \<Rightarrow> service" where
  "receive_read_open user_id writer sv =
     sv\<lparr>sv_writers := (sv_writers sv)(user_id \<mapsto>
       (case sv_writers sv user_id of
          None \<Rightarrow> \<lparr>w_message = None, w_read = Some writer\<rparr>
        | Some ws \<Rightarrow> ws\<lparr>w_read := Some writer\<rparr>))\<rparr>"

definition receive_read_close :: "u64 \<Rightarrow> service \<Rightarrow> service" where
  "receive_read_close user_id sv =
     (case sv_writers sv user_id of
        None \<Rightarrow> sv
      | Some ws \<Rightarrow>
          if w_message ws = None then sv\<lparr>sv_writers := (sv_writers sv)(user_id := None)\<rparr>
          else sv\<lparr>sv_writers := (sv_writers sv)(user_id \<mapsto> ws\<lparr>w_read := None\<rparr>)\<rparr>)"

section \<open>Requests\<close>

datatype request =
    Signup bytes bytes bytes
  | Signin bytes bytes
  | Signout u64
  | Delete_User u64 bytes
  | Get_Other_Users u64 bytes u64 u64
  | Create_Conversation u64 u64
  | Get_Conversation u64 u64
  | Get_Conversations u64
  | Delete_Conversation u64
  | Send_Message nat u64 u64 bytes
  | Get_Messages u64
  | Read_Messages u64 u64 "u64 list"
  | Delete_Message u64 u64

text \<open>The status of a request and what it leaves.\<close>

fun serve :: "engine \<Rightarrow> request \<Rightarrow> service \<Rightarrow> unit reply \<times> service" where
  "serve en (Signup name password salt) sv = map_prod (map_reply (\<lambda>_. ())) id (signup_user en name password salt sv)"
| "serve en (Signin name password) sv = map_prod (map_reply (\<lambda>_. ())) id (signin_user en name password sv)"
| "serve en (Signout u) sv = signout_user u sv"
| "serve en (Delete_User u password) sv = delete_user_rpc en u password sv"
| "serve en (Get_Other_Users u query lim off) sv =
     map_prod (map_reply (\<lambda>_. ())) id (get_other_users en u query lim off sv)"
| "serve en (Create_Conversation u v) sv = map_prod (map_reply (\<lambda>_. ())) id (create_conversation en u v sv)"
| "serve en (Get_Conversation u c) sv = map_prod (map_reply (\<lambda>_. ())) id (get_conversation en u c sv)"
| "serve en (Get_Conversations u) sv = map_prod (map_reply (\<lambda>_. ())) id (get_conversations en u sv)"
| "serve en (Delete_Conversation c) sv = delete_conversation_rpc c sv"
| "serve en (Send_Message now c u content) sv = map_prod (map_reply (\<lambda>_. ())) id (send_message_rpc en now c u content sv)"
| "serve en (Get_Messages c) sv = map_prod (map_reply (\<lambda>_. ())) id (get_messages en c sv)"
| "serve en (Read_Messages u c is) sv = read_messages_rpc en u c is sv"
| "serve en (Delete_Message c i) sv = delete_message_rpc c i sv"

definition serve_all :: "engine \<Rightarrow> request list \<Rightarrow> service \<Rightarrow> service" where
  "serve_all en reqs sv = fold (\<lambda>req sv. snd (serve en req sv)) reqs sv"

text \<open>A service on a new database file, with the streams of some replicas.\<close>

definition new_service :: "nat list \<Rightarrow> service" where
  "new_service replicas =
     \<lparr>sv_db = \<lparr>cd_tables = no_tables, cd_saved = None\<rparr>, sv_cluster = map (\<lambda>w. (w, [])) replicas,
      sv_writers = Map.empty, sv_notes = []\<rparr>"


section \<open>Sequential requests\<close>

definition service_ok :: "service \<Rightarrow> bool" where
  "service_ok sv \<longleftrightarrow> cd_saved (sv_db sv) = None \<and> tables_ok (sv_tables sv)"

lemmas rpc_defs = signup_user_def signin_user_def signout_user_def delete_user_rpc_def get_other_users_def
  create_conversation_def get_conversation_def get_conversations_def delete_conversation_rpc_def
  send_message_rpc_def get_messages_def read_messages_rpc_def delete_message_rpc_def

lemmas transaction_defs = begin_transaction_def commit_def rollback_def fail_rollback_def set_tables_def

lemma broadcast_notify_db [simp]:
  "sv_db (broadcast ops sv) = sv_db sv" "sv_db (notify stream u item sv) = sv_db sv"
  by (auto simp: broadcast_def notify_def split: option.splits)

lemma set_tables_same [simp]: "set_tables (sv_tables sv) sv = sv"
  by (simp add: set_tables_def)

text \<open>A statement that returns no rows has changed nothing.\<close>

lemma no_rows:
  "insert_user n p t = ([], t') \<Longrightarrow> t' = t"
  "insert_conversation t = ([], t') \<Longrightarrow> t' = t"
  "insert_message now c u content t = ([], t') \<Longrightarrow> t' = t"
  "engine_ok en \<Longrightarrow> read_messages en u ids t = ([], t') \<Longrightarrow> t' = t"
proof -
  assume "engine_ok en" "read_messages en u ids t = ([], t')"
  then have none: "filter (\<lambda>m. m_user m \<noteq> u \<and> m_id m \<in> set ids) (messages t) = []"
    and t': "t' = t\<lparr>messages := map (\<lambda>m. if m_user m \<noteq> u \<and> m_id m \<in> set ids then m\<lparr>m_read := True\<rparr> else m) (messages t)\<rparr>"
    by (auto simp: read_messages_def Let_def engine_empty)
  have "map (\<lambda>m. if m_user m \<noteq> u \<and> m_id m \<in> set ids then m\<lparr>m_read := True\<rparr> else m) (messages t) = messages t"
    using none by (intro map_idI) (auto simp: filter_empty_conv)
  then show "t' = t" using t' by simp
qed (auto simp: insert_user_def insert_conversation_def insert_message_def split: if_splits option.splits)

lemma begin_saved: "cd_saved db = None \<Longrightarrow> begin_transaction db = Some (db\<lparr>cd_saved := Some (cd_tables db)\<rparr>)"
  by (simp add: begin_transaction_def)

lemma serve_closed:
  assumes "engine_ok en" "cd_saved (sv_db sv) = None" "serve en req sv = (r, sv')"
  shows "cd_saved (sv_db sv') = None \<and> (r \<noteq> Ok () \<longrightarrow> sv' = sv) \<and> (sv_tables sv' = sv_tables sv \<or> r = Ok ())"
  using assms
  by (cases req; cases sv; cases "sv_db sv")
    (auto simp: rpc_defs transaction_defs Let_def no_rows dest: no_rows split: option.splits list.splits prod.splits if_splits)


lemma recipients_exist: "engine_ok en \<Longrightarrow> select_recipients en c u t = r # rs \<Longrightarrow> other_members c u t \<noteq> []"
  using engine_empty(1) [of en "other_members c u t"] by (simp add: select_recipients_def) force

lemma serve_tables_ok [inv_intros]:
  assumes "engine_ok en" "service_ok sv" "serve en req sv = (r, sv')"
  shows "service_ok sv'"
proof (cases "r = Ok ()")
  case False
  then show ?thesis using serve_closed [OF assms(1) _ assms(3)] assms(2) by (auto simp: service_ok_def)
next
  case True
  have ok: "tables_ok (sv_tables sv)" "cd_saved (sv_db sv) = None" using assms(2) by (simp_all add: service_ok_def)
  have "tables_ok (sv_tables sv')"
  proof (cases req)
    case (Signup n p salt)
    then show ?thesis using assms(3) ok True
      by (auto simp: signup_user_def set_tables_def Let_def split: option.splits if_splits list.splits prod.splits
          intro: tables_ok_insert_user)
  next
    case (Create_Conversation u v)
    then show ?thesis using assms(3) ok True
      by (auto simp: create_conversation_def transaction_defs begin_saved Let_def
          split: option.splits list.splits prod.splits intro: tables_ok_insert_conversation)
  next
    case (Send_Message now c u content)
    then show ?thesis using assms(3) ok True
      by (auto simp: send_message_rpc_def transaction_defs begin_saved Let_def
          split: option.splits list.splits prod.splits if_splits
          intro: tables_ok_insert_message [OF _ _ recipients_exist [OF assms(1)]])
  next
    case (Read_Messages u c ids)
    then show ?thesis
      using assms(3) ok True tables_ok_updates(4) [OF ok(1), of en "bind_unsigned u" "map bind_unsigned ids"]
      by (auto simp: read_messages_rpc_def set_tables_def Let_def split: list.splits prod.splits)
  qed (use assms(3) ok True in \<open>auto simp: rpc_defs transaction_defs Let_def tables_ok_updates
      split: option.splits list.splits prod.splits if_splits\<close>)
  then show ?thesis using serve_closed [OF assms(1) ok(2) assms(3)] by (simp add: service_ok_def)
qed

lemma serve_all_ok: "engine_ok en \<Longrightarrow> service_ok sv \<Longrightarrow> service_ok (serve_all en reqs sv)"
proof (induction reqs arbitrary: sv)
  case (Cons req reqs)
  obtain r sv1 where "serve en req sv = (r, sv1)" by fastforce
  then show ?case using Cons.IH [of sv1] serve_tables_ok [OF Cons.prems] Cons.prems(1) by (simp add: serve_all_def)
qed (simp add: serve_all_def)

lemma service_ok_new: "service_ok (new_service replicas)"
  by (simp add: service_ok_def new_service_def tables_ok_no_tables)

text \<open>Between requests no transaction is open, so only a rollback without one can escape.\<close>

lemma serve_escapes:
  assumes "cd_saved (sv_db sv) = None" "serve en req sv = (r, sv')"
  shows "r = Escaped \<longleftrightarrow> (case req of Send_Message now c u content \<Rightarrow> content = [] | _ \<Rightarrow> False)"
  using assms
  by (cases req; cases sv; cases "sv_db sv")
    (auto simp: rpc_defs transaction_defs Let_def split: option.splits list.splits prod.splits if_splits)

section \<open>Accounts\<close>

lemma filter_unique:
  assumes "distinct (map f xs)" "x \<in> set xs" "P x"
  shows "filter (\<lambda>y. f y = f x \<and> P y) xs = [x]"
  using assms
proof (induction xs)
  case (Cons y ys)
  then show ?case by (cases "x = y") (auto simp: filter_empty_conv, metis image_eqI)
qed simp

lemma mset_single: "mset xs = {#x#} \<Longrightarrow> xs = [x]"
  by (cases xs) auto

lemma select_login_unique:
  assumes "engine_ok en" "tables_ok t" "u \<in> set (users t)" "\<not> u_deleted u"
  shows "select_login en (u_username u) t = [(u_id u, u_password u)]"
proof -
  have "filter (\<lambda>v. u_username v = u_username u \<and> \<not> u_deleted v) (users t) = [u]"
    using filter_unique [of u_username "users t" u "\<lambda>v. \<not> u_deleted v"] assms(2-4) by (simp add: tables_ok_def)
  moreover have "mset (en_users en [u]) = {#u#}" using assms(1) by (simp add: engine_ok_def)
  ultimately show ?thesis by (simp add: select_login_def mset_single)
qed

section \<open>A message\<close>

lemma of_to_int64 [simp]: "of_int64 (to_int64 w) = w"
  by (simp add: of_int64_def to_int64_def)

lemma bind_of_int64: "0 \<le> i \<Longrightarrow> i < 2 ^ 31 \<Longrightarrow> bind_unsigned (of_int64 i) = i"
proof -
  assume i: "0 \<le> i" "i < 2 ^ 31"
  then have "uint (word_of_int i :: u64) = i" by (simp add: uint_word_of_int)
  then have "bind_unsigned (of_int64 i) = sint (word_of_int i :: u32)"
    by (simp only: bind_unsigned_def of_int64_def ucast_eq)
  also have "\<dots> = i" using i by (simp add: sint_sbintrunc' signed_take_bit_int_eq_self)
  finally show ?thesis .
qed

lemma send_message_Ok:
  assumes "service_ok sv" "send_message_rpc en now c u content sv = (Ok i, sv')"
  shows "i = 0 \<and> (\<exists>k t r rs sv1. insert_message now (to_int64 c) (to_int64 u) content (sv_tables sv) = ([k], t) \<and>
    sv_tables sv' = t \<and> select_recipients en (to_int64 c) (to_int64 u) t = r # rs \<and>
    sv_writers sv1 = sv_writers sv \<and>
    sv' = notify w_message u (Note_Message c (of_int64 k) u content)
      (notify w_message (of_int64 r) (Note_Message c (of_int64 k) u content) sv1))"
proof -
  obtain k t where row: "insert_message now (to_int64 c) (to_int64 u) content (sv_tables sv) = ([k], t)"
    using assms by (auto simp: send_message_rpc_def service_ok_def transaction_defs insert_message_def Let_def
        split: option.splits list.splits prod.splits if_splits)
  obtain r rs where rs: "select_recipients en (to_int64 c) (to_int64 u) t = r # rs"
    using assms row by (auto simp: send_message_rpc_def service_ok_def transaction_defs Let_def
        split: option.splits list.splits prod.splits if_splits)
  have "content \<noteq> []" using assms by (auto simp: send_message_rpc_def transaction_defs split: option.splits)
  define sv1 where "sv1 = broadcast [insert_op ''messages'' [(''id'', to_string k), (''conversation_id'', to_string (to_int64 c)),
      (''user_id'', to_string (to_int64 u)), (''content'', content)]] (sv\<lparr>sv_db := (sv_db sv)\<lparr>cd_tables := t, cd_saved := None\<rparr>\<rparr>)"
  have "i = 0" "sv_tables sv' = t" "sv_writers sv1 = sv_writers sv"
    "sv' = notify w_message u (Note_Message c (of_int64 k) u content)
      (notify w_message (of_int64 r) (Note_Message c (of_int64 k) u content) sv1)"
    using assms row rs \<open>content \<noteq> []\<close>
    by (auto simp: send_message_rpc_def service_ok_def transaction_defs Let_def sv1_def broadcast_def)
  with row rs show ?thesis by blast
qed

lemma notify_writers [simp]: "sv_writers (notify stream v item sv) = sv_writers sv"
  by (auto simp: notify_def split: option.splits)

lemma notify_mono: "x \<in> set (sv_notes sv) \<Longrightarrow> x \<in> set (sv_notes (notify stream v item sv))"
  by (auto simp: notify_def split: option.splits)

lemma notify_hit: "sv_writers sv v = Some ws \<Longrightarrow> stream ws = Some w \<Longrightarrow>
    (w, item) \<in> set (sv_notes (notify stream v item sv))"
  by (simp add: notify_def)

lemma unread_after_read:
  assumes "engine_ok en" "i \<in> set ids" "reader \<noteq> u"
  shows "i \<notin> set (unread_from en c u (snd (read_messages en reader ids t)))"
  using assms by (auto simp: unread_from_def read_messages_def Let_def engine_order)

section \<open>Properties\<close>

text \<open>C9: after any sequence of requests to a new service, identifiers and names are unique and
  within the counters, every membership is of an existing conversation, every message has a
  recipient, and no transaction is open.\<close>
theorem service_stays_ok: "engine_ok en \<Longrightarrow> service_ok (serve_all en reqs (new_service replicas))"
  by (rule serve_all_ok [OF _ service_ok_new])

text \<open>C6: a request that does not succeed changes nothing, neither the tables and their counters nor
  any stream; and the exception leaves the catch block exactly for an empty message, whose
  ROLLBACK has no transaction.\<close>
theorem failed_request_changes_nothing:
  assumes "engine_ok en" and "serve en req (serve_all en reqs (new_service replicas)) = (r, sv')"
  shows "(r \<noteq> Ok () \<longrightarrow> sv' = serve_all en reqs (new_service replicas)) \<and>
    (r = Escaped \<longleftrightarrow> (case req of Send_Message now c u content \<Rightarrow> content = [] | _ \<Rightarrow> False))"
proof -
  have "cd_saved (sv_db (serve_all en reqs (new_service replicas))) = None"
    using serve_all_ok [OF assms(1) service_ok_new] by (simp add: service_ok_def)
  then show ?thesis using serve_closed [OF assms(1) _ assms(2)] serve_escapes [OF _ assms(2)] by blast
qed

text \<open>An engine: rows in the order of the table, LIKE for names that occur, passwords in the clear.\<close>

definition witness_engine :: engine where
  "witness_engine = \<lparr>en_like = (\<lambda>p s. p = [37, 37]), en_users = (\<lambda>us. us),
     en_members = (\<lambda>cus. cus), en_messages = (\<lambda>ms. ms), en_groups = (\<lambda>gs. gs),
     en_verify = (\<lambda>e pwd. e = pwd), en_hash = (\<lambda>salt pwd. Some pwd)\<rparr>"

lemma witness_engine_ok: "engine_ok witness_engine"
  by (auto simp: engine_ok_def witness_engine_def)

definition witness_reqs :: "request list" where
  "witness_reqs = [Signup [97] [120] [], Signup [98] [121] [], Create_Conversation 1 2]"

theorem service_stays_ok_witness: "service_ok (serve_all witness_engine witness_reqs (new_service [7]))"
  by (rule service_stays_ok [OF witness_engine_ok])

text \<open>A name that is taken.\<close>
theorem failed_request_changes_nothing_witness:
  "serve witness_engine (Signup [97] [122] []) (serve_all witness_engine witness_reqs (new_service [7])) =
     (Internal_Error, serve_all witness_engine witness_reqs (new_service [7]))"
proof -
  obtain r sv' where s: "serve witness_engine (Signup [97] [122] [])
      (serve_all witness_engine witness_reqs (new_service [7])) = (r, sv')" by fastforce
  moreover have "r = Internal_Error"
    using s by (simp add: witness_reqs_def serve_all_def new_service_def no_tables_def rpc_defs transaction_defs
        trimmed_username_def generate_password_encoded_def witness_engine_def c_str_def insert_user_def auto_id_def
        select_username_def insert_conversation_def insert_members_def to_int64_def broadcast_def Let_def)
  ultimately show ?thesis using failed_request_changes_nothing [OF witness_engine_ok s] by simp
qed

text \<open>A new account can sign in with exactly the name it was given, blanks included, and a
  password that agrees with its own up to the first zero byte, gets its number, and its name is
  taken from then on.\<close>
theorem signup_then_signin:
  assumes "engine_ok en" and "service_ok sv" and "signup_user en name password salt sv = (Ok i, sv')"
  shows "signin_user en name password' sv' =
      (if c_str password' = c_str password then Ok i else Internal_Error, sv') \<and>
    fst (signup_user en name password'' salt' sv') = Internal_Error"
proof -
  obtain e k t where hash: "en_hash en salt (c_str password) = Some e" and i: "i = of_int64 k"
    and row: "insert_user name e (sv_tables sv) = ([k], t)" and sv': "sv_tables sv' = t"
    using assms(3) by (auto simp: signup_user_def generate_password_encoded_def set_tables_def Let_def insert_user_def
        split: option.splits if_splits list.splits prod.splits)
  have t: "tables_ok t" using tables_ok_insert_user [OF _ row] assms(2) by (simp add: service_ok_def)
  let ?u = "\<lparr>u_id = k, u_username = name, u_password = e, u_deleted = False\<rparr>"
  have u: "?u \<in> set (users t)" using row by (auto simp: insert_user_def split: if_splits option.splits)
  have "select_login en name (sv_tables sv') = [(k, e)]"
    using select_login_unique [OF assms(1) t u] sv' by simp
  moreover have "verify_password en password' e = (c_str password' = c_str password)"
    using assms(1) hash by (auto simp: verify_password_def engine_ok_def)
  moreover have "list_ex (\<lambda>u. u_username u = name) (users (sv_tables sv'))"
    using u sv' by (auto simp: list_ex_iff intro: bexI [of _ ?u])
  then have "insert_user name e' (sv_tables sv') = ([], sv_tables sv')" for e'
    by (simp add: insert_user_def)
  ultimately show ?thesis
    using i by (simp add: signin_user_def signup_user_def Let_def split: option.splits)
qed

theorem signup_then_signin_witness:
  "\<exists>sv'. signup_user witness_engine [97] [120] [] (new_service []) = (Ok 1, sv') \<and>
     signin_user witness_engine [97] [120, 0, 121] sv' = (Ok 1, sv') \<and>
     signin_user witness_engine [97] [121] sv' = (Internal_Error, sv')"
proof -
  obtain sv' where s: "signup_user witness_engine [97] [120] [] (new_service []) = (Ok 1, sv')"
    by (simp add: new_service_def no_tables_def signup_user_def set_tables_def trimmed_username_def
        generate_password_encoded_def witness_engine_def c_str_def insert_user_def auto_id_def Let_def of_int64_def)
  note signup_then_signin [OF witness_engine_ok service_ok_new s]
  from this [of "[120, 0, 121]"] this [of "[121]"] s show ?thesis by (auto simp: c_str_def)
qed




end
