(* ===== verification/ChatLink.thy ===== *)
theory ChatLink
  imports ChatService
begin

text \<open>
  The link service and the replication of the converse server (\<open>service/link/impl.{hpp,cpp}\<close>,
  \<open>server.{hpp,cpp}\<close>): the registration of replicas and clients, what a replica does with the
  operations it receives, and how replicas choose a new leader when the stream of theirs ends.
\<close>

section \<open>The link service\<close>

text \<open>\<open>lk_clients\<close> holds, for every open stream of GetServers, the lists of addresses written to it.\<close>

type_synonym server_address = "bytes \<times> int"

record link =
  lk_cluster_addresses :: "server_address list"
  lk_clients :: "(nat \<times> server_address list list) list"

definition new_link :: link where
  "new_link = \<lparr>lk_cluster_addresses = [], lk_clients = []\<rparr>"

definition get_servers_open :: "nat \<Rightarrow> link \<Rightarrow> link" where
  "get_servers_open w lk = lk\<lparr>lk_clients := lk_clients lk @ [(w, [lk_cluster_addresses lk])]\<rparr>"

definition get_servers_close :: "nat \<Rightarrow> link \<Rightarrow> link" where
  "get_servers_close w lk = lk\<lparr>lk_clients := filter (\<lambda>(v, out). v \<noteq> w) (lk_clients lk)\<rparr>"

text \<open>The response: the addresses and the database, here its tables.\<close>

definition identify_myself :: "server_address \<Rightarrow> tables \<Rightarrow> link \<Rightarrow> (server_address list \<times> tables) \<times> link" where
  "identify_myself a t lk =
     (let addresses = lk_cluster_addresses lk @ [a]
      in ((addresses, t),
          lk\<lparr>lk_cluster_addresses := addresses, lk_clients := map (\<lambda>(w, out). (w, out @ [[a]])) (lk_clients lk)\<rparr>))"

definition get_transactions_open :: "nat \<Rightarrow> service \<Rightarrow> service" where
  "get_transactions_open w sv = sv\<lparr>sv_cluster := sv_cluster sv @ [(w, [])]\<rparr>"

definition get_transactions_close :: "nat \<Rightarrow> service \<Rightarrow> service" where
  "get_transactions_close w sv = sv\<lparr>sv_cluster := filter (\<lambda>(v, txs). v \<noteq> w) (sv_cluster sv)\<rparr>"

section \<open>Replaying operations\<close>

text \<open>
  The statement that a replica builds from an operation, for the tables and columns that the main
  service sends. \<open>None\<close> is a statement that does not compile, for which \<open>execute\<close> throws; a violated
  constraint changes nothing. Texts are converted to numbers by the type of their column; a message
  gets the replica's time.
\<close>

definition column_id :: "operation \<Rightarrow> int \<Rightarrow> int option" where
  "column_id op seq =
     (case map_of (op_new op) ''id'' of None \<Rightarrow> auto_id seq | Some v \<Rightarrow> Some (of_string v))"

definition replay_insert :: "nat \<Rightarrow> operation \<Rightarrow> tables \<Rightarrow> tables option" where
  "replay_insert now op t =
     (let column = map_of (op_new op) in
      if op_new op = [] then None
      else if op_table op = ''users'' then
        (case (column_id op (users_seq t), column ''username'', column ''password_encoded'') of
           (Some i, Some name, Some password) \<Rightarrow>
             if list_ex (\<lambda>u. u_id u = i \<or> u_username u = name) (users t) then Some t
             else Some (t\<lparr>users := users t @
               [\<lparr>u_id = i, u_username = name, u_password = password, u_deleted = False\<rparr>], users_seq := max (users_seq t) i\<rparr>)
         | _ \<Rightarrow> Some t)
      else if op_table op = ''conversations'' then
        (case column_id op (conversations_seq t) of
           Some i \<Rightarrow>
             if list_ex (\<lambda>c. c_id c = i) (conversations t) then Some t
             else Some (t\<lparr>conversations := conversations t @ [\<lparr>c_id = i, c_deleted = False\<rparr>],
               conversations_seq := max (conversations_seq t) i\<rparr>)
         | None \<Rightarrow> Some t)
      else if op_table op = ''conversations_users'' then
        (case (column ''conversation_id'', column ''user_id'') of
           (Some c, Some u) \<Rightarrow> Some (insert_members (of_string c) [of_string u] t)
         | _ \<Rightarrow> Some t)
      else if op_table op = ''messages'' then
        (case (column_id op (messages_seq t), column ''conversation_id'', column ''user_id'', column ''content'') of
           (Some i, Some c, Some u, Some content) \<Rightarrow>
             if list_ex (\<lambda>m. m_id m = i) (messages t) then Some t
             else Some (t\<lparr>messages := messages t @ [\<lparr>m_id = i, m_conversation = of_string c, m_content = content,
               m_user = of_string u, m_read = False, m_deleted = False, m_created = now\<rparr>],
               messages_seq := max (messages_seq t) i\<rparr>)
         | _ \<Rightarrow> Some t)
      else None)"

definition replay_update :: "operation \<Rightarrow> tables \<Rightarrow> tables option" where
  "replay_update op t =
     (case (op_new op, op_old op) of
        ([(column, v)], [(key, k)]) \<Rightarrow>
          if key \<noteq> ''id'' then None
          else if op_table op = ''users'' \<and> column = ''is_deleted'' then
            Some (t\<lparr>users := map (\<lambda>u. if u_id u = of_string k then u\<lparr>u_deleted := of_string v \<noteq> 0\<rparr> else u) (users t)\<rparr>)
          else if op_table op = ''conversations'' \<and> column = ''is_deleted'' then
            Some (t\<lparr>conversations :=
              map (\<lambda>c. if c_id c = of_string k then c\<lparr>c_deleted := of_string v \<noteq> 0\<rparr> else c) (conversations t)\<rparr>)
          else if op_table op = ''messages'' \<and> column = ''is_deleted'' then
            Some (t\<lparr>messages := map (\<lambda>m. if m_id m = of_string k then m\<lparr>m_deleted := of_string v \<noteq> 0\<rparr> else m) (messages t)\<rparr>)
          else if op_table op = ''messages'' \<and> column = ''is_read'' then
            Some (t\<lparr>messages := map (\<lambda>m. if m_id m = of_string k then m\<lparr>m_read := of_string v \<noteq> 0\<rparr> else m) (messages t)\<rparr>)
          else None
      | _ \<Rightarrow> None)"

definition replay_operation :: "nat \<Rightarrow> operation \<Rightarrow> tables \<Rightarrow> tables option" where
  "replay_operation now op t =
     (case op_type op of
        OPERATION_TYPE_INSERT \<Rightarrow> replay_insert now op t
      | OPERATION_TYPE_UPDATE \<Rightarrow> replay_update op t
      | OPERATION_TYPE_UNSPECIFIED \<Rightarrow> None)"

text \<open>One response, and all responses of a stream.\<close>

fun replay_transaction :: "nat \<Rightarrow> operation list \<Rightarrow> tables \<Rightarrow> tables option" where
  "replay_transaction now [] t = Some t"
| "replay_transaction now (op # ops) t = Option.bind (replay_operation now op t) (replay_transaction now ops)"

fun replay_stream :: "nat \<Rightarrow> operation list list \<Rightarrow> tables \<Rightarrow> tables option" where
  "replay_stream now [] t = Some t"
| "replay_stream now (tx # txs) t = Option.bind (replay_transaction now tx t) (replay_stream now txs)"

section \<open>Choosing a leader\<close>

text \<open>A replica's list after it has identified itself: the leader's response.\<close>

definition join_cluster :: "server_address list \<Rightarrow> server_address list \<Rightarrow> server_address list" where
  "join_cluster own response = own @ response"

text \<open>
  The end of the loop in \<open>Server::Server\<close>, repeated: the front of the list is the next leader. The
  stream of one that is down (\<open>down\<close>) ends at once. The result is the server followed (or itself) and
  the rest of the list; \<open>None\<close> is the front of an empty list.
\<close>

fun follow :: "server_address \<Rightarrow> (server_address \<Rightarrow> bool) \<Rightarrow> server_address list \<Rightarrow>
    (server_address \<times> server_address list) option" where
  "follow me down [] = None"
| "follow me down (a # rest) = (if a = me \<or> \<not> down a then Some (a, rest) else follow me down rest)"


section \<open>A replica and its leader\<close>

text \<open>The same data but for the times of the messages.\<close>

definition timeless :: "message_row \<Rightarrow> message_row" where
  "timeless m = m\<lparr>m_created := 0\<rparr>"

definition same_data :: "tables \<Rightarrow> tables \<Rightarrow> bool" where
  "same_data t t' \<longleftrightarrow>
     users t = users t' \<and> users_seq t = users_seq t' \<and> conversations t = conversations t' \<and>
     conversations_seq t = conversations_seq t' \<and> members t = members t' \<and>
     map timeless (messages t) = map timeless (messages t') \<and> messages_seq t = messages_seq t'"

text \<open>
  The requests whose operations say what the leader did: the name has no blanks around it, the
  identifiers of read messages fit an \<open>int\<close> and belong to messages of others, and a deleted
  message belongs to the conversation of the request.
\<close>

fun replicable :: "request \<Rightarrow> service \<Rightarrow> bool" where
  "replicable (Signup name password salt) sv \<longleftrightarrow> trimmed_username name = Some name"
| "replicable (Read_Messages u c ids) sv \<longleftrightarrow>
     list_all (\<lambda>i. unat i < 2 ^ 31) ids \<and>
     list_all (\<lambda>m. m_id m \<in> (int \<circ> unat) ` set ids \<longrightarrow> m_user m \<noteq> bind_unsigned u) (messages (sv_tables sv))"
| "replicable (Delete_Message c i) sv \<longleftrightarrow>
     list_all (\<lambda>m. m_id m = to_int64 i \<longrightarrow> m_conversation m = to_int64 c) (messages (sv_tables sv))"
| "replicable _ sv \<longleftrightarrow> True"

fun replicable_run :: "engine \<Rightarrow> request list \<Rightarrow> service \<Rightarrow> bool" where
  "replicable_run en [] sv \<longleftrightarrow> True"
| "replicable_run en (req # reqs) sv \<longleftrightarrow> replicable req sv \<and> replicable_run en reqs (snd (serve en req sv))"

lemma same_data_refl: "same_data t t"
  by (simp add: same_data_def)

lemma timeless_simps [simp]:
  "m_id (timeless m) = m_id m" "m_conversation (timeless m) = m_conversation m" "m_user (timeless m) = m_user m"
  "timeless (m\<lparr>m_deleted := d\<rparr>) = (timeless m)\<lparr>m_deleted := d\<rparr>" "timeless (m\<lparr>m_read := r\<rparr>) = (timeless m)\<lparr>m_read := r\<rparr>"
  by (simp_all add: timeless_def)

lemma timeless_map_if:
  assumes "map timeless ms = map timeless ms'" "\<And>m. timeless (f m) = f (timeless m)"
    and "\<And>m. P (timeless m) = P m" "\<And>m. P' (timeless m) = P' m" "\<And>m. m \<in> set ms' \<Longrightarrow> P m = P' m"
  shows "map timeless (map (\<lambda>m. if P m then f m else m) ms) = map timeless (map (\<lambda>m. if P' m then f m else m) ms')"
proof -
  have push: "map timeless (map (\<lambda>m. if Q m then f m else m) ns) = map (\<lambda>m. if Q m then f m else m) (map timeless ns)"
    if "\<And>m. Q (timeless m) = Q m" for Q ns
    using that assms(2) by simp
  show ?thesis
    unfolding push [of P, OF assms(3)] push [of P', OF assms(4)] assms(1)
    using assms(3-5) by simp
qed

lemma same_ids: "map timeless ms = map timeless ms' \<Longrightarrow> map m_id ms = map m_id ms'"
  by (drule arg_cong [of _ _ "map m_id"]) (simp add: comp_def)

lemma of_string_49 [simp]: "of_string [49] = 1"
  by (simp add: of_string_def)

lemma of_string_decimal [simp]: "of_string (decimal n) = int n"
  using of_to_string [of "int n"] by (simp only: to_string_def) simp

lemma replay_signup:
  assumes "tables_ok t0" "insert_user n p t0 = ([i], t0')" "same_data t t0"
  shows "\<exists>t'. replay_operation now (insert_op ''users'' [(''id'', to_string i), (''username'', n), (''password_encoded'', p)]) t =
    Some t' \<and> same_data t' t0'"
proof -
  have i: "i = users_seq t0 + 1" "\<not> list_ex (\<lambda>u. u_username u = n) (users t0)"
    using assms(2) by (auto simp: insert_user_def split: if_splits option.splits)
  then have "\<not> list_ex (\<lambda>u. u_id u = i \<or> u_username u = n) (users t0)"
    using assms(1) by (fastforce simp: tables_ok_def list_all_iff list_ex_iff)
  then show ?thesis
    using assms(2,3) i by (auto simp: replay_operation_def replay_insert_def insert_op_def column_id_def Let_def
        same_data_def insert_user_def split: if_splits option.splits)
qed

lemma replay_conversation:
  assumes "tables_ok t0" "insert_conversation t0 = ([c], t0')" "same_data t t0"
  shows "\<exists>t'. replay_transaction now [insert_op ''conversations'' [(''id'', to_string c)],
      insert_op ''conversations_users'' [(''conversation_id'', to_string c), (''user_id'', to_string u)],
      insert_op ''conversations_users'' [(''conversation_id'', to_string c), (''user_id'', to_string v)]] t =
    Some t' \<and> same_data t' (insert_members c [u, v] t0')"
proof -
  have c: "c = conversations_seq t0 + 1" "conversations_seq t0 < 2 ^ 63 - 1"
    using assms(2) by (auto simp: insert_conversation_def split: option.splits)
  then have "\<not> list_ex (\<lambda>x. c_id x = c) (conversations t0)"
    using assms(1) by (fastforce simp: tables_ok_def list_all_iff list_ex_iff)
  then show ?thesis
    using assms(2,3) c by (auto simp: replay_operation_def replay_insert_def insert_op_def column_id_def Let_def
        same_data_def insert_conversation_def insert_members_def split: option.splits)
qed

lemma replay_message:
  assumes "tables_ok t0" "insert_message now c u content t0 = ([i], t0')" "same_data t t0"
  shows "\<exists>t'. replay_operation now' (insert_op ''messages'' [(''id'', to_string i), (''conversation_id'', to_string c),
      (''user_id'', to_string u), (''content'', content)]) t = Some t' \<and> same_data t' t0'"
proof -
  have i: "i = messages_seq t0 + 1" "messages_seq t0 < 2 ^ 63 - 1"
    using assms(2) by (auto simp: insert_message_def split: option.splits)
  have "i \<notin> set (map m_id (messages t0))"
    using assms(1) i by (fastforce simp: tables_ok_def list_all_iff)
  then have "i \<notin> set (map m_id (messages t))"
    using assms(3) same_ids [of "messages t" "messages t0"] by (simp add: same_data_def)
  then have "\<not> list_ex (\<lambda>m. m_id m = i) (messages t)" by (auto simp: list_ex_iff)
  then show ?thesis
    using assms(2,3) i by (auto simp: replay_operation_def replay_insert_def insert_op_def column_id_def Let_def
        same_data_def insert_message_def timeless_def split: option.splits)
qed

lemma replay_deletes:
  assumes "same_data t t0"
  shows "\<exists>t'. replay_operation now (update_op ''users'' ''is_deleted'' i) t = Some t' \<and> same_data t' (delete_user i t0)"
    and "\<exists>t'. replay_operation now (update_op ''conversations'' ''is_deleted'' i) t = Some t' \<and>
      same_data t' (delete_conversation i t0)"
    and "list_all (\<lambda>m. m_id m = i \<longrightarrow> m_conversation m = c) (messages t0) \<Longrightarrow>
      \<exists>t'. replay_operation now (update_op ''messages'' ''is_deleted'' i) t = Some t' \<and>
        same_data t' (delete_message c i t0)"
proof -
  assume "list_all (\<lambda>m. m_id m = i \<longrightarrow> m_conversation m = c) (messages t0)"
  then have "map timeless (map (\<lambda>m. if m_id m = i then m\<lparr>m_deleted := True\<rparr> else m) (messages t)) =
      map timeless (map (\<lambda>m. if m_conversation m = c \<and> m_id m = i then m\<lparr>m_deleted := True\<rparr> else m) (messages t0))"
    using assms by (intro timeless_map_if) (auto simp: same_data_def list_all_iff)
  moreover have "replay_operation now (update_op ''messages'' ''is_deleted'' i) t =
      Some (t\<lparr>messages := map (\<lambda>m. if m_id m = i then m\<lparr>m_deleted := True\<rparr> else m) (messages t)\<rparr>)"
    by (simp add: replay_operation_def replay_update_def update_op_def)
  ultimately show "\<exists>t'. replay_operation now (update_op ''messages'' ''is_deleted'' i) t = Some t' \<and>
      same_data t' (delete_message c i t0)"
    using assms by (simp add: same_data_def delete_message_def del: map_map)
qed (use assms in \<open>auto simp: replay_operation_def replay_update_def update_op_def same_data_def delete_user_def
    delete_conversation_def\<close>)

definition read_op :: "u64 \<Rightarrow> operation" where
  "read_op i = \<lparr>op_type = OPERATION_TYPE_UPDATE, op_table = ''messages'', op_new = [(''is_read'', [49])],
     op_old = [(''id'', decimal (unat i))]\<rparr>"

lemma replay_read_ops:
  "replay_transaction now (map read_op ids) t =
    Some (t\<lparr>messages := map (\<lambda>m. if m_id m \<in> (int \<circ> unat) ` set ids then m\<lparr>m_read := True\<rparr> else m) (messages t)\<rparr>)"
proof (induction ids arbitrary: t)
  case (Cons i ids)
  have "replay_operation now (read_op i) t =
      Some (t\<lparr>messages := map (\<lambda>m. if m_id m = int (unat i) then m\<lparr>m_read := True\<rparr> else m) (messages t)\<rparr>)"
    by (simp add: replay_operation_def replay_update_def read_op_def)
  then show ?case by (auto simp: Cons.IH)
qed simp

lemma bind_unsigned_small: "unat i < 2 ^ 31 \<Longrightarrow> bind_unsigned i = int (unat i)"
proof -
  assume "unat i < 2 ^ 31"
  moreover have "(2 :: int) ^ 31 = int (2 ^ 31)" by simp
  ultimately have "int (unat i) < 2 ^ 31" by (simp only: of_nat_less_iff)
  then have "bind_unsigned (of_int64 (int (unat i))) = int (unat i)" by (intro bind_of_int64) simp_all
  moreover have "of_int64 (int (unat i)) = i" by (simp add: of_int64_def)
  ultimately show ?thesis by simp
qed

lemma replay_read:
  assumes "same_data t t0" "replicable (Read_Messages u c ids) sv" "sv_tables sv = t0"
  shows "\<exists>t'. replay_transaction now (map read_op ids) t = Some t' \<and>
    same_data t' (snd (read_messages en (bind_unsigned u) (map bind_unsigned ids) t0))"
proof -
  have ids: "set (map bind_unsigned ids) = (int \<circ> unat) ` set ids"
    using assms(2) by (auto simp: list_all_iff bind_unsigned_small intro!: image_cong)
  have "map timeless (map (\<lambda>m. if m_id m \<in> (int \<circ> unat) ` set ids then m\<lparr>m_read := True\<rparr> else m) (messages t)) =
      map timeless (map (\<lambda>m. if m_user m \<noteq> bind_unsigned u \<and> m_id m \<in> (int \<circ> unat) ` set ids
        then m\<lparr>m_read := True\<rparr> else m) (messages t0))"
    using assms by (intro timeless_map_if) (auto simp: same_data_def list_all_iff)
  then show ?thesis
    using assms(1) unfolding replay_read_ops read_messages_def Let_def ids
    by (simp add: same_data_def del: map_map)
qed


section \<open>What the streams carry\<close>

text \<open>Some transactions, appended to every stream, lead a replica's tables to the leader's.\<close>

definition carried :: "nat \<Rightarrow> service \<Rightarrow> service \<Rightarrow> tables \<Rightarrow> operation list list \<Rightarrow> bool" where
  "carried now sv sv' t txs \<longleftrightarrow> sv_cluster sv' = map (\<lambda>(w, out). (w, out @ txs)) (sv_cluster sv) \<and>
     (\<exists>t'. replay_stream now txs t = Some t' \<and> same_data t' (sv_tables sv'))"

lemma notify_set_cluster [simp]:
  "sv_cluster (notify stream u item sv) = sv_cluster sv" "sv_cluster (set_tables t sv) = sv_cluster sv"
  by (auto simp: notify_def set_tables_def split: option.splits)

lemma carried_none: "same_data t (sv_tables sv) \<Longrightarrow> carried now sv sv t []"
  by (simp add: carried_def)

lemma carried_broadcast:
  assumes "sv_cluster sv' = sv_cluster (broadcast ops sv)"
    and "\<exists>t'. replay_transaction now ops t = Some t' \<and> same_data t' (sv_tables sv')"
  shows "carried now sv sv' t [ops]"
  using assms by (auto simp: carried_def broadcast_def)

lemma replay_transaction_single: "replay_transaction now [op] t = replay_operation now op t"
  by (cases "replay_operation now op t") simp_all

lemma carried_one:
  assumes "sv_cluster sv' = sv_cluster (broadcast [op] sv)"
    and "\<exists>t'. replay_operation now op t = Some t' \<and> same_data t' (sv_tables sv')"
  shows "carried now sv sv' t [[op]]"
  using assms by (intro carried_broadcast) (simp_all only: replay_transaction_single)

lemma broadcast_cluster: "sv_cluster (broadcast ops sv) = map (\<lambda>(w, txs). (w, txs @ [ops])) (sv_cluster sv)"
  by (simp add: broadcast_def)

lemma serve_carries:
  assumes "service_ok sv" "replicable req sv" "serve en req sv = (Ok (), sv')" "same_data t (sv_tables sv)"
  shows "\<exists>txs. carried now sv sv' t txs"
proof -
  have ok: "tables_ok (sv_tables sv)" "cd_saved (sv_db sv) = None" using assms(1) by (simp_all add: service_ok_def)
  have read_only: ?thesis if "sv' = sv" using carried_none assms(4) that by blast
  show ?thesis
  proof (cases req)
    case (Signup n p salt)
    then obtain e i k where row: "insert_user n e (sv_tables sv) = ([k], sv_tables sv')"
      and out: "sv_cluster sv' = sv_cluster (broadcast [insert_op ''users'' [(''id'', to_string k), (''username'', n),
        (''password_encoded'', e)]] sv)"
      using assms(2,3) by (auto simp: signup_user_def Let_def insert_user_def set_tables_def broadcast_cluster
          split: option.splits if_splits)
    show ?thesis using carried_one [OF out replay_signup [OF ok(1) row assms(4)]] by blast
  next
    case (Delete_User u p)
    then have "sv_tables sv' = delete_user (to_int64 u) (sv_tables sv)"
      and out: "sv_cluster sv' = sv_cluster (broadcast [update_op ''users'' ''is_deleted'' (to_int64 u)] sv)"
      using assms(3) ok by (auto simp: delete_user_rpc_def transaction_defs Let_def broadcast_cluster
          split: option.splits list.splits if_splits)
    then show ?thesis using carried_one [OF out] replay_deletes(1) [OF assms(4)] by metis
  next
    case (Create_Conversation u v)
    then obtain c t1 where row: "insert_conversation (sv_tables sv) = ([c], t1)"
      and t1: "sv_tables sv' = insert_members c [to_int64 u, to_int64 v] t1"
      and out: "sv_cluster sv' = sv_cluster (broadcast [insert_op ''conversations'' [(''id'', to_string c)],
        insert_op ''conversations_users'' [(''conversation_id'', to_string c), (''user_id'', to_string (to_int64 u))],
        insert_op ''conversations_users'' [(''conversation_id'', to_string c), (''user_id'', to_string (to_int64 v))]] sv)"
      using assms(3) ok by (auto simp: create_conversation_def transaction_defs insert_conversation_def Let_def
          broadcast_cluster split: option.splits list.splits)
    show ?thesis
      using carried_broadcast [OF out] replay_conversation [OF ok(1) row assms(4)] t1 by metis
  next
    case (Delete_Conversation c)
    then have "sv_tables sv' = delete_conversation (to_int64 c) (sv_tables sv)"
      and out: "sv_cluster sv' = sv_cluster (broadcast [update_op ''conversations'' ''is_deleted'' (to_int64 c)] sv)"
      using assms(3) by (auto simp: delete_conversation_rpc_def set_tables_def broadcast_cluster)
    then show ?thesis using carried_one [OF out] replay_deletes(2) [OF assms(4)] by metis
  next
    case (Send_Message now' c u content)
    then obtain k where row: "insert_message now' (to_int64 c) (to_int64 u) content (sv_tables sv) = ([k], sv_tables sv')"
      and out: "sv_cluster sv' = sv_cluster (broadcast [insert_op ''messages'' [(''id'', to_string k),
        (''conversation_id'', to_string (to_int64 c)), (''user_id'', to_string (to_int64 u)), (''content'', content)]] sv)"
      using assms(3) ok by (auto simp: send_message_rpc_def transaction_defs insert_message_def Let_def broadcast_cluster
          split: option.splits list.splits if_splits)
    show ?thesis using carried_one [OF out replay_message [OF ok(1) row assms(4)]] by blast
  next
    case (Read_Messages u c ids)
    then have "sv_tables sv' = snd (read_messages en (bind_unsigned u) (map bind_unsigned ids) (sv_tables sv))"
      and out: "sv_cluster sv' = sv_cluster (broadcast (map read_op ids) sv)"
      using assms(3) by (auto simp: read_messages_rpc_def set_tables_def Let_def broadcast_cluster read_op_def
          split: list.splits prod.splits)
    then show ?thesis
      using carried_broadcast [OF out] replay_read [OF assms(4)] assms(2) Read_Messages by metis
  next
    case (Delete_Message c i)
    have tables: "sv_tables sv' = delete_message (to_int64 c) (to_int64 i) (sv_tables sv)"
      and out: "sv_cluster sv' = sv_cluster (broadcast [update_op ''messages'' ''is_deleted'' (to_int64 i)] sv)"
      using assms(3) Delete_Message by (auto simp: delete_message_rpc_def set_tables_def broadcast_cluster)
    have only: "list_all (\<lambda>m. m_id m = to_int64 i \<longrightarrow> m_conversation m = to_int64 c) (messages (sv_tables sv))"
      using assms(2) unfolding Delete_Message replicable.simps .
    show ?thesis using carried_one [OF out] replay_deletes(3) [OF assms(4) only] tables by metis
  next
    case (Signin n p)
    then have "sv' = sv" using assms(3) by (auto simp: signin_user_def Let_def split: list.splits if_splits)
    then show ?thesis by (rule read_only)
  next
    case (Signout u)
    then have "sv' = sv" using assms(3) by (auto simp: signout_user_def Let_def split: list.splits if_splits)
    then show ?thesis by (rule read_only)
  next
    case (Get_Other_Users u q l k)
    then have "sv' = sv" using assms(3) by (auto simp: get_other_users_def Let_def split: list.splits if_splits)
    then show ?thesis by (rule read_only)
  next
    case (Get_Conversation u c)
    then have "sv' = sv" using assms(3) by (auto simp: get_conversation_def Let_def split: list.splits if_splits)
    then show ?thesis by (rule read_only)
  next
    case (Get_Conversations u)
    then have "sv' = sv" using assms(3) by (auto simp: get_conversations_def Let_def split: list.splits if_splits)
    then show ?thesis by (rule read_only)
  next
    case (Get_Messages c)
    then have "sv' = sv" using assms(3) by (auto simp: get_messages_def Let_def split: list.splits if_splits)
    then show ?thesis by (rule read_only)
  qed
qed

lemma replay_stream_append:
  "replay_stream now (txs @ txs') t = Option.bind (replay_stream now txs t) (replay_stream now txs')"
  by (induction txs arbitrary: t) (auto split: bind_splits)

lemma carried_trans:
  assumes "carried now sv sv1 t txs" "replay_stream now txs t = Some t1" "carried now sv1 sv2 t1 txs'"
  shows "carried now sv sv2 t (txs @ txs')"
  using assms by (auto simp: carried_def replay_stream_append comp_def split: prod.splits)

lemma serve_all_simps [simp]:
  "serve_all en [] sv = sv" "serve_all en (req # reqs) sv = serve_all en reqs (snd (serve en req sv))"
  by (simp_all add: serve_all_def)

lemma run_carries:
  "engine_ok en \<Longrightarrow> service_ok sv \<Longrightarrow> replicable_run en reqs sv \<Longrightarrow> same_data t (sv_tables sv) \<Longrightarrow>
    \<exists>txs. carried now sv (serve_all en reqs sv) t txs"
proof (induction reqs arbitrary: sv t)
  case Nil
  then show ?case using carried_none by auto
next
  case (Cons req reqs)
  obtain r sv1 where s: "serve en req sv = (r, sv1)" by fastforce
  have "\<exists>txs. carried now sv sv1 t txs"
  proof (cases "r = Ok ()")
    case True
    then show ?thesis using serve_carries [of sv req en sv1 t now] Cons.prems s by simp
  next
    case False
    then have "sv1 = sv" using serve_closed [OF Cons.prems(1) _ s] Cons.prems(2) by (simp add: service_ok_def)
    then show ?thesis using carried_none Cons.prems(4) by blast
  qed
  then obtain txs t1 where c: "carried now sv sv1 t txs" "replay_stream now txs t = Some t1" "same_data t1 (sv_tables sv1)"
    unfolding carried_def by blast
  have "\<exists>txs. carried now sv1 (serve_all en reqs sv1) t1 txs"
    using Cons.IH serve_tables_ok [OF Cons.prems(1,2) s] Cons.prems(1,3) c(3) s by simp
  then show ?case using carried_trans [OF c(1,2)] s by auto
qed

section \<open>Servers that join and servers that fail\<close>

text \<open>Some servers join a leader, one after the other: every one with the list it starts from.\<close>

fun join_all :: "server_address list \<Rightarrow> tables \<Rightarrow> link \<Rightarrow> (server_address \<times> server_address list) list \<times> link" where
  "join_all [] t lk = ([], lk)"
| "join_all (a # as) t lk =
     (let ((addresses, db), lk) = identify_myself a t lk; (joined, lk) = join_all as t lk
      in ((a, join_cluster [] addresses) # joined, lk))"

lemma join_all_lists:
  "join_all as t lk = (joined, lk') \<Longrightarrow> (me, own) \<in> set joined \<Longrightarrow>
    \<exists>us vs. as = us @ me # vs \<and> own = lk_cluster_addresses lk @ us @ [me]"
proof (induction as arbitrary: lk lk' joined)
  case (Cons a as)
  let ?lk1 = "snd (identify_myself a t lk)"
  obtain js lk2 where rest: "join_all as t ?lk1 = (js, lk2)" by fastforce
  then have "joined = (a, lk_cluster_addresses lk @ [a]) # js"
    using Cons.prems(1) by (simp add: identify_myself_def join_cluster_def Let_def)
  with Cons.prems(2) consider "me = a" "own = lk_cluster_addresses lk @ [a]" | "(me, own) \<in> set js" by auto
  then show ?case
  proof cases
    case 1
    then show ?thesis by (intro exI [of _ "[]"] exI [of _ as]) simp
  next
    case 2
    from Cons.IH [OF rest this] obtain us vs where "as = us @ me # vs" "own = lk_cluster_addresses ?lk1 @ us @ [me]" by blast
    then show ?thesis by (intro exI [of _ "a # us"] exI [of _ vs]) (simp add: identify_myself_def Let_def)
  qed
qed simp

lemma follow_prefix:
  "\<not> down me \<Longrightarrow> me \<notin> set us \<Longrightarrow>
    \<exists>rest. follow me down (us @ me # vs) = Some (hd (filter (\<lambda>a. \<not> down a) (us @ me # vs)), rest)"
  by (induction us) auto

text \<open>A leader's clients: streams that open and close, and servers that join.\<close>

inductive link_reachable :: "link \<Rightarrow> bool" where
  new: "link_reachable new_link"
| opened: "link_reachable lk \<Longrightarrow> w \<notin> fst ` set (lk_clients lk) \<Longrightarrow> link_reachable (get_servers_open w lk)"
| closed: "link_reachable lk \<Longrightarrow> link_reachable (get_servers_close w lk)"
| joined: "link_reachable lk \<Longrightarrow> link_reachable (snd (identify_myself a t lk))"

text \<open>What a client of the leader has received by GetServers is exactly the list of the replicas,
  whenever it connected.\<close>
lemma clients_have_servers:
  assumes "link_reachable lk" and "(w, out) \<in> set (lk_clients lk)"
  shows "concat out = lk_cluster_addresses lk"
  using assms
proof (induction arbitrary: w out rule: link_reachable.induct)
  case (joined lk a t)
  then show ?case by (auto simp: identify_myself_def Let_def)
qed (auto simp: new_link_def get_servers_open_def get_servers_close_def)


section \<open>Properties\<close>


text \<open>When the leader stops, all replicas that are up turn to the same new leader, the first of
  them to have joined, which chooses itself.\<close>
theorem failover_agreement:
  assumes "distinct as" and "join_all as t new_link = (joined, lk)"
    and "(me, own) \<in> set joined" and "\<not> down me"
  shows "\<exists>rest. follow me down own = Some (hd (filter (\<lambda>a. \<not> down a) as), rest)"
proof -
  from join_all_lists [OF assms(2,3)] obtain us vs where as: "as = us @ me # vs" "own = us @ [me]"
    by (auto simp: new_link_def)
  have "hd (filter (\<lambda>a. \<not> down a) (us @ [me])) = hd (filter (\<lambda>a. \<not> down a) as)"
    using as assms(4) by (cases "filter (\<lambda>a. \<not> down a) us") simp_all
  then show ?thesis
    using follow_prefix [of down me us "[]"] as assms(1,4) by auto
qed

text \<open>The lists of a promoted leader do not reach further. A server \<open>b\<close> that joins it gets a list
  of itself alone; when this leader stops as well, \<open>b\<close> and the second of the old replicas both take
  themselves for the leader.\<close>
theorem late_joiner_splits:
  assumes "distinct (a # c # as)" and "b \<notin> {a, c}"
    and "join_all (a # c # as) t new_link = (joined, lk)"
    and "(a, own_a) \<in> set joined" and "(c, own_c) \<in> set joined"
  shows "\<exists>rest_a rest_c response lk' db.
    follow a (\<lambda>_. False) own_a = Some (a, rest_a) \<and> follow c (\<lambda>_. False) own_c = Some (a, rest_c) \<and>
    identify_myself b t (new_link\<lparr>lk_cluster_addresses := rest_a\<rparr>) = ((response, db), lk') \<and>
    fst (the (follow b (\<lambda>x. x = a) (join_cluster [] response))) = b \<and>
    fst (the (follow c (\<lambda>x. x = a) rest_c)) = c"
proof -
  have "own_a = [a]" "own_c = [a, c]"
    using join_all_lists [OF assms(3,4)] join_all_lists [OF assms(3,5)] assms(1)
    by (auto simp: new_link_def Cons_eq_append_conv)
  then show ?thesis using assms(2) by (auto simp: identify_myself_def join_cluster_def Let_def)
qed

text \<open>Two replicas joined, the first is down with the leader.\<close>
theorem failover_agreement_witness:
  "\<exists>joined lk. join_all [([97], 1), ([98], 2), ([99], 3)] no_tables new_link = (joined, lk) \<and>
     (([99], 3), [([97], 1), ([98], 2), ([99], 3)]) \<in> set joined \<and>
     (\<exists>rest. follow ([99], 3) (\<lambda>a. snd a = 1) [([97], 1), ([98], 2), ([99], 3)] = Some (([98], 2), rest))"
proof -
  obtain joined lk where j: "join_all [([97], 1), ([98], 2), ([99], 3)] no_tables new_link = (joined, lk)"
    and m: "(([99], 3), [([97], 1), ([98], 2), ([99], 3)]) \<in> set joined"
    by (simp add: new_link_def identify_myself_def join_cluster_def Let_def)
  from failover_agreement [OF _ j m, of "\<lambda>a. snd a = 1"] j m show ?thesis by simp
qed

theorem late_joiner_splits_witness:
  "\<exists>rest_a rest_c response lk' db.
    follow ([97], 1) (\<lambda>_. False) [([97], 1)] = Some (([97], 1), rest_a) \<and>
    follow ([98], 2) (\<lambda>_. False) [([97], 1), ([98], 2)] = Some (([97], 1), rest_c) \<and>
    identify_myself ([99], 3) no_tables (new_link\<lparr>lk_cluster_addresses := rest_a\<rparr>) = ((response, db), lk') \<and>
    fst (the (follow ([99], 3) (\<lambda>x. x = ([97], 1)) (join_cluster [] response))) = ([99], 3) \<and>
    fst (the (follow ([98], 2) (\<lambda>x. x = ([97], 1)) rest_c)) = ([98], 2)"
  by (rule late_joiner_splits [where as = "[]" and joined = "[(([97], 1), [([97], 1)]), (([98], 2), [([97], 1), ([98], 2)])]"
        and t = no_tables and lk = "snd (join_all [([97], 1), ([98], 2)] no_tables new_link)"])
    (simp_all add: new_link_def identify_myself_def join_cluster_def Let_def)


end
