(* ===== verification/ChatRace.thy ===== *)
theory ChatRace
  imports ChatLink
begin

text \<open>
  The procedures of the chat service that use transactions (\<open>service/main/impl.cpp\<close>), cut at every
  call of \<open>Db::execute\<close> and every lock. gRPC runs the procedures on several threads, and all of them
  share the one connection of the service, so the steps of different calls interleave.
\<close>

section \<open>Procedures in steps\<close>

datatype 'a prog = Finished 'a | Exec "service \<Rightarrow> 'a prog \<times> service"

definition rollback_prog :: "'r reply prog" where
  "rollback_prog = Exec (\<lambda>sv. case fail_rollback sv of (r, sv) \<Rightarrow> (Finished r, sv))"

text \<open>BEGIN, COMMIT and what is done after them.\<close>

definition begin_prog :: "'r reply prog \<Rightarrow> 'r reply prog" where
  "begin_prog p = Exec (\<lambda>sv.
     case begin_transaction (sv_db sv) of
       None \<Rightarrow> (rollback_prog, sv)
     | Some db \<Rightarrow> (p, sv\<lparr>sv_db := db\<rparr>))"

definition commit_prog :: "'r reply prog \<Rightarrow> 'r reply prog" where
  "commit_prog p = Exec (\<lambda>sv.
     case commit (sv_db sv) of
       None \<Rightarrow> (rollback_prog, sv)
     | Some db \<Rightarrow> (p, sv\<lparr>sv_db := db\<rparr>))"

definition delete_user_prog :: "engine \<Rightarrow> u64 \<Rightarrow> bytes \<Rightarrow> unit reply prog" where
  "delete_user_prog en user_id user_password =
     begin_prog (Exec (\<lambda>sv.
       case select_password en (to_int64 user_id) (sv_tables sv) of
         [] \<Rightarrow> (rollback_prog, sv)
       | password_encoded # _ \<Rightarrow>
           if \<not> verify_password en user_password password_encoded then (rollback_prog, sv)
           else
             (Exec (\<lambda>sv.
                (commit_prog (Exec (\<lambda>sv.
                   (Finished (Ok ()), broadcast [update_op ''users'' ''is_deleted'' (to_int64 user_id)] sv))),
                 set_tables (delete_user (to_int64 user_id) (sv_tables sv)) sv)),
              sv)))"

definition create_conversation_prog :: "engine \<Rightarrow> u64 \<Rightarrow> u64 \<Rightarrow> conversation reply prog" where
  "create_conversation_prog en user_id other_user_id =
     (let send_user_id = to_int64 user_id; recv_user_id = to_int64 other_user_id in
      begin_prog (Exec (\<lambda>sv.
        case select_username en recv_user_id (sv_tables sv) of
          [] \<Rightarrow> (rollback_prog, sv)
        | recv_user_username # _ \<Rightarrow>
            (Exec (\<lambda>sv.
               let (rows, t) = insert_conversation (sv_tables sv); sv = set_tables t sv in
               case rows of
                 [] \<Rightarrow> (rollback_prog, sv)
               | conversation_id # _ \<Rightarrow>
                   (Exec (\<lambda>sv.
                      (commit_prog (Exec (\<lambda>sv.
                         (Finished (Ok \<lparr>cv_id = of_int64 conversation_id, cv_recv_user_id = of_int64 recv_user_id,
                             cv_recv_user_username = recv_user_username, cv_unread_message_ids = []\<rparr>),
                          broadcast
                            [insert_op ''conversations'' [(''id'', to_string conversation_id)],
                             insert_op ''conversations_users'' [(''conversation_id'', to_string conversation_id),
                               (''user_id'', to_string send_user_id)],
                             insert_op ''conversations_users'' [(''conversation_id'', to_string conversation_id),
                               (''user_id'', to_string recv_user_id)]] sv))),
                       set_tables (insert_members conversation_id [send_user_id, recv_user_id] (sv_tables sv)) sv)),
                    sv)),
             sv))))"

definition send_message_prog :: "engine \<Rightarrow> nat \<Rightarrow> u64 \<Rightarrow> u64 \<Rightarrow> bytes \<Rightarrow> u64 reply prog" where
  "send_message_prog en now conversation_id message_send_user_id content =
     (let c = to_int64 conversation_id; u = to_int64 message_send_user_id in
      if content = [] then rollback_prog
      else
        begin_prog (Exec (\<lambda>sv.
          let (rows, t) = insert_message now c u content (sv_tables sv); sv = set_tables t sv in
          case rows of
            [] \<Rightarrow> (rollback_prog, sv)
          | message_id # _ \<Rightarrow>
              (Exec (\<lambda>sv.
                 case select_recipients en c u (sv_tables sv) of
                   [] \<Rightarrow> (rollback_prog, sv)
                 | recv_user_id # _ \<Rightarrow>
                     (let item = Note_Message (of_int64 c) (of_int64 message_id) (of_int64 u) content in
                      (commit_prog
                         (Exec (\<lambda>sv.
                            (Exec (\<lambda>sv.
                               (Finished (Ok 0),
                                notify w_message (of_int64 u) item (notify w_message (of_int64 recv_user_id) item sv))),
                             broadcast [insert_op ''messages'' [(''id'', to_string message_id),
                               (''conversation_id'', to_string c), (''user_id'', to_string u),
                               (''content'', content)]] sv))),
                       sv))),
               sv))))"

text \<open>A call that runs alone.\<close>

primrec run_prog :: "'a prog \<Rightarrow> service \<Rightarrow> 'a \<times> service" where
  "run_prog (Finished r) = (\<lambda>sv. (r, sv))"
| "run_prog (Exec f) = (\<lambda>sv. case (map_prod run_prog id \<circ> f) sv of (g, sv) \<Rightarrow> g sv)"

text \<open>Several calls: the schedule says whose step is next.\<close>

fun interleave :: "nat list \<Rightarrow> 'a prog list \<Rightarrow> service \<Rightarrow> 'a prog list \<times> service" where
  "interleave [] ps sv = (ps, sv)"
| "interleave (i # is) ps sv =
     (if i < length ps then
        (case ps ! i of
           Finished r \<Rightarrow> interleave is ps sv
         | Exec f \<Rightarrow> (let (p, sv) = f sv in interleave is (ps[i := p]) sv))
      else interleave is ps sv)"

lemmas prog_defs = rollback_prog_def begin_prog_def commit_prog_def

section \<open>A second transaction\<close>

text \<open>What is left when the second call begins between the insertion of the first call's conversation and
  that of its members: the members of a conversation that does not exist.\<close>

lemma raced_creation:
  assumes "service_ok sv" "select_username en (to_int64 v) (sv_tables sv) = name # names"
    and "conversations_seq (sv_tables sv) < 2 ^ 63 - 1"
  shows "interleave [0, 0, 0, 1, 1, 0, 0, 0] [create_conversation_prog en u v, create_conversation_prog en u' v'] sv =
    ([Finished Escaped, Finished Internal_Error],
     set_tables (insert_members (conversations_seq (sv_tables sv) + 1) [to_int64 u, to_int64 v] (sv_tables sv)) sv)"
proof -
  have "cd_saved (sv_db sv) = None" using assms(1) by (simp add: service_ok_def)
  then show ?thesis
    using assms(2,3) by (cases sv; cases "sv_db sv")
      (simp add: create_conversation_prog_def prog_defs transaction_defs insert_conversation_def auto_id_def Let_def)
qed

lemma select_username_members [simp]: "select_username en i (insert_members c us t) = select_username en i t"
  by (simp add: select_username_def insert_members_def)

lemma creation:
  assumes "cd_saved (sv_db sv) = None" "select_username en (to_int64 y) (sv_tables sv) = name # names"
    and "conversations_seq (sv_tables sv) = c - 1" "c < 2 ^ 63"
  shows "\<exists>sv' cv. create_conversation en x y sv = (Ok cv, sv') \<and> cv_id cv = of_int64 c \<and>
    members (sv_tables sv') = members (sv_tables sv) @ map (\<lambda>i. \<lparr>cu_conversation = c, cu_user = i\<rparr>) [to_int64 x, to_int64 y]"
  using assms by (cases sv; cases "sv_db sv")
    (simp add: create_conversation_def transaction_defs insert_conversation_def auto_id_def insert_members_def
      broadcast_def Let_def)

section \<open>Properties\<close>

text \<open>Step by step, a procedure that nobody disturbs does what it does as a whole.\<close>
theorem steps_are_procedures:
  "run_prog (create_conversation_prog en u v) sv = create_conversation en u v sv \<and>
   run_prog (send_message_prog en now c u content) sv = send_message_rpc en now c u content sv \<and>
   run_prog (delete_user_prog en u password) sv = delete_user_rpc en u password sv"
proof (intro conjI)
  show "run_prog (create_conversation_prog en u v) sv = create_conversation en u v sv"
    by (simp add: create_conversation_prog_def prog_defs create_conversation_def Let_def
        split: option.split list.split prod.split)
  show "run_prog (send_message_prog en now c u content) sv = send_message_rpc en now c u content sv"
    by (simp add: send_message_prog_def prog_defs send_message_rpc_def Let_def
        split: option.split list.split prod.split)
  show "run_prog (delete_user_prog en u password) sv = delete_user_rpc en u password sv"
    by (simp add: delete_user_prog_def prog_defs delete_user_rpc_def Let_def
        split: option.split list.split prod.split)
qed

text \<open>C7: two calls of CreateConversation that overlap on the shared connection leave the members of the
  first in the database without their conversation, although its caller is told that it failed. The
  next conversation that anybody creates gets that number, and with it the two strangers as members.\<close>
theorem overlapping_calls_leak:
  assumes "service_ok sv" and "conversations_seq (sv_tables sv) < 2 ^ 63 - 1"
    and "select_username en (to_int64 v) (sv_tables sv) \<noteq> []" and "select_username en (to_int64 y) (sv_tables sv) \<noteq> []"
  shows "\<exists>sv' sv'' cv c.
    interleave [0, 0, 0, 1, 1, 0, 0, 0] [create_conversation_prog en u v, create_conversation_prog en u' v'] sv =
      ([Finished Escaped, Finished Internal_Error], sv') \<and> \<not> service_ok sv' \<and>
    create_conversation en x y sv' = (Ok cv, sv'') \<and> cv_id cv = of_int64 c \<and>
    map cu_user (filter (\<lambda>cu. cu_conversation cu = c) (members (sv_tables sv''))) =
      [to_int64 u, to_int64 v, to_int64 x, to_int64 y]"
proof -
  define c where "c = conversations_seq (sv_tables sv) + 1"
  define sv' where "sv' = set_tables (insert_members c [to_int64 u, to_int64 v] (sv_tables sv)) sv"
  obtain name names where v: "select_username en (to_int64 v) (sv_tables sv) = name # names"
    using assms(3) by (meson neq_Nil_conv)
  obtain other others where y: "select_username en (to_int64 y) (sv_tables sv) = other # others"
    using assms(4) by (meson neq_Nil_conv)
  have race: "interleave [0, 0, 0, 1, 1, 0, 0, 0] [create_conversation_prog en u v, create_conversation_prog en u' v'] sv =
      ([Finished Escaped, Finished Internal_Error], sv')"
    unfolding sv'_def c_def by (rule raced_creation [OF assms(1) v assms(2)])
  have ok: "tables_ok (sv_tables sv)" "cd_saved (sv_db sv) = None" using assms(1) by (simp_all add: service_ok_def)
  then have new: "c \<notin> set (map c_id (conversations (sv_tables sv)))"
    by (fastforce simp: tables_ok_def list_all_iff c_def)
  have "\<forall>cu \<in> set (members (sv_tables sv)). cu_conversation cu \<in> set (map c_id (conversations (sv_tables sv)))"
    using ok(1) by (simp add: tables_ok_def list_all_iff)
  then have none: "filter (\<lambda>cu. cu_conversation cu = c) (members (sv_tables sv)) = []"
    using new by (metis (mono_tags, lifting) filter_False)
  have "\<not> service_ok sv'"
    using new by (auto simp: sv'_def service_ok_def tables_ok_def set_tables_def insert_members_def)
  moreover have "cd_saved (sv_db sv') = None" "select_username en (to_int64 y) (sv_tables sv') = other # others"
    "conversations_seq (sv_tables sv') = c - 1" "c < 2 ^ 63"
    "members (sv_tables sv') = members (sv_tables sv) @ map (\<lambda>i. \<lparr>cu_conversation = c, cu_user = i\<rparr>) [to_int64 u, to_int64 v]"
    using ok(2) y assms(2) by (simp_all add: sv'_def set_tables_def c_def) (simp_all add: insert_members_def)
  from this(5) creation [OF this(1-4), of x] obtain cv sv'' where "create_conversation en x y sv' = (Ok cv, sv'')" "cv_id cv = of_int64 c"
    "members (sv_tables sv'') = members (sv_tables sv) @ map (\<lambda>i. \<lparr>cu_conversation = c, cu_user = i\<rparr>)
      [to_int64 u, to_int64 v, to_int64 x, to_int64 y]"
    by auto
  ultimately show ?thesis using race none by (intro exI [of _ sv'] exI [of _ sv''] exI [of _ cv] exI [of _ c]) simp
qed

text \<open>Two users create a conversation with each other at the same time; then user 5 creates one with user 1.\<close>
theorem overlapping_calls_leak_witness:
  "\<exists>sv' sv'' cv c.
    interleave [0, 0, 0, 1, 1, 0, 0, 0] [create_conversation_prog witness_engine 1 2, create_conversation_prog witness_engine 2 1]
      (serve_all witness_engine witness_reqs (new_service [])) = ([Finished Escaped, Finished Internal_Error], sv') \<and>
    \<not> service_ok sv' \<and> create_conversation witness_engine 5 1 sv' = (Ok cv, sv'') \<and> cv_id cv = of_int64 c \<and>
    map cu_user (filter (\<lambda>cu. cu_conversation cu = c) (members (sv_tables sv''))) = [to_int64 1, to_int64 2, to_int64 5, to_int64 1]"
proof (rule overlapping_calls_leak)
  let ?sv = "serve_all witness_engine witness_reqs (new_service [])"
  show "service_ok ?sv" by (rule serve_all_ok [OF witness_engine_ok service_ok_new])
qed (simp_all add: witness_reqs_def new_service_def no_tables_def rpc_defs transaction_defs
    trimmed_username_def generate_password_encoded_def witness_engine_def c_str_def insert_user_def auto_id_def
    select_username_def insert_conversation_def insert_members_def to_int64_def broadcast_def Let_def)

end
