(* ===== verification/ChatModels.thy ===== *)
theory ChatModels
  imports Prelude
begin

text \<open>
  The data and the list models of the converse client (\<open>exe_client/src/backend.{hpp,cpp}\<close>, the
  classes \<open>User\<close> to \<open>OtherUsersModel\<close>). A list of pointers to objects that only the list holds is a
  list of records; what the models announce to their views between Qt's begin and end calls is
  returned beside the new rows. QString is a byte string here.
\<close>

section \<open>Data\<close>

record quser =
  us_id :: int
  us_username :: bytes

record qconversation =
  cn_id :: int
  cn_recv_user_id :: int
  cn_recv_user_username :: bytes
  cn_unread_message_ids :: "int set"

record qmessage =
  ms_id :: int
  ms_send_user_id :: int
  ms_is_read :: bool
  ms_content :: bytes

definition unread_count :: "qconversation \<Rightarrow> nat" where
  "unread_count c = card (cn_unread_message_ids c)"

definition set_unread_message_ids :: "int set \<Rightarrow> qconversation \<Rightarrow> qconversation" where
  "set_unread_message_ids value c = c\<lparr>cn_unread_message_ids := value\<rparr>"

definition add_unread_message_id :: "int \<Rightarrow> qconversation \<Rightarrow> qconversation" where
  "add_unread_message_id message_id c = c\<lparr>cn_unread_message_ids := insert message_id (cn_unread_message_ids c)\<rparr>"

definition remove_unread_message_ids :: "int list \<Rightarrow> qconversation \<Rightarrow> qconversation" where
  "remove_unread_message_ids message_ids c =
     fold (\<lambda>message_id c. c\<lparr>cn_unread_message_ids := cn_unread_message_ids c - {message_id}\<rparr>) message_ids c"

definition reset_unread_message_ids :: "qconversation \<Rightarrow> qconversation" where
  "reset_unread_message_ids c = c\<lparr>cn_unread_message_ids := {}\<rparr>"

section \<open>What a model announces\<close>

text \<open>Rows inserted at and removed from an index; a row moved, by its index and the index of the row
  before which it is put; a row whose data changed; everything.\<close>

datatype change =
    Row_Inserted nat
  | Row_Removed nat
  | Row_Moved nat nat
  | Data_Changed nat
  | Model_Reset
  | Messages_Changed_For_Scroll

section \<open>Look-up\<close>

fun find_if :: "('a \<Rightarrow> bool) \<Rightarrow> 'a list \<Rightarrow> nat option" where
  "find_if P [] = None"
| "find_if P (x # xs) = (if P x then Some 0 else map_option Suc (find_if P xs))"

definition in_rows :: "int \<Rightarrow> 'a list \<Rightarrow> bool" where
  "in_rows i xs \<longleftrightarrow> 0 \<le> i \<and> i < int (length xs)"

datatype qvariant = QInvalid | QInt int | QBool bool | QStr bytes | QInts "int set"

section \<open>Conversations\<close>

text \<open>\<open>Qt::UserRole\<close> is 256; the index is None when it is not valid.\<close>

definition conversations_data :: "qconversation list \<Rightarrow> int option \<Rightarrow> int \<Rightarrow> qvariant" where
  "conversations_data xs index role =
     (case index of
        None \<Rightarrow> QInvalid
      | Some row \<Rightarrow>
          if \<not> in_rows row xs then QInvalid
          else
            (let c = xs ! nat row in
             if role = 256 then QInt (cn_id c)
             else if role = 257 then QInt (cn_recv_user_id c)
             else if role = 258 then QStr (cn_recv_user_username c)
             else if role = 259 then QInt (int (unread_count c))
             else if role = 260 then QInts (cn_unread_message_ids c)
             else QInvalid))"

definition conversations_role_names :: "(int \<times> string) list" where
  "conversations_role_names = [(256, ''id''), (257, ''recvUserId''), (258, ''recvUserUsername''), (259, ''unreadCount''),
     (260, ''unreadMessageIds'')]"

definition conversations_get :: "qconversation list \<Rightarrow> int \<Rightarrow> (string \<times> qvariant) list" where
  "conversations_get xs index =
     (if \<not> in_rows index xs then []
      else
        (let c = xs ! nat index in
         [(''id'', QInt (cn_id c)), (''recvUserId'', QInt (cn_recv_user_id c)),
          (''recvUserUsername'', QStr (cn_recv_user_username c)), (''unreadCount'', QInt (int (unread_count c))),
          (''unreadMessageIds'', QInts (cn_unread_message_ids c))]))"

definition conversations_instance :: "int \<Rightarrow> qconversation list \<Rightarrow> (qconversation \<times> nat) option" where
  "conversations_instance conversation_id xs =
     map_option (\<lambda>i. (xs ! i, i)) (find_if (\<lambda>c. cn_id c = conversation_id) xs)"

definition take_row :: "nat \<Rightarrow> 'a list \<Rightarrow> 'a list" where
  "take_row i xs = take i xs @ drop (Suc i) xs"

definition conversations_remove :: "int \<Rightarrow> qconversation list \<Rightarrow> qconversation list \<times> change list" where
  "conversations_remove index xs =
     (if \<not> in_rows index xs then (xs, []) else (take_row (nat index) xs, [Row_Removed (nat index)]))"

definition conversations_remove_by_id :: "int \<Rightarrow> qconversation list \<Rightarrow> qconversation list \<times> change list" where
  "conversations_remove_by_id conversation_id xs =
     (case find_if (\<lambda>c. cn_id c = conversation_id) xs of
        None \<Rightarrow> (xs, [])
      | Some i \<Rightarrow> conversations_remove (int i) xs)"

definition conversations_prepend :: "qconversation \<Rightarrow> qconversation list \<Rightarrow> qconversation list \<times> change list" where
  "conversations_prepend c xs = (c # xs, [Row_Inserted 0])"

definition conversations_append :: "qconversation \<Rightarrow> qconversation list \<Rightarrow> qconversation list \<times> change list" where
  "conversations_append c xs = (xs @ [c], [Row_Inserted (length xs)])"

definition conversations_set :: "qconversation list \<Rightarrow> qconversation list \<Rightarrow> qconversation list \<times> change list" where
  "conversations_set conversations xs = (conversations, [Model_Reset])"

text \<open>\<open>QList::move\<close> leaves the row at the index \<open>to\<close>.\<close>

definition list_move :: "nat \<Rightarrow> nat \<Rightarrow> 'a list \<Rightarrow> 'a list" where
  "list_move from to xs = (let ys = take_row from xs in take to ys @ [xs ! from] @ drop to ys)"

definition conversations_move :: "int \<Rightarrow> int \<Rightarrow> qconversation list \<Rightarrow> qconversation list \<times> change list" where
  "conversations_move from to xs =
     (if \<not> in_rows from xs \<or> \<not> in_rows to xs then (xs, [])
      else if from = to then (xs, [])
      else (list_move (nat from) (nat to) xs, [Row_Moved (nat from) (nat to)]))"

definition conversations_reset :: "qconversation list \<Rightarrow> qconversation list \<times> change list" where
  "conversations_reset xs = ([], [Model_Reset])"

text \<open>The slot connected to \<open>unreadMessageIdsChanged\<close> of the object at index \<open>i\<close>.\<close>

definition conversations_update ::
    "nat \<Rightarrow> (qconversation \<Rightarrow> qconversation) \<Rightarrow> qconversation list \<Rightarrow> qconversation list \<times> change list" where
  "conversations_update i f xs = (if i < length xs then (xs[i := f (xs ! i)], [Data_Changed i]) else (xs, []))"

section \<open>Messages\<close>

record messages_model =
  mm_conversation_id :: "int option"
  mm_rows :: "qmessage list"

definition messages_data :: "messages_model \<Rightarrow> int option \<Rightarrow> int \<Rightarrow> qvariant" where
  "messages_data mm index role =
     (case index of
        None \<Rightarrow> QInvalid
      | Some row \<Rightarrow>
          if \<not> in_rows row (mm_rows mm) then QInvalid
          else
            (let message = mm_rows mm ! nat row in
             if role = 256 then QInt (ms_id message)
             else if role = 257 then QInt (ms_send_user_id message)
             else if role = 258 then QBool (ms_is_read message)
             else if role = 259 then QStr (ms_content message)
             else QInvalid))"

definition messages_role_names :: "(int \<times> string) list" where
  "messages_role_names = [(256, ''id''), (257, ''sendUserId''), (258, ''isRead''), (259, ''content'')]"

definition messages_get :: "messages_model \<Rightarrow> int \<Rightarrow> (string \<times> qvariant) list" where
  "messages_get mm index =
     (if \<not> in_rows index (mm_rows mm) then []
      else
        (let m = mm_rows mm ! nat index in
         [(''id'', QInt (ms_id m)), (''sendUserId'', QInt (ms_send_user_id m)), (''isRead'', QBool (ms_is_read m)),
          (''content'', QStr (ms_content m))]))"

definition messages_instance :: "int \<Rightarrow> messages_model \<Rightarrow> qmessage option" where
  "messages_instance message_id mm =
     map_option (\<lambda>i. mm_rows mm ! i) (find_if (\<lambda>m. ms_id m = message_id) (mm_rows mm))"

definition messages_remove :: "int \<Rightarrow> messages_model \<Rightarrow> messages_model \<times> change list" where
  "messages_remove index mm =
     (if \<not> in_rows index (mm_rows mm) then (mm, [])
      else (mm\<lparr>mm_rows := take_row (nat index) (mm_rows mm)\<rparr>, [Row_Removed (nat index)]))"

definition messages_remove_by_id :: "int \<Rightarrow> messages_model \<Rightarrow> messages_model \<times> change list" where
  "messages_remove_by_id message_id mm =
     (case find_if (\<lambda>m. ms_id m = message_id) (mm_rows mm) of
        None \<Rightarrow> (mm, [])
      | Some i \<Rightarrow> messages_remove (int i) mm)"

definition messages_append :: "qmessage \<Rightarrow> messages_model \<Rightarrow> messages_model \<times> change list" where
  "messages_append message mm =
     (mm\<lparr>mm_rows := mm_rows mm @ [message]\<rparr>, [Row_Inserted (length (mm_rows mm)), Messages_Changed_For_Scroll])"

definition messages_set :: "int \<Rightarrow> qmessage list \<Rightarrow> messages_model \<Rightarrow> messages_model \<times> change list" where
  "messages_set conversation_id messages mm =
     (\<lparr>mm_conversation_id = Some conversation_id, mm_rows = messages\<rparr>, [Model_Reset, Messages_Changed_For_Scroll])"

definition messages_reset :: "messages_model \<Rightarrow> messages_model \<times> change list" where
  "messages_reset mm = (\<lparr>mm_conversation_id = None, mm_rows = []\<rparr>, [Model_Reset])"

section \<open>Other users\<close>

definition other_users_data :: "quser list \<Rightarrow> int option \<Rightarrow> int \<Rightarrow> qvariant" where
  "other_users_data xs index role =
     (case index of
        None \<Rightarrow> QInvalid
      | Some row \<Rightarrow>
          if \<not> in_rows row xs then QInvalid
          else
            (let user = xs ! nat row in
             if role = 256 then QInt (us_id user) else if role = 257 then QStr (us_username user) else QInvalid))"

definition other_users_role_names :: "(int \<times> string) list" where
  "other_users_role_names = [(256, ''id''), (257, ''username'')]"

definition other_users_get :: "quser list \<Rightarrow> int \<Rightarrow> (string \<times> qvariant) list" where
  "other_users_get xs index =
     (if \<not> in_rows index xs then []
      else (let u = xs ! nat index in [(''id'', QInt (us_id u)), (''username'', QStr (us_username u))]))"

definition other_users_append :: "quser \<Rightarrow> quser list \<Rightarrow> quser list \<times> change list" where
  "other_users_append user xs = (xs @ [user], [Row_Inserted (length xs)])"

definition other_users_set :: "quser list \<Rightarrow> quser list \<Rightarrow> quser list \<times> change list" where
  "other_users_set other_users xs = (other_users, [Model_Reset])"


section \<open>What a view shows\<close>

text \<open>
  The contract of Qt's item models, which nothing in the code computes: a view that has shown the rows
  before a change reads the rows that the change names from the model after it.
\<close>

fun refresh :: "'r list \<Rightarrow> change \<Rightarrow> 'r list \<Rightarrow> 'r list" where
  "refresh rows (Row_Inserted i) shown = take i shown @ [rows ! i] @ drop i shown"
| "refresh rows (Row_Removed i) shown = take_row i shown"
| "refresh rows (Row_Moved i d) shown =
     (let rest = take_row i shown; j = (if i < d then d - 1 else d) in take j rest @ [shown ! i] @ drop j rest)"
| "refresh rows (Data_Changed i) shown = shown[i := rows ! i]"
| "refresh rows Model_Reset shown = rows"
| "refresh rows Messages_Changed_For_Scroll shown = shown"

fun watch :: "('m \<Rightarrow> 'r list) \<Rightarrow> ('op \<Rightarrow> 'm \<Rightarrow> 'm \<times> change list) \<Rightarrow> 'op list \<Rightarrow> 'm \<Rightarrow> 'r list \<Rightarrow> 'm \<times> 'r list" where
  "watch rows step [] m shown = (m, shown)"
| "watch rows step (op # ops) m shown =
     (let (m, changes) = step op m in watch rows step ops m (fold (refresh (rows m)) changes shown))"

locale announcing_model =
  fixes rows :: "'m \<Rightarrow> 'r list"
    and step :: "'op \<Rightarrow> 'm \<Rightarrow> 'm \<times> change list"
    and fine :: "'op \<Rightarrow> bool"
  assumes announced: "fine op \<Longrightarrow> step op m = (m', changes) \<Longrightarrow> fold (refresh (rows m')) changes (rows m) = rows m'"
begin

lemma shown_is_rows: "list_all fine ops \<Longrightarrow> snd (watch rows step ops m (rows m)) = rows (fst (watch rows step ops m (rows m)))"
proof (induction ops arbitrary: m)
  case (Cons op ops)
  obtain m' changes where s: "step op m = (m', changes)" by fastforce
  then show ?case using Cons.IH [of m'] Cons.prems announced [OF _ s] by simp
qed simp

end

text \<open>The operations of the three models.\<close>

datatype conversations_op =
    Conversations_Remove int
  | Conversations_Remove_By_Id int
  | Conversations_Prepend qconversation
  | Conversations_Append qconversation
  | Conversations_Set "qconversation list"
  | Conversations_Move int int
  | Conversations_Reset
  | Conversations_Set_Unread nat "int set"
  | Conversations_Add_Unread nat int
  | Conversations_Remove_Unread nat "int list"
  | Conversations_Reset_Unread nat

fun conversations_step :: "conversations_op \<Rightarrow> qconversation list \<Rightarrow> qconversation list \<times> change list" where
  "conversations_step (Conversations_Remove i) = conversations_remove i"
| "conversations_step (Conversations_Remove_By_Id i) = conversations_remove_by_id i"
| "conversations_step (Conversations_Prepend c) = conversations_prepend c"
| "conversations_step (Conversations_Append c) = conversations_append c"
| "conversations_step (Conversations_Set cs) = conversations_set cs"
| "conversations_step (Conversations_Move i j) = conversations_move i j"
| "conversations_step Conversations_Reset = conversations_reset"
| "conversations_step (Conversations_Set_Unread i value) = conversations_update i (set_unread_message_ids value)"
| "conversations_step (Conversations_Add_Unread i m) = conversations_update i (add_unread_message_id m)"
| "conversations_step (Conversations_Remove_Unread i ms) = conversations_update i (remove_unread_message_ids ms)"
| "conversations_step (Conversations_Reset_Unread i) = conversations_update i reset_unread_message_ids"

datatype messages_op =
    Messages_Remove int
  | Messages_Remove_By_Id int
  | Messages_Append qmessage
  | Messages_Set int "qmessage list"
  | Messages_Reset

fun messages_step :: "messages_op \<Rightarrow> messages_model \<Rightarrow> messages_model \<times> change list" where
  "messages_step (Messages_Remove i) = messages_remove i"
| "messages_step (Messages_Remove_By_Id i) = messages_remove_by_id i"
| "messages_step (Messages_Append m) = messages_append m"
| "messages_step (Messages_Set i ms) = messages_set i ms"
| "messages_step Messages_Reset = messages_reset"

datatype other_users_op = Other_Users_Append quser | Other_Users_Set "quser list"

fun other_users_step :: "other_users_op \<Rightarrow> quser list \<Rightarrow> quser list \<times> change list" where
  "other_users_step (Other_Users_Append u) = other_users_append u"
| "other_users_step (Other_Users_Set us) = other_users_set us"

text \<open>\<open>rowCount\<close> is the size of the list as an \<open>int\<close>.\<close>

definition row_count :: "'a list \<Rightarrow> int" where
  "row_count xs = sint (word_of_nat (length xs) :: u32)"

definition conversations_row_count :: "qconversation list \<Rightarrow> int" where
  "conversations_row_count xs = row_count xs"

definition messages_row_count :: "messages_model \<Rightarrow> int" where
  "messages_row_count mm = row_count (mm_rows mm)"

definition other_users_row_count :: "quser list \<Rightarrow> int" where
  "other_users_row_count us = row_count us"

text \<open>Below \<open>2 ^ 31\<close> rows the indexes that the models answer are those below the row count.\<close>

lemma in_rows_row_count:
  assumes "length xs < 2 ^ 31"
  shows "in_rows i xs \<longleftrightarrow> 0 \<le> i \<and> i < row_count xs"
  using assms by (simp add: in_rows_def row_count_def signed_of_nat signed_take_bit_int_eq_self)

text \<open>A row is not moved down.\<close>

fun not_down :: "conversations_op \<Rightarrow> bool" where
  "not_down (Conversations_Move i j) \<longleftrightarrow> j \<le> i"
| "not_down _ \<longleftrightarrow> True"

lemma find_if_Some:
  "find_if P xs = Some i \<Longrightarrow> i < length xs \<and> P (xs ! i) \<and> (\<forall>j < i. \<not> P (xs ! j))"
  by (induction xs arbitrary: i) (auto split: if_splits simp: less_Suc_eq_0_disj)

lemma find_if_None: "find_if P xs = None \<longleftrightarrow> (\<forall>x \<in> set xs. \<not> P x)"
  by (induction xs) auto

lemma length_take_row: "i < length xs \<Longrightarrow> length (take_row i xs) = length xs - 1"
  by (simp add: take_row_def)

lemma moved_up: "j < i \<Longrightarrow> refresh rows (Row_Moved i j) xs = list_move i j xs"
  by (simp add: list_move_def Let_def)

lemma moved_down: "i < j \<Longrightarrow> refresh rows (Row_Moved i j) xs = list_move i (j - 1) xs"
  by (simp add: list_move_def Let_def)

lemma refresh_removed: "fold (refresh rows) [Row_Removed i] xs = take_row i xs"
  by simp

interpretation conversations_view: announcing_model "\<lambda>xs. xs" conversations_step not_down
proof unfold_locales
  fix op m m' changes
  assume "not_down op" and "conversations_step op m = (m', changes)"
  then show "fold (refresh m') changes m = m'"
    by (cases op) (auto simp: conversations_remove_def conversations_remove_by_id_def conversations_prepend_def
        conversations_append_def conversations_set_def conversations_move_def conversations_reset_def
        conversations_update_def in_rows_def moved_up nth_append simp del: refresh.simps(3) split: if_splits option.splits)
qed

interpretation messages_view: announcing_model mm_rows messages_step "\<lambda>_. True"
proof unfold_locales
  fix op m m' changes
  assume "messages_step op m = (m', changes)"
  then show "fold (refresh (mm_rows m')) changes (mm_rows m) = mm_rows m'"
    by (cases op) (auto simp: messages_remove_def messages_remove_by_id_def messages_append_def messages_set_def
        messages_reset_def nth_append split: if_splits option.splits)
qed

interpretation other_users_view: announcing_model "\<lambda>xs. xs" other_users_step "\<lambda>_. True"
proof unfold_locales
  fix op m m' changes
  assume "other_users_step op m = (m', changes)"
  then show "fold (refresh m') changes m = m'"
    by (cases op) (auto simp: other_users_append_def other_users_set_def nth_append)
qed

text \<open>The named properties of a row and its data by role are the same.\<close>

lemma get_is_data:
  "conversations_get xs i = (if in_rows i xs then map (\<lambda>(role, name). (name, conversations_data xs (Some i) role))
     conversations_role_names else [])"
  "messages_get mm i = (if in_rows i (mm_rows mm) then map (\<lambda>(role, name). (name, messages_data mm (Some i) role))
     messages_role_names else [])"
  "other_users_get us i = (if in_rows i us then map (\<lambda>(role, name). (name, other_users_data us (Some i) role))
     other_users_role_names else [])"
  by (simp_all add: conversations_get_def conversations_data_def conversations_role_names_def messages_get_def
      messages_data_def messages_role_names_def other_users_get_def other_users_data_def other_users_role_names_def Let_def)

section \<open>Properties\<close>

text \<open>C18: a view that follows what a model announces shows the model's rows after any operations, for
  each of the three models, as long as no conversation is moved down; a conversation that is moved
  down is shown one row above its place.\<close>
theorem views_show_rows:
  assumes "list_all not_down ops"
  shows "snd (watch (\<lambda>xs. xs) conversations_step ops xs xs) = fst (watch (\<lambda>xs. xs) conversations_step ops xs xs) \<and>
    snd (watch mm_rows messages_step mops mm (mm_rows mm)) = mm_rows (fst (watch mm_rows messages_step mops mm (mm_rows mm))) \<and>
    snd (watch (\<lambda>xs. xs) other_users_step uops us us) = fst (watch (\<lambda>xs. xs) other_users_step uops us us) \<and>
    (0 \<le> i \<and> i < j \<and> j < int (length xs) \<longrightarrow>
      fst (conversations_move i j xs) = list_move (nat i) (nat j) xs \<and>
      snd (watch (\<lambda>xs. xs) conversations_step [Conversations_Move i j] xs xs) = list_move (nat i) (nat j - 1) xs)"
proof -
  have "fst (conversations_move i j xs) = list_move (nat i) (nat j) xs \<and>
      snd (watch (\<lambda>xs. xs) conversations_step [Conversations_Move i j] xs xs) = list_move (nat i) (nat j - 1) xs"
    if "0 \<le> i" "i < j" "j < int (length xs)"
    using that by (simp add: conversations_move_def in_rows_def moved_down nat_less_iff nat_mono_iff del: refresh.simps(3))
  then show ?thesis
    using conversations_view.shown_is_rows [OF assms] messages_view.shown_is_rows other_users_view.shown_is_rows
    by (simp add: list_all_iff)
qed

theorem views_show_rows_witness:
  "snd (watch (\<lambda>xs. xs) conversations_step
      [Conversations_Prepend \<lparr>cn_id = 1, cn_recv_user_id = 2, cn_recv_user_username = [98], cn_unread_message_ids = {}\<rparr>,
       Conversations_Add_Unread 0 7, Conversations_Move 0 0] [] []) =
     [\<lparr>cn_id = 1, cn_recv_user_id = 2, cn_recv_user_username = [98], cn_unread_message_ids = {7}\<rparr>]"
  using views_show_rows [of "[Conversations_Prepend
      \<lparr>cn_id = 1, cn_recv_user_id = 2, cn_recv_user_username = [98], cn_unread_message_ids = {}\<rparr>,
      Conversations_Add_Unread 0 7, Conversations_Move 0 0]" "[]", THEN conjunct1]
  by (simp add: conversations_prepend_def conversations_update_def conversations_move_def add_unread_message_id_def
      in_rows_def)

end
