(* ===== verification/ChatClient.thy ===== *)
theory ChatClient
  imports ChatLink ChatModels
begin

text \<open>
  The client of converse (\<open>exe_client/src/backend.{hpp,cpp}\<close>, the class \<open>Backend\<close>, the connections of
  \<open>main.cpp\<close> and the callbacks of \<open>reader.cpp\<close>): its requests, the streams it listens to, and how it
  reconnects. The servers are the services of \<open>ChatService\<close>, known by their addresses.
\<close>

section \<open>Calls\<close>

text \<open>A server that is down, and one that answers with any other error.\<close>

datatype status_code = UNAVAILABLE | OTHER_CODE

datatype 'r rpc = Rpc_Ok 'r | Rpc_Error status_code

type_synonym network = "server_address \<Rightarrow> service option"

definition call :: "server_address \<Rightarrow> (service \<Rightarrow> 'r reply \<times> service) \<Rightarrow> network \<Rightarrow> 'r rpc \<times> network" where
  "call a f net =
     (case net a of
        None \<Rightarrow> (Rpc_Error UNAVAILABLE, net)
      | Some sv \<Rightarrow>
          (case f sv of
             (Ok r, sv') \<Rightarrow> (Rpc_Ok r, net(a := Some sv'))
           | (_, sv') \<Rightarrow> (Rpc_Error OTHER_CODE, net(a := Some sv'))))"

text \<open>How a call of the client ends: a thread that waits for itself, and a null pointer that is followed.\<close>

datatype 'a outcome = Returns 'a | Deadlocks | Crashes

fun and_then :: "'a outcome \<Rightarrow> ('a \<Rightarrow> 'b outcome) \<Rightarrow> 'b outcome" where
  "and_then (Returns x) f = f x"
| "and_then Deadlocks f = Deadlocks"
| "and_then Crashes f = Crashes"

section \<open>State\<close>

text \<open>Identifiers are unsigned 64-bit numbers in messages and \<open>int\<close> in the client.\<close>

definition int_of_id :: "u64 \<Rightarrow> int" where
  "int_of_id w = sint (ucast w :: u32)"

definition id_of_int :: "int \<Rightarrow> u64" where
  "id_of_int i = word_of_int i"

text \<open>Signals that are queued for the thread of the user interface, and answers that only it sees.\<close>

datatype queued =
    Receive_Message_Response int qmessage
  | Unread_Message int int
  | Receive_Read_Messages_Response int "int list"

datatype signal =
    Signin_User_Response bool
  | Signup_User_Response bool
  | Signout_User_Response bool
  | Delete_User_Response bool
  | Create_Conversation_Response bool

text \<open>A reader is the server and the user that it was started with.\<close>

record client =
  cl_channel :: server_address
  cl_cluster_addresses :: "server_address list"
  cl_get_servers :: server_address
  cl_receive_message :: "(server_address \<times> u64) option"
  cl_receive_read :: "(server_address \<times> u64) option"
  cl_user :: "quser option"
  cl_conversation :: "qconversation option"
  cl_conversations :: "qconversation list"
  cl_messages :: messages_model
  cl_other_users :: "quser list"
  cl_queue :: "queued list"
  cl_signals :: "signal list"

definition emit_signal :: "signal \<Rightarrow> client \<Rightarrow> client" where
  "emit_signal s cl = cl\<lparr>cl_signals := cl_signals cl @ [s]\<rparr>"

definition post :: "queued \<Rightarrow> client \<Rightarrow> client" where
  "post q cl = cl\<lparr>cl_queue := cl_queue cl @ [q]\<rparr>"

definition new_client :: "server_address \<Rightarrow> client" where
  "new_client a =
     \<lparr>cl_channel = a, cl_cluster_addresses = [], cl_get_servers = a, cl_receive_message = None, cl_receive_read = None,
      cl_user = None, cl_conversation = None, cl_conversations = [],
      cl_messages = \<lparr>mm_conversation_id = None, mm_rows = []\<rparr>, cl_other_users = [], cl_queue = [], cl_signals = []\<rparr>"

section \<open>The user and the conversation\<close>

text \<open>The slots of \<open>main.cpp\<close> for \<open>userChanged\<close> and \<open>conversationChanged\<close>; they run where the setters emit.\<close>

definition slot_user_changed :: "bool \<Rightarrow> client \<Rightarrow> client" where
  "slot_user_changed nothing cl =
     (if nothing then cl\<lparr>cl_conversations := fst (conversations_reset (cl_conversations cl))\<rparr> else cl)"

definition slot_conversation_changed :: "bool \<Rightarrow> client \<Rightarrow> client" where
  "slot_conversation_changed nothing cl =
     (if nothing then cl\<lparr>cl_messages := fst (messages_reset (cl_messages cl))\<rparr> else cl)"

lemma slot_changed [simp]:
  "slot_user_changed True cl = cl\<lparr>cl_conversations := fst (conversations_reset (cl_conversations cl))\<rparr>"
  "slot_user_changed False cl = cl"
  "slot_conversation_changed b cl =
     (if b then cl\<lparr>cl_messages := fst (messages_reset (cl_messages cl))\<rparr> else cl)"
  by (simp_all add: slot_user_changed_def slot_conversation_changed_def)

text \<open>A value other than a null pointer is a new object.\<close>

definition set_conversation :: "qconversation option \<Rightarrow> client \<Rightarrow> client" where
  "set_conversation value cl =
     (if value = None \<and> cl_conversation cl = None then cl
      else
        slot_conversation_changed (value = None) (cl\<lparr>cl_conversation := value\<rparr>))"

definition start_readers :: "quser \<Rightarrow> client \<Rightarrow> client" where
  "start_readers u cl =
     cl\<lparr>cl_receive_message := Some (cl_channel cl, id_of_int (us_id u)),
        cl_receive_read := Some (cl_channel cl, id_of_int (us_id u))\<rparr>"

definition set_user :: "quser option \<Rightarrow> client \<Rightarrow> client" where
  "set_user value cl =
     (if value = None \<and> cl_user cl = None then cl
      else
        (let cl = (if cl_user cl \<noteq> None then set_conversation None cl else cl);
             cl = cl\<lparr>cl_user := value\<rparr>
         in case value of
              Some u \<Rightarrow> slot_user_changed False (start_readers u cl)
            | None \<Rightarrow> slot_user_changed True (cl\<lparr>cl_receive_message := None, cl_receive_read := None\<rparr>)))"

definition set_conversation_slot :: "int \<Rightarrow> int \<Rightarrow> bytes \<Rightarrow> int list \<Rightarrow> client \<Rightarrow> client" where
  "set_conversation_slot i recv_user_id recv_user_username unread_message_ids cl =
     set_conversation (Some \<lparr>cn_id = i, cn_recv_user_id = recv_user_id, cn_recv_user_username = recv_user_username,
       cn_unread_message_ids = set unread_message_ids\<rparr>) cl"

definition set_user_slot :: "int \<Rightarrow> bytes \<Rightarrow> client \<Rightarrow> client" where
  "set_user_slot i username cl = set_user (Some \<lparr>us_id = i, us_username = username\<rparr>) cl"

section \<open>Reconnecting\<close>

text \<open>The loop over the addresses: the first that is up, and the addresses behind it.\<close>

fun connect_loop :: "network \<Rightarrow> server_address list \<Rightarrow> server_address option \<times> server_address list" where
  "connect_loop net [] = (None, [])"
| "connect_loop net (a # as) = (if net a = None then connect_loop net as else (Some a, as))"

text \<open>\<open>locked\<close>: the thread holds \<open>channel_mutex_\<close> already. The check of the old connection is only
  logged.\<close>

definition handle_reconnect :: "bool \<Rightarrow> status_code \<Rightarrow> network \<Rightarrow> client \<Rightarrow> client outcome" where
  "handle_reconnect locked st net cl =
     (if st \<noteq> UNAVAILABLE then Returns cl
      else if cl_cluster_addresses cl = [] then Returns cl
      else if locked then Deadlocks
      else
        (case connect_loop net (cl_cluster_addresses cl) of
           (None, as) \<Rightarrow> Returns (cl\<lparr>cl_cluster_addresses := as\<rparr>)
         | (Some a, as) \<Rightarrow>
             (let cl = cl\<lparr>cl_channel := a, cl_cluster_addresses := [], cl_get_servers := a\<rparr>
              in case cl_user cl of
                   None \<Rightarrow> Returns cl
                 | Some u \<Rightarrow> Returns (start_readers u cl))))"

text \<open>The callbacks of the stream of GetServers: a response, and the end of the stream.\<close>

definition on_servers :: "server_address list \<Rightarrow> client \<Rightarrow> client" where
  "on_servers addresses cl = cl\<lparr>cl_cluster_addresses := cl_cluster_addresses cl @ addresses\<rparr>"

definition on_servers_done :: "status_code \<Rightarrow> network \<Rightarrow> client \<Rightarrow> client outcome" where
  "on_servers_done st net cl = handle_reconnect False st net cl"

section \<open>Requests\<close>

text \<open>The slots of \<open>main.cpp\<close> for the answers.\<close>

definition slot_other_users :: "bool \<Rightarrow> quser list \<Rightarrow> client \<Rightarrow> client" where
  "slot_other_users ok other_users cl =
     (if ok then cl\<lparr>cl_other_users := fst (other_users_set other_users (cl_other_users cl))\<rparr> else cl)"

definition slot_conversations :: "bool \<Rightarrow> qconversation list \<Rightarrow> client \<Rightarrow> client" where
  "slot_conversations ok cs cl =
     (if ok then cl\<lparr>cl_conversations := fst (conversations_set cs (cl_conversations cl))\<rparr> else cl)"

definition slot_delete_conversation :: "bool \<Rightarrow> int \<Rightarrow> client \<Rightarrow> client" where
  "slot_delete_conversation ok conversation_index cl =
     (if ok then cl\<lparr>cl_conversations := fst (conversations_remove conversation_index (cl_conversations cl))\<rparr> else cl)"

definition slot_messages :: "bool \<Rightarrow> int \<Rightarrow> qmessage list \<Rightarrow> client \<Rightarrow> client" where
  "slot_messages ok conversation_id ms cl =
     (if ok then cl\<lparr>cl_messages := fst (messages_set conversation_id ms (cl_messages cl))\<rparr> else cl)"

definition slot_delete_message :: "bool \<Rightarrow> int \<Rightarrow> client \<Rightarrow> client" where
  "slot_delete_message ok message_index cl =
     (if ok then cl\<lparr>cl_messages := fst (messages_remove message_index (cl_messages cl))\<rparr> else cl)"

text \<open>An answer that is not OK changes nothing that the client shows.\<close>

lemma slot_not_ok [simp]:
  "slot_other_users False us = (\<lambda>cl. cl)" "slot_conversations False cs = (\<lambda>cl. cl)"
  "slot_delete_conversation False i = (\<lambda>cl. cl)" "slot_messages False i ms = (\<lambda>cl. cl)"
  "slot_delete_message False i = (\<lambda>cl. cl)"
  by (simp_all add: fun_eq_iff slot_other_users_def slot_conversations_def slot_delete_conversation_def
      slot_messages_def slot_delete_message_def)

lemma slot_ok [simp]:
  "slot_other_users True us cl = cl\<lparr>cl_other_users := fst (other_users_set us (cl_other_users cl))\<rparr>"
  "slot_conversations True cs cl = cl\<lparr>cl_conversations := fst (conversations_set cs (cl_conversations cl))\<rparr>"
  "slot_delete_conversation True i cl = cl\<lparr>cl_conversations := fst (conversations_remove i (cl_conversations cl))\<rparr>"
  "slot_messages True i ms cl = cl\<lparr>cl_messages := fst (messages_set i ms (cl_messages cl))\<rparr>"
  "slot_delete_message True i cl = cl\<lparr>cl_messages := fst (messages_remove i (cl_messages cl))\<rparr>"
  by (simp_all add: slot_other_users_def slot_conversations_def slot_delete_conversation_def
      slot_messages_def slot_delete_message_def)

text \<open>The branch of a request whose status is not OK, with the shared lock still held.\<close>

definition failed :: "status_code \<Rightarrow> network \<Rightarrow> client \<Rightarrow> (client \<Rightarrow> client) \<Rightarrow> (client \<times> network) outcome" where
  "failed st net cl k = and_then (handle_reconnect True st net cl) (\<lambda>cl. Returns (k cl, net))"

definition request_signin_user :: "engine \<Rightarrow> bytes \<Rightarrow> bytes \<Rightarrow> client \<times> network \<Rightarrow> (client \<times> network) outcome" where
  "request_signin_user en user_username user_password s =
     (case s of (cl, net) \<Rightarrow>
        (case call (cl_channel cl) (signin_user en user_username user_password) net of
           (Rpc_Ok i, net) \<Rightarrow>
             Returns (emit_signal (Signin_User_Response True)
               (set_user (Some \<lparr>us_id = int_of_id i, us_username = user_username\<rparr>) cl), net)
         | (Rpc_Error st, net) \<Rightarrow> failed st net cl (emit_signal (Signin_User_Response False))))"

definition request_signup_user ::
    "engine \<Rightarrow> bytes \<Rightarrow> bytes \<Rightarrow> bytes \<Rightarrow> client \<times> network \<Rightarrow> (client \<times> network) outcome" where
  "request_signup_user en user_username user_password salt s =
     (case s of (cl, net) \<Rightarrow>
        (case call (cl_channel cl) (signup_user en user_username user_password salt) net of
           (Rpc_Ok i, net) \<Rightarrow>
             Returns (emit_signal (Signup_User_Response True)
               (set_user (Some \<lparr>us_id = int_of_id i, us_username = user_username\<rparr>) cl), net)
         | (Rpc_Error st, net) \<Rightarrow> failed st net cl (emit_signal (Signup_User_Response False))))"

definition request_signout_user :: "client \<times> network \<Rightarrow> (client \<times> network) outcome" where
  "request_signout_user s =
     (case s of (cl, net) \<Rightarrow>
        (case cl_user cl of
           None \<Rightarrow> Returns (cl, net)
         | Some u \<Rightarrow>
             (case call (cl_channel cl) (signout_user (id_of_int (us_id u))) net of
                (Rpc_Ok _, net) \<Rightarrow> Returns (emit_signal (Signout_User_Response True) (set_user None cl), net)
              | (Rpc_Error st, net) \<Rightarrow> failed st net cl (emit_signal (Signout_User_Response False)))))"

definition request_delete_user :: "engine \<Rightarrow> bytes \<Rightarrow> client \<times> network \<Rightarrow> (client \<times> network) outcome" where
  "request_delete_user en user_password s =
     (case s of (cl, net) \<Rightarrow>
        (case cl_user cl of
           None \<Rightarrow> Returns (cl, net)
         | Some u \<Rightarrow>
             (case call (cl_channel cl) (delete_user_rpc en (id_of_int (us_id u)) user_password) net of
                (Rpc_Ok _, net) \<Rightarrow> Returns (emit_signal (Delete_User_Response True) (set_user None cl), net)
              | (Rpc_Error st, net) \<Rightarrow> failed st net cl (emit_signal (Delete_User_Response False)))))"

text \<open>The offset of the request stays 0.\<close>

definition request_get_other_users :: "engine \<Rightarrow> bytes \<Rightarrow> client \<times> network \<Rightarrow> (client \<times> network) outcome" where
  "request_get_other_users en query s =
     (case s of (cl, net) \<Rightarrow>
        (case cl_user cl of
           None \<Rightarrow> Returns (cl, net)
         | Some u \<Rightarrow>
             (case call (cl_channel cl) (get_other_users en (id_of_int (us_id u)) query 10 0) net of
                (Rpc_Ok rows, net) \<Rightarrow>
                  (let other_users = map (\<lambda>(i, username). \<lparr>us_id = int_of_id i, us_username = username\<rparr>) rows
                   in Returns (slot_other_users True other_users cl, net))
              | (Rpc_Error st, net) \<Rightarrow> failed st net cl (slot_other_users False []))))"

text \<open>The slot of \<open>addConversation\<close>.\<close>

definition add_conversation :: "qconversation \<Rightarrow> client \<Rightarrow> client" where
  "add_conversation c cl = cl\<lparr>cl_conversations := fst (conversations_prepend c (cl_conversations cl))\<rparr>"

definition qconversation_of :: "int \<Rightarrow> int \<Rightarrow> conversation \<Rightarrow> qconversation" where
  "qconversation_of i recv_user_id c =
     \<lparr>cn_id = i, cn_recv_user_id = recv_user_id, cn_recv_user_username = cv_recv_user_username c,
      cn_unread_message_ids = set (map int_of_id (cv_unread_message_ids c))\<rparr>"

definition request_create_conversation :: "engine \<Rightarrow> int \<Rightarrow> client \<times> network \<Rightarrow> (client \<times> network) outcome" where
  "request_create_conversation en recv_user_id s =
     (case s of (cl, net) \<Rightarrow>
        (case cl_user cl of
           None \<Rightarrow> Returns (cl, net)
         | Some u \<Rightarrow>
             (case call (cl_channel cl) (create_conversation en (id_of_int (us_id u)) (id_of_int recv_user_id)) net of
                (Rpc_Ok c, net) \<Rightarrow>
                  (let conversation = qconversation_of (int_of_id (cv_id c)) recv_user_id c
                   in Returns (add_conversation conversation (emit_signal (Create_Conversation_Response True)
                        (set_conversation (Some conversation) cl)), net))
              | (Rpc_Error st, net) \<Rightarrow> failed st net cl (emit_signal (Create_Conversation_Response False)))))"

text \<open>The request is never given the user, so it carries 0.\<close>

definition request_get_conversation :: "engine \<Rightarrow> int \<Rightarrow> client \<times> network \<Rightarrow> (client \<times> network) outcome" where
  "request_get_conversation en conversation_id s =
     (case s of (cl, net) \<Rightarrow>
        (case cl_user cl of
           None \<Rightarrow> Returns (cl, net)
         | Some u \<Rightarrow>
             (case call (cl_channel cl) (get_conversation en 0 (id_of_int conversation_id)) net of
                (Rpc_Ok c, net) \<Rightarrow>
                  Returns (add_conversation (qconversation_of conversation_id (int_of_id (cv_recv_user_id c)) c) cl, net)
              | (Rpc_Error st, net) \<Rightarrow> failed st net cl (\<lambda>cl. cl))))"

definition request_get_conversations :: "engine \<Rightarrow> client \<times> network \<Rightarrow> (client \<times> network) outcome" where
  "request_get_conversations en s =
     (case s of (cl, net) \<Rightarrow>
        (case cl_user cl of
           None \<Rightarrow> Returns (cl, net)
         | Some u \<Rightarrow>
             (case call (cl_channel cl) (get_conversations en (id_of_int (us_id u))) net of
                (Rpc_Ok cs, net) \<Rightarrow>
                  (let conversations = map (\<lambda>c. qconversation_of (int_of_id (cv_id c)) (int_of_id (cv_recv_user_id c)) c) cs
                   in Returns (slot_conversations True conversations cl, net))
              | (Rpc_Error st, net) \<Rightarrow> failed st net cl (slot_conversations False []))))"

definition request_delete_conversation :: "int \<Rightarrow> int \<Rightarrow> client \<times> network \<Rightarrow> (client \<times> network) outcome" where
  "request_delete_conversation conversation_id conversation_index s =
     (case s of (cl, net) \<Rightarrow>
        (case cl_user cl of
           None \<Rightarrow> Returns (cl, net)
         | Some u \<Rightarrow>
             (case call (cl_channel cl) (delete_conversation_rpc (id_of_int conversation_id)) net of
                (Rpc_Ok _, net) \<Rightarrow>
                  Returns (slot_delete_conversation True conversation_index cl, net)
              | (Rpc_Error st, net) \<Rightarrow> failed st net cl (slot_delete_conversation False conversation_index))))"

definition request_send_message :: "engine \<Rightarrow> nat \<Rightarrow> bytes \<Rightarrow> client \<times> network \<Rightarrow> (client \<times> network) outcome" where
  "request_send_message en now message_content s =
     (case s of (cl, net) \<Rightarrow>
        (case (cl_user cl, cl_conversation cl) of
           (None, _) \<Rightarrow> Returns (cl, net)
         | (Some u, None) \<Rightarrow> Crashes
         | (Some u, Some c) \<Rightarrow>
             (case call (cl_channel cl) (send_message_rpc en now (id_of_int (cn_id c)) (id_of_int (us_id u)) message_content) net of
                (Rpc_Ok _, net) \<Rightarrow> Returns (cl, net)
              | (Rpc_Error st, net) \<Rightarrow> failed st net cl (\<lambda>cl. cl))))"

text \<open>Both branches write the identifier of the open conversation to the log. The identifiers go out
  in the order of the set's iterator, an argument.\<close>

definition request_read_messages ::
    "engine \<Rightarrow> int \<Rightarrow> int list \<Rightarrow> client \<times> network \<Rightarrow> (client \<times> network) outcome" where
  "request_read_messages en conversation_id read_message_ids s =
     (case s of (cl, net) \<Rightarrow>
        (case cl_user cl of
           None \<Rightarrow> Returns (cl, net)
         | Some u \<Rightarrow>
             (case call (cl_channel cl)
                 (read_messages_rpc en (id_of_int (us_id u)) (id_of_int conversation_id) (map id_of_int read_message_ids)) net of
                (result, net) \<Rightarrow>
                  if cl_conversation cl = None then Crashes
                  else
                    (case result of
                       Rpc_Ok _ \<Rightarrow> Returns (cl, net)
                     | Rpc_Error st \<Rightarrow> failed st net cl (\<lambda>cl. cl)))))"

text \<open>\<open>order\<close> is the order in which a set is run through.\<close>

definition request_get_messages :: "engine \<Rightarrow> (int set \<Rightarrow> int list) \<Rightarrow> client \<times> network \<Rightarrow> (client \<times> network) outcome" where
  "request_get_messages en order s =
     (case s of (cl, net) \<Rightarrow>
        (case (cl_user cl, cl_conversation cl) of
           (None, _) \<Rightarrow> Returns (cl, net)
         | (Some u, None) \<Rightarrow> Crashes
         | (Some u, Some c) \<Rightarrow>
             (case call (cl_channel cl) (get_messages en (id_of_int (cn_id c))) net of
                (Rpc_Ok rows, net) \<Rightarrow>
                  (let messages = map (\<lambda>m. \<lparr>ms_id = int_of_id (cm_id m), ms_send_user_id = int_of_id (cm_send_user_id m),
                         ms_is_read = True, ms_content = cm_content m\<rparr>) rows
                   in and_then
                        (if cn_unread_message_ids c \<noteq> {}
                         then request_read_messages en (cn_id c) (order (cn_unread_message_ids c)) (cl, net)
                         else Returns (cl, net))
                        (\<lambda>(cl, net). Returns (slot_messages True (cn_id c) messages cl, net)))
              | (Rpc_Error st, net) \<Rightarrow> failed st net cl (slot_messages False (cn_id c) []))))"

definition request_delete_message :: "int \<Rightarrow> int \<Rightarrow> client \<times> network \<Rightarrow> (client \<times> network) outcome" where
  "request_delete_message message_id message_index s =
     (case s of (cl, net) \<Rightarrow>
        (case (cl_user cl, cl_conversation cl) of
           (None, _) \<Rightarrow> Returns (cl, net)
         | (Some u, None) \<Rightarrow> Crashes
         | (Some u, Some c) \<Rightarrow>
             (case call (cl_channel cl) (delete_message_rpc (id_of_int (cn_id c)) (id_of_int message_id)) net of
                (Rpc_Ok _, net) \<Rightarrow>
                  Returns (slot_delete_message True message_index cl, net)
              | (Rpc_Error st, net) \<Rightarrow> failed st net cl (slot_delete_message False message_index))))"

section \<open>Streams\<close>

text \<open>The callbacks of the two streams of the user; they run without the lock.\<close>

definition on_receive_message :: "engine \<Rightarrow> u64 \<Rightarrow> u64 \<Rightarrow> u64 \<Rightarrow> bytes \<Rightarrow> client \<times> network \<Rightarrow> (client \<times> network) outcome" where
  "on_receive_message en conversation_id i send_user_id content s =
     (case s of (cl, net) \<Rightarrow>
        (case cl_user cl of
           None \<Rightarrow> Crashes
         | Some u \<Rightarrow>
             and_then
               (if send_user_id \<noteq> id_of_int (us_id u) then
                  (let message_id = int_of_id i in
                   case cl_conversation cl of
                     Some c \<Rightarrow>
                       if id_of_int (cn_id c) = conversation_id
                       then request_read_messages en (cn_id c) [message_id] (cl, net)
                       else Returns (post (Unread_Message (int_of_id conversation_id) message_id) cl, net)
                   | None \<Rightarrow> Returns (post (Unread_Message (int_of_id conversation_id) message_id) cl, net))
                else Returns (cl, net))
               (\<lambda>(cl, net). Returns
                 (post (Receive_Message_Response (int_of_id conversation_id)
                    \<lparr>ms_id = int_of_id i, ms_send_user_id = int_of_id send_user_id, ms_is_read = False, ms_content = content\<rparr>)
                    cl, net))))"

definition on_receive_read :: "u64 \<Rightarrow> u64 list \<Rightarrow> client \<Rightarrow> client" where
  "on_receive_read conversation_id message_ids cl =
     post (Receive_Read_Messages_Response (int_of_id conversation_id) (map int_of_id message_ids)) cl"

text \<open>The slots of the queued signals.\<close>

definition slot_receive_message :: "int \<Rightarrow> qmessage \<Rightarrow> client \<Rightarrow> client" where
  "slot_receive_message conversation_id message cl =
     (if mm_conversation_id (cl_messages cl) = Some conversation_id
      then cl\<lparr>cl_messages := fst (messages_append message (cl_messages cl))\<rparr>
      else cl)"

definition slot_unread_message :: "engine \<Rightarrow> int \<Rightarrow> int \<Rightarrow> client \<times> network \<Rightarrow> (client \<times> network) outcome" where
  "slot_unread_message en conversation_id message_id s =
     (case s of (cl, net) \<Rightarrow>
        (case conversations_instance conversation_id (cl_conversations cl) of
           Some (c, index) \<Rightarrow>
             (let cs = fst (conversations_update index (add_unread_message_id message_id) (cl_conversations cl));
                  cs = fst (conversations_move (int index) 0 cs)
              in Returns (cl\<lparr>cl_conversations := cs\<rparr>, net))
         | None \<Rightarrow> request_get_conversation en conversation_id (cl, net)))"

definition slot_receive_read :: "int \<Rightarrow> int list \<Rightarrow> client \<Rightarrow> client" where
  "slot_receive_read conversation_id read_message_ids cl =
     (case conversations_instance conversation_id (cl_conversations cl) of
        Some (c, index) \<Rightarrow>
          (let cs = fst (conversations_update index (remove_unread_message_ids read_message_ids) (cl_conversations cl));
               cs = fst (conversations_move (int index) 0 cs)
           in cl\<lparr>cl_conversations := cs\<rparr>)
      | None \<Rightarrow> cl)"

text \<open>The first queued signal is delivered.\<close>

definition deliver :: "engine \<Rightarrow> client \<times> network \<Rightarrow> (client \<times> network) outcome" where
  "deliver en s =
     (case s of (cl, net) \<Rightarrow>
        (case cl_queue cl of
           [] \<Rightarrow> Returns (cl, net)
         | q # qs \<Rightarrow>
             (let cl = cl\<lparr>cl_queue := qs\<rparr> in
              case q of
                Receive_Message_Response c m \<Rightarrow> Returns (slot_receive_message c m cl, net)
              | Unread_Message c i \<Rightarrow> slot_unread_message en c i (cl, net)
              | Receive_Read_Messages_Response c ms \<Rightarrow> Returns (slot_receive_read c ms cl, net))))"

section \<open>Runs\<close>

datatype client_event =
    Do_Signin bytes bytes
  | Do_Signup bytes bytes bytes
  | Do_Signout
  | Do_Delete_User bytes
  | Do_Get_Other_Users bytes
  | Do_Create_Conversation int
  | Do_Get_Conversation int
  | Do_Get_Conversations
  | Do_Delete_Conversation int int
  | Do_Send_Message nat bytes
  | Do_Read_Messages int "int list"
  | Do_Get_Messages "int set \<Rightarrow> int list"
  | Do_Delete_Message int int
  | Set_User int bytes
  | Set_Conversation int int bytes "int list"
  | On_Servers "server_address list"
  | On_Servers_Done status_code
  | On_Receive_Message u64 u64 u64 bytes
  | On_Receive_Read u64 "u64 list"
  | Deliver

fun client_step :: "engine \<Rightarrow> client_event \<Rightarrow> client \<times> network \<Rightarrow> (client \<times> network) outcome" where
  "client_step en (Do_Signin name password) s = request_signin_user en name password s"
| "client_step en (Do_Signup name password salt) s = request_signup_user en name password salt s"
| "client_step en Do_Signout s = request_signout_user s"
| "client_step en (Do_Delete_User password) s = request_delete_user en password s"
| "client_step en (Do_Get_Other_Users query) s = request_get_other_users en query s"
| "client_step en (Do_Create_Conversation u) s = request_create_conversation en u s"
| "client_step en (Do_Get_Conversation c) s = request_get_conversation en c s"
| "client_step en Do_Get_Conversations s = request_get_conversations en s"
| "client_step en (Do_Delete_Conversation c i) s = request_delete_conversation c i s"
| "client_step en (Do_Send_Message now content) s = request_send_message en now content s"
| "client_step en (Do_Read_Messages c ms) s = request_read_messages en c ms s"
| "client_step en (Do_Get_Messages order) s = request_get_messages en order s"
| "client_step en (Do_Delete_Message m i) s = request_delete_message m i s"
| "client_step en (Set_User i name) (cl, net) = Returns (set_user_slot i name cl, net)"
| "client_step en (Set_Conversation i u name ms) (cl, net) = Returns (set_conversation_slot i u name ms cl, net)"
| "client_step en (On_Servers as) (cl, net) = Returns (on_servers as cl, net)"
| "client_step en (On_Servers_Done st) (cl, net) = and_then (on_servers_done st net cl) (\<lambda>cl. Returns (cl, net))"
| "client_step en (On_Receive_Message c i u content) s = on_receive_message en c i u content s"
| "client_step en (On_Receive_Read c ms) (cl, net) = Returns (on_receive_read c ms cl, net)"
| "client_step en Deliver s = deliver en s"

text \<open>The servers change between the events as they like.\<close>

inductive client_run :: "engine \<Rightarrow> server_address \<Rightarrow> client \<Rightarrow> network \<Rightarrow> bool" for en a where
  start: "client_run en a (new_client a) net"
| event: "client_run en a cl net \<Longrightarrow> client_step en ev (cl, net) = Returns (cl', net') \<Longrightarrow> client_run en a cl' net'"
| others: "client_run en a cl net \<Longrightarrow> client_run en a cl net'"

section \<open>What a client keeps\<close>

text \<open>The streams are those of the user and the server of the client; without a user there are no
  conversations, and without a user or an open conversation no messages.\<close>

definition client_ok :: "client \<Rightarrow> bool" where
  "client_ok cl \<longleftrightarrow>
     cl_receive_message cl = map_option (\<lambda>u. (cl_channel cl, id_of_int (us_id u))) (cl_user cl) \<and>
     cl_receive_read cl = cl_receive_message cl \<and> cl_get_servers cl = cl_channel cl \<and>
     (cl_user cl = None \<longrightarrow> cl_conversations cl = []) \<and>
     (cl_user cl = None \<or> cl_conversation cl = None \<longrightarrow> cl_messages cl = \<lparr>mm_conversation_id = None, mm_rows = []\<rparr>)"

lemmas request_defs = request_signin_user_def request_signup_user_def request_signout_user_def request_delete_user_def
  request_get_other_users_def request_create_conversation_def request_get_conversation_def request_get_conversations_def
  request_delete_conversation_def request_send_message_def request_read_messages_def request_get_messages_def
  request_delete_message_def

lemma and_then_Returns [simp]: "and_then x f = Returns y \<longleftrightarrow> (\<exists>z. x = Returns z \<and> f z = Returns y)"
  by (cases x) auto

text \<open>Under the lock a reconnection that returns has done nothing.\<close>

lemma failed_Returns [simp]:
  "failed st net cl k = Returns s \<longleftrightarrow> s = (k cl, net) \<and> (st \<noteq> UNAVAILABLE \<or> cl_cluster_addresses cl = [])"
  by (auto simp: failed_def handle_reconnect_def split: if_splits)

lemma client_ok_new: "client_ok (new_client a)"
  by (simp add: client_ok_def new_client_def)

lemma client_ok_signal [simp]:
  "client_ok (emit_signal sg cl) = client_ok cl" "client_ok (post q cl) = client_ok cl"
  "client_ok (cl\<lparr>cl_queue := qs\<rparr>) = client_ok cl" "client_ok (cl\<lparr>cl_other_users := us\<rparr>) = client_ok cl"
  "client_ok (on_servers as cl) = client_ok cl" "client_ok (cl\<lparr>cl_cluster_addresses := as\<rparr>) = client_ok cl"
  by (simp_all add: client_ok_def emit_signal_def post_def on_servers_def)

lemma client_ok_set_conversation [inv_intros]: "client_ok cl \<Longrightarrow> client_ok (set_conversation c cl)"
  by (auto simp: client_ok_def set_conversation_def messages_reset_def Let_def)

lemma client_ok_set_user [inv_intros]: "client_ok cl \<Longrightarrow> client_ok (set_user u cl)"
  by (cases u) (auto simp: client_ok_def set_user_def set_conversation_def start_readers_def messages_reset_def
      conversations_reset_def Let_def)

lemma client_ok_conversations [inv_intros]:
  "client_ok cl \<Longrightarrow> cl_user cl \<noteq> None \<Longrightarrow> client_ok (cl\<lparr>cl_conversations := cs\<rparr>)"
  by (auto simp: client_ok_def)

lemma client_ok_messages [inv_intros]:
  "client_ok cl \<Longrightarrow> cl_user cl \<noteq> None \<Longrightarrow> cl_conversation cl \<noteq> None \<Longrightarrow> client_ok (cl\<lparr>cl_messages := mm\<rparr>)"
  by (auto simp: client_ok_def)

lemma setters_user [simp]:
  "cl_user (emit_signal sg cl) = cl_user cl" "cl_user (set_conversation c cl) = cl_user cl"
  "cl_user (post q cl) = cl_user cl"
  by (simp_all add: emit_signal_def set_conversation_def post_def Let_def)

lemma client_ok_reconnect:
  assumes "client_ok cl" "handle_reconnect locked st net cl = Returns cl'"
  shows "client_ok cl'"
  using assms
  by (auto simp: handle_reconnect_def client_ok_def start_readers_def Let_def split: if_splits prod.splits option.splits)

lemma request_client_ok:
  assumes "client_ok cl"
  shows "request_signin_user en n p (cl, net) = Returns (cl', net') \<Longrightarrow> client_ok cl'"
    and "request_signup_user en n p salt (cl, net) = Returns (cl', net') \<Longrightarrow> client_ok cl'"
    and "request_signout_user (cl, net) = Returns (cl', net') \<Longrightarrow> client_ok cl'"
    and "request_delete_user en p (cl, net) = Returns (cl', net') \<Longrightarrow> client_ok cl'"
    and "request_get_other_users en q (cl, net) = Returns (cl', net') \<Longrightarrow> client_ok cl'"
    and "request_create_conversation en i (cl, net) = Returns (cl', net') \<Longrightarrow> client_ok cl'"
    and "request_get_conversation en i (cl, net) = Returns (cl', net') \<Longrightarrow> client_ok cl'"
    and "request_get_conversations en (cl, net) = Returns (cl', net') \<Longrightarrow> client_ok cl'"
    and "request_delete_conversation i j (cl, net) = Returns (cl', net') \<Longrightarrow> client_ok cl'"
    and "request_send_message en now content (cl, net) = Returns (cl', net') \<Longrightarrow> client_ok cl'"
    and "request_delete_message i j (cl, net) = Returns (cl', net') \<Longrightarrow> client_ok cl'"
  using assms
  by (auto simp: request_defs add_conversation_def Let_def intro!: inv_intros
      split: option.splits prod.splits rpc.splits)

lemma request_read_messages_same:
  "request_read_messages en c ms (cl, net) = Returns (cl', net') \<Longrightarrow> cl' = cl"
  by (auto simp: request_read_messages_def split: option.splits prod.splits rpc.splits if_splits)

lemma request_get_messages_ok:
  assumes "client_ok cl" "request_get_messages en order (cl, net) = Returns (cl', net')"
  shows "client_ok cl'"
  using assms
  by (auto simp: request_get_messages_def Let_def dest!: request_read_messages_same intro!: client_ok_messages
      split: option.splits prod.splits rpc.splits if_splits)

lemma find_if_Nil [simp]: "conversations_instance i [] = None"
  by (simp add: conversations_instance_def)

lemma client_step_ok:
  assumes "client_ok cl" "client_step en ev (cl, net) = Returns (cl', net')"
  shows "client_ok cl'"
proof (cases ev)
  case (On_Receive_Message c i u content)
  then show ?thesis
    using assms by (auto simp: on_receive_message_def Let_def dest!: request_read_messages_same
        split: option.splits prod.splits if_splits)
next
  case Deliver
  then show ?thesis
  proof (cases "cl_queue cl")
    case (Cons q qs)
    let ?cl = "cl\<lparr>cl_queue := qs\<rparr>"
    have ok: "client_ok ?cl" using assms(1) by simp
    have known: "cl_user cl \<noteq> None" if "conversations_instance c (cl_conversations cl) = Some x" for c x
      using that assms(1) by (auto simp: client_ok_def)
    show ?thesis
    proof (cases q)
      case (Receive_Message_Response c m)
      have "cl_user cl \<noteq> None \<and> cl_conversation cl \<noteq> None" if "mm_conversation_id (cl_messages cl) = Some c"
        using that assms(1) by (auto simp: client_ok_def)
      then show ?thesis
        using assms ok Deliver Cons Receive_Message_Response
        by (auto simp: deliver_def slot_receive_message_def Let_def intro!: client_ok_messages)
    next
      case (Unread_Message c i)
      then show ?thesis
        using assms ok Deliver Cons known [of c] request_client_ok(7) [OF ok]
        by (auto simp: deliver_def slot_unread_message_def Let_def intro!: client_ok_conversations
            split: option.splits prod.splits)
    next
      case (Receive_Read_Messages_Response c ms)
      then show ?thesis
        using assms ok Deliver Cons known [of c]
        by (auto simp: deliver_def slot_receive_read_def Let_def intro!: client_ok_conversations
            split: option.splits prod.splits)
    qed
  qed (use assms in \<open>auto simp: deliver_def\<close>)
next
  case (On_Servers_Done st)
  then show ?thesis using assms client_ok_reconnect by (auto simp: on_servers_done_def)
qed (use assms request_client_ok [OF assms(1)] request_get_messages_ok [OF assms(1)] in
    \<open>auto simp: set_user_slot_def set_conversation_slot_def on_receive_read_def dest: request_read_messages_same
      intro: inv_intros\<close>)

section \<open>Reconnection\<close>

lemma on_servers_fold: "cl_cluster_addresses (fold on_servers out cl) = cl_cluster_addresses cl @ concat out"
  by (induction out arbitrary: cl) (simp_all add: on_servers_def)

lemma connect_loop_first:
  "list_ex (\<lambda>a. net a \<noteq> None) as \<Longrightarrow>
    \<exists>rest. connect_loop net as = (Some (hd (filter (\<lambda>a. net a \<noteq> None) as)), rest) \<and> net (hd (filter (\<lambda>a. net a \<noteq> None) as)) \<noteq> None"
  by (induction as) auto

lemma start_readers_channel [simp]:
  "cl_channel (start_readers u cl) = cl_channel cl"
  "cl_cluster_addresses (start_readers u cl) = cl_cluster_addresses cl"
  by (simp_all add: start_readers_def)

lemma reconnect_unlocked:
  assumes "list_ex (\<lambda>a. net a \<noteq> None) (cl_cluster_addresses cl)"
  shows "\<exists>cl'. handle_reconnect False UNAVAILABLE net cl = Returns cl' \<and> cl_cluster_addresses cl' = [] \<and>
    cl_channel cl' = hd (filter (\<lambda>a. net a \<noteq> None) (cl_cluster_addresses cl)) \<and> net (cl_channel cl') \<noteq> None"
proof -
  have "cl_cluster_addresses cl \<noteq> []" using assms by auto
  with connect_loop_first [OF assms] show ?thesis
    by (auto simp: handle_reconnect_def Let_def split: option.splits)
qed

lemma follow_self:
  "me \<notin> set us \<Longrightarrow> follow me down (us @ [me]) = Some (me, rest) \<Longrightarrow> rest = []"
  by (induction us) (auto split: if_splits)

text \<open>The requests that wait for an answer of the server.\<close>

fun asks_server :: "client_event \<Rightarrow> bool" where
  "asks_server (Set_User i name) \<longleftrightarrow> False"
| "asks_server (Set_Conversation i u name ms) \<longleftrightarrow> False"
| "asks_server (On_Servers as) \<longleftrightarrow> False"
| "asks_server (On_Servers_Done st) \<longleftrightarrow> False"
| "asks_server (On_Receive_Message c i u content) \<longleftrightarrow> False"
| "asks_server (On_Receive_Read c ms) \<longleftrightarrow> False"
| "asks_server Deliver \<longleftrightarrow> False"
| "asks_server _ \<longleftrightarrow> True"

lemma call_down: "net a = None \<Longrightarrow> call a f net = (Rpc_Error UNAVAILABLE, net)"
  by (simp add: call_def)

lemma failed_deadlocks: "cl_cluster_addresses cl \<noteq> [] \<Longrightarrow> failed UNAVAILABLE net cl k = Deadlocks"
  by (simp add: failed_def handle_reconnect_def)

section \<open>Properties\<close>


text \<open>C15: a client of the leader that knows the replicas turns, when the leader stops, to the very
  server that every replica that is up chooses as the new leader. But that server's own list is empty
  by then, so a client that has received it does not reconnect when the new leader stops.\<close>
theorem client_joins_new_leader:
  assumes "link_reachable lk" and "(w, out) \<in> set (lk_clients lk)" and "distinct (lk_cluster_addresses lk)"
    and "join_all (lk_cluster_addresses lk) t new_link = (joined, lk')" and "(me, own) \<in> set joined" and "net me \<noteq> None"
    and "cl_cluster_addresses cl = []"
  shows "\<exists>cl' rest. on_servers_done UNAVAILABLE net (fold on_servers out cl) = Returns cl' \<and>
    follow me (\<lambda>a. net a = None) own = Some (cl_channel cl', rest) \<and>
    (cl_channel cl' = me \<longrightarrow>
      on_servers_done UNAVAILABLE net' (on_servers rest cl') = Returns (on_servers rest cl'))"
proof -
  let ?as = "lk_cluster_addresses lk"
  have as: "cl_cluster_addresses (fold on_servers out cl) = ?as"
    using assms(7) clients_have_servers [OF assms(1,2)] by (simp add: on_servers_fold)
  obtain us vs where us: "?as = us @ me # vs" "own = us @ [me]" "me \<notin> set us"
    using join_all_lists [OF assms(4,5)] assms(3) by (auto simp: new_link_def)
  have "list_ex (\<lambda>a. net a \<noteq> None) ?as" using us(1) assms(6) by simp
  then obtain cl' where cl': "on_servers_done UNAVAILABLE net (fold on_servers out cl) = Returns cl'"
    "cl_cluster_addresses cl' = []" "cl_channel cl' = hd (filter (\<lambda>a. net a \<noteq> None) ?as)"
    using reconnect_unlocked [of net "fold on_servers out cl"] as by (auto simp: on_servers_done_def)
  have "hd (filter (\<lambda>a. net a \<noteq> None) ?as) = hd (filter (\<lambda>a. \<not> net a = None) (us @ [me]))"
    using us(1) assms(6) by (cases "filter (\<lambda>a. net a \<noteq> None) us") simp_all
  then obtain rest where f: "follow me (\<lambda>a. net a = None) own = Some (cl_channel cl', rest)"
    using follow_prefix [of "\<lambda>a. net a = None" me us "[]"] us assms(6) cl'(3) by auto
  have "rest = []" if "cl_channel cl' = me" using follow_self us(2,3) f that by metis
  then show ?thesis using cl' f by (auto simp: on_servers_done_def handle_reconnect_def on_servers_def)
qed



text \<open>Of two replicas the first is down.\<close>
theorem client_joins_new_leader_witness:
  "\<exists>cl' rest. on_servers_done UNAVAILABLE (\<lambda>a. if snd a = 2 then Some (new_service []) else None)
      (fold on_servers [[], [([97], 1)], [([98], 2)]] (new_client ([96], 0))) = Returns cl' \<and>
    follow ([98], 2) (\<lambda>a. (if snd a = 2 then Some (new_service []) else None) = None) [([97], 1), ([98], 2)] =
      Some (cl_channel cl', rest)"
proof -
  define lk where "lk = snd (identify_myself ([98], 2) no_tables (snd (identify_myself ([97], 1) no_tables
    (get_servers_open 1 new_link))))"
  note defs = lk_def new_link_def get_servers_open_def identify_myself_def join_cluster_def Let_def
  have reach: "link_reachable lk"
    unfolding lk_def by (intro link_reachable.intros) (simp add: new_link_def)
  have lk: "lk_clients lk = [(1, [[], [([97], 1)], [([98], 2)]])]" "lk_cluster_addresses lk = [([97], 1), ([98], 2)]"
    by (simp_all add: defs)
  obtain joined lk' where j: "join_all (lk_cluster_addresses lk) no_tables new_link = (joined, lk')"
    and m: "(([98], 2), [([97], 1), ([98], 2)]) \<in> set joined"
    using lk by (simp add: new_link_def identify_myself_def join_cluster_def Let_def)
  have "(1, [[], [([97], 1)], [([98], 2)]]) \<in> set (lk_clients lk)" by (simp add: lk)
  from client_joins_new_leader [OF reach this _ j m, of "\<lambda>a. if snd a = 2 then Some (new_service []) else None"
      "new_client ([96], 0)"] lk
  show ?thesis by (auto simp: new_client_def)
qed


end
