(* ===== verification/ChatTalk.thy ===== *)
theory ChatTalk
  imports ChatClient
begin

text \<open>
  The client of converse and its server together: what a client shows of the server's data, and what
  happens to a message on its way.
\<close>

section \<open>Conversations\<close>

lemma set_member_groups:
  assumes "engine_ok en"
  shows "set (member_groups ok en t) =
    (\<lambda>(c, i, name). (c, i, name, join_ids (concat (map (\<lambda>_. unread_from en c i t)
      (filter (\<lambda>g. g = (c, i, name))
        (concat (map (\<lambda>cu. map (\<lambda>u. (cu_conversation cu, cu_user cu, u_username u))
          (filter (\<lambda>u. u_id u = cu_user cu \<and> ok cu u) (users t))) (members t))))))))
    ` {(cu_conversation cu, cu_user cu, u_username u) | cu u. cu \<in> set (members t) \<and> u \<in> set (users t) \<and>
        u_id u = cu_user cu \<and> ok cu u}"
  unfolding member_groups_def Let_def engine_order [OF assms] set_map
  by (rule arg_cong2 [of _ _ _ _ image]) auto

text \<open>The identifiers of the unread messages, after they went through a text and to the client.\<close>

definition client_unread :: "int \<Rightarrow> int \<Rightarrow> tables \<Rightarrow> int set" where
  "client_unread c u t =
     (\<lambda>m. int_of_id (of_int64 (m_id m))) ` {m \<in> set (messages t). m_conversation m = c \<and> m_user m = u \<and> \<not> m_read m}"

lemma set_unread_from:
  "engine_ok en \<Longrightarrow> set (unread_from en c u t) = m_id ` {m \<in> set (messages t). m_conversation m = c \<and> m_user m = u \<and> \<not> m_read m}"
  by (auto simp: unread_from_def engine_order)

lemma set_repeated: "set (concat (map (\<lambda>_. xs) (filter (\<lambda>y. y = x) ys))) = (if x \<in> set ys then set xs else {})"
  by (cases "x \<in> set ys") (auto simp: filter_empty_conv)

lemma image_setcompr2: "f ` {g x y | x y. P x y} = {f (g x y) | x y. P x y}"
  by blast

text \<open>What the client makes of a row of the query.\<close>

definition client_row :: "int \<times> int \<times> bytes \<times> bytes \<Rightarrow> qconversation" where
  "client_row row = (let c = conversation_of_row row in
     qconversation_of (int_of_id (cv_id c)) (int_of_id (cv_recv_user_id c)) c)"

lemma client_row_simps:
  "client_row (c, i, name, join_ids ms) =
     \<lparr>cn_id = int_of_id (of_int64 c), cn_recv_user_id = int_of_id (of_int64 i), cn_recv_user_username = name,
      cn_unread_message_ids = (\<lambda>m. int_of_id (of_int64 m)) ` set ms\<rparr>"
  by (simp add: client_row_def conversation_of_row_def qconversation_of_def split_join_ids Let_def image_image)

lemma client_rows_member_groups:
  assumes "engine_ok en"
  shows "client_row ` set (member_groups ok en t) =
    {\<lparr>cn_id = int_of_id (of_int64 (cu_conversation cu)), cn_recv_user_id = int_of_id (of_int64 (cu_user cu)),
      cn_recv_user_username = u_username u, cn_unread_message_ids = client_unread (cu_conversation cu) (cu_user cu) t\<rparr> | cu u.
      cu \<in> set (members t) \<and> u \<in> set (users t) \<and> u_id u = cu_user cu \<and> ok cu u}"
proof -
  let ?joined = "concat (map (\<lambda>cu. map (\<lambda>u. (cu_conversation cu, cu_user cu, u_username u))
      (filter (\<lambda>u. u_id u = cu_user cu \<and> ok cu u) (users t))) (members t))"
  let ?row = "\<lambda>(c, i, name). (c, i, name, join_ids (concat (map (\<lambda>_. unread_from en c i t)
      (filter (\<lambda>g. g = (c, i, name)) ?joined))))"
  let ?J = "{(cu_conversation cu, cu_user cu, u_username u) | cu u. cu \<in> set (members t) \<and> u \<in> set (users t) \<and>
      u_id u = cu_user cu \<and> ok cu u}"
  let ?K = "\<lambda>(c, i, name). \<lparr>cn_id = int_of_id (of_int64 c), cn_recv_user_id = int_of_id (of_int64 i),
      cn_recv_user_username = name, cn_unread_message_ids = client_unread c i t\<rparr>"
  have row: "client_row (?row x) = ?K x" if "x \<in> ?J" for x
  proof -
    obtain c i name where x: "x = (c, i, name)" by (cases x)
    have "x \<in> set ?joined" using that by auto
    then show ?thesis
      by (simp add: x client_row_simps set_repeated set_unread_from [OF assms] client_unread_def image_image del: set_concat)
  qed
  have "client_row ` set (member_groups ok en t) = (\<lambda>x. client_row (?row x)) ` ?J"
    unfolding set_member_groups [OF assms] image_image ..
  also have "\<dots> = ?K ` ?J" using row by (rule image_cong [OF refl])
  also have "\<dots> = {?K (cu_conversation cu, cu_user cu, u_username u) | cu u. cu \<in> set (members t) \<and>
      u \<in> set (users t) \<and> u_id u = cu_user cu \<and> ok cu u}"
    by (rule image_setcompr2)
  finally show ?thesis by (simp only: prod.case)
qed

section \<open>Messages\<close>

text \<open>Events one after another.\<close>

fun client_steps :: "engine \<Rightarrow> client_event list \<Rightarrow> client \<times> network \<Rightarrow> (client \<times> network) outcome" where
  "client_steps en [] s = Returns s"
| "client_steps en (ev # evs) s = and_then (client_step en ev s) (client_steps en evs)"

lemma bumped:
  "k < length xs \<Longrightarrow>
    fst (conversations_move (int k) 0 (fst (conversations_update k f xs))) = f (xs ! k) # take_row k xs"
proof (cases "k = 0")
  case True
  moreover assume "k < length xs"
  ultimately show ?thesis
    by (cases xs) (simp_all add: conversations_move_def conversations_update_def in_rows_def take_row_def)
qed (auto simp: conversations_move_def conversations_update_def in_rows_def list_move_def take_row_def)

lemma conversations_instance_Some:
  "conversations_instance i xs = Some (q, k) \<Longrightarrow> k < length xs \<and> q = xs ! k \<and> cn_id q = i"
  using find_if_Some by (fastforce simp: conversations_instance_def)

lemma ids_through_client: "0 \<le> k \<Longrightarrow> k < 2 ^ 31 \<Longrightarrow> bind_unsigned (id_of_int (int_of_id (of_int64 k))) = k"
  using bind_of_int64 [of k] by (simp add: id_of_int_def int_of_id_def bind_unsigned_def of_int64_def)

lemma read_call:
  assumes "engine_ok en" "m \<in> set (messages (sv_tables sv))" "m_user m \<noteq> bind_unsigned u" "m_id m = bind_unsigned i"
  shows "\<exists>sv'. read_messages_rpc en u c [i] sv = (Ok (), sv') \<and>
    sv_tables sv' = snd (read_messages en (bind_unsigned u) [bind_unsigned i] (sv_tables sv))"
proof -
  obtain rows t where r: "read_messages en (bind_unsigned u) [bind_unsigned i] (sv_tables sv) = (rows, t)" by fastforce
  have "filter (\<lambda>m. m_user m \<noteq> bind_unsigned u \<and> m_id m = bind_unsigned i) (messages (sv_tables sv)) \<noteq> []"
    using assms(2-4) by (auto simp: filter_empty_conv)
  then have "rows \<noteq> []" using r assms(1) by (auto simp: read_messages_def Let_def engine_empty)
  then show ?thesis using r
    by (auto simp: read_messages_rpc_def set_tables_def Let_def split: list.splits)
qed

section \<open>Properties\<close>

text \<open>C10: after the client has fetched its conversations it shows exactly these: for every conversation
  that is not deleted and has the user as a member, every other member who is not deleted, with the
  name and exactly the messages of that member that the server holds as unread. Identifiers are cut
  to 32 bits.\<close>
theorem client_shows_conversations:
  assumes "engine_ok en" and "cl_user cl = Some u" and "net (cl_channel cl) = Some sv"
    and "me = to_int64 (id_of_int (us_id u))" and "t = sv_tables sv"
  shows "\<exists>cl'. client_step en Do_Get_Conversations (cl, net) = Returns (cl', net) \<and>
    set (cl_conversations cl') =
      {\<lparr>cn_id = int_of_id (of_int64 (cu_conversation cu)), cn_recv_user_id = int_of_id (of_int64 (cu_user cu)),
        cn_recv_user_username = u_username v, cn_unread_message_ids = client_unread (cu_conversation cu) (cu_user cu) t\<rparr> | cu v.
        cu \<in> set (members t) \<and> v \<in> set (users t) \<and> u_id v = cu_user cu \<and>
        (list_ex (\<lambda>cu'. cu_conversation cu' = cu_conversation cu \<and> cu_user cu' = me) (members t) \<and>
         cu_user cu \<noteq> me \<and> \<not> u_deleted v \<and>
         list_ex (\<lambda>c. c_id c = cu_conversation cu \<and> \<not> c_deleted c) (conversations t))}"
proof -
  let ?rows = "select_conversations en me t"
  obtain cl' where cl': "client_step en Do_Get_Conversations (cl, net) = Returns (cl', net)"
    "cl_conversations cl' = map client_row ?rows"
    using assms(2-5) by (simp add: request_get_conversations_def call_def get_conversations_def conversations_set_def
        client_row_def Let_def comp_def fun_upd_idem)
  then have "set (cl_conversations cl') = client_row ` set ?rows" by simp
  also note select_conversations_def [of en me t]
  also note client_rows_member_groups [OF assms(1)]
  finally show ?thesis using cl'(1) by blast
qed

text \<open>A message of another user for a conversation that is listed but not open puts the conversation
  at the top of the list with the message among its unread ones, leaves the other conversations in
  their order, and asks the server nothing.\<close>
theorem message_marks_unread:
  assumes "cl_user cl = Some u" and "send \<noteq> id_of_int (us_id u)" and "cl_queue cl = []"
    and "conversations_instance (int_of_id c) (cl_conversations cl) = Some (q, k)"
    and "cl_conversation cl = None \<or> id_of_int (cn_id (the (cl_conversation cl))) \<noteq> c"
  shows "\<exists>cl'. client_steps en [On_Receive_Message c i send content, Deliver, Deliver] (cl, net) = Returns (cl', net) \<and>
    cl_queue cl' = [] \<and>
    cl_conversations cl' = add_unread_message_id (int_of_id i) q # take_row k (cl_conversations cl) \<and>
    (mm_conversation_id (cl_messages cl) \<noteq> Some (int_of_id c) \<longrightarrow> cl_messages cl' = cl_messages cl)"
proof -
  note q = conversations_instance_Some [OF assms(4)]
  show ?thesis
    using assms q bumped [of k "cl_conversations cl" "add_unread_message_id (int_of_id i)"]
    by (auto simp: on_receive_message_def deliver_def slot_unread_message_def slot_receive_message_def post_def Let_def
        split: option.splits)
qed

text \<open>A message of another user for the open conversation is appended to the messages that are shown
  and counts as read at the server at once, if its number is below \<open>2^31\<close>.\<close>
theorem open_conversation_reads:
  assumes "engine_ok en" and "cl_user cl = Some u" and "cl_conversation cl = Some q" and "cl_queue cl = []"
    and "net (cl_channel cl) = Some sv" and "m \<in> set (messages (sv_tables sv))" and "0 \<le> m_id m" and "m_id m < 2 ^ 31"
    and "m_user m \<noteq> bind_unsigned (id_of_int (us_id u))" and "m_user m = to_int64 send" and "send \<noteq> id_of_int (us_id u)"
    and "mm_conversation_id (cl_messages cl) = Some (int_of_id (id_of_int (cn_id q)))"
  shows "\<exists>cl' sv'. client_steps en [On_Receive_Message (id_of_int (cn_id q)) (of_int64 (m_id m)) send (m_content m), Deliver]
      (cl, net) = Returns (cl', net(cl_channel cl := Some sv')) \<and>
    mm_rows (cl_messages cl') = mm_rows (cl_messages cl) @ [\<lparr>ms_id = int_of_id (of_int64 (m_id m)),
      ms_send_user_id = int_of_id send, ms_is_read = False, ms_content = m_content m\<rparr>] \<and>
    m_id m \<notin> set (unread_from en (m_conversation m) (m_user m) (sv_tables sv'))"
proof -
  let ?i = "id_of_int (int_of_id (of_int64 (m_id m)))"
  have i: "bind_unsigned ?i = m_id m" using ids_through_client assms(7,8) by simp
  obtain sv' where sv': "read_messages_rpc en (id_of_int (us_id u)) (id_of_int (cn_id q)) [?i] sv = (Ok (), sv')"
    "sv_tables sv' = snd (read_messages en (bind_unsigned (id_of_int (us_id u))) [m_id m] (sv_tables sv))"
    using read_call [OF assms(1,6,9), of ?i] i by auto
  have "m_id m \<notin> set (unread_from en (m_conversation m) (m_user m) (sv_tables sv'))"
    using unread_after_read [OF assms(1), of "m_id m" "[m_id m]" "bind_unsigned (id_of_int (us_id u))" "m_user m"]
      assms(9) sv'(2) by auto
  moreover have "\<exists>cl'. client_steps en
      [On_Receive_Message (id_of_int (cn_id q)) (of_int64 (m_id m)) send (m_content m), Deliver] (cl, net) =
      Returns (cl', net(cl_channel cl := Some sv')) \<and>
    mm_rows (cl_messages cl') = mm_rows (cl_messages cl) @ [\<lparr>ms_id = int_of_id (of_int64 (m_id m)),
      ms_send_user_id = int_of_id send, ms_is_read = False, ms_content = m_content m\<rparr>]"
    using assms(2-5,11,12) sv'(1)
    by (simp add: on_receive_message_def request_read_messages_def call_def deliver_def slot_receive_message_def
        messages_append_def post_def Let_def)
  ultimately show ?thesis by blast
qed

text \<open>The first of two new users, who have a conversation.\<close>
theorem client_shows_conversations_witness:
  "\<exists>cl'. client_step witness_engine Do_Get_Conversations (set_user_slot 1 [97] (new_client ([96], 0)),
       \<lambda>_. Some (serve_all witness_engine witness_reqs (new_service []))) =
       Returns (cl', \<lambda>_. Some (serve_all witness_engine witness_reqs (new_service []))) \<and>
     \<lparr>cn_id = 1, cn_recv_user_id = 2, cn_recv_user_username = [98], cn_unread_message_ids = {}\<rparr> \<in> set (cl_conversations cl')"
proof -
  let ?sv = "serve_all witness_engine witness_reqs (new_service [])"
  let ?cl = "set_user_slot 1 [97] (new_client ([96], 0))"
  have t: "sv_tables ?sv = \<lparr>users = [\<lparr>u_id = 1, u_username = [97], u_password = [120], u_deleted = False\<rparr>,
      \<lparr>u_id = 2, u_username = [98], u_password = [121], u_deleted = False\<rparr>], users_seq = 2,
      conversations = [\<lparr>c_id = 1, c_deleted = False\<rparr>], conversations_seq = 1,
      members = [\<lparr>cu_conversation = 1, cu_user = 1\<rparr>, \<lparr>cu_conversation = 1, cu_user = 2\<rparr>],
      messages = [], messages_seq = 0\<rparr>"
    by (simp add: witness_reqs_def new_service_def no_tables_def rpc_defs transaction_defs
        trimmed_username_def generate_password_encoded_def witness_engine_def c_str_def insert_user_def auto_id_def
        select_username_def insert_conversation_def insert_members_def to_int64_def broadcast_def Let_def)
  have u: "cl_user ?cl = Some \<lparr>us_id = 1, us_username = [97]\<rparr>"
    by (simp add: set_user_slot_def set_user_def start_readers_def new_client_def)
  have me: "(1 :: int) = to_int64 (id_of_int (us_id \<lparr>us_id = 1, us_username = [97]\<rparr>))"
    by (simp add: id_of_int_def to_int64_def)
  let ?shown = "{\<lparr>cn_id = int_of_id (of_int64 (cu_conversation cu)), cn_recv_user_id = int_of_id (of_int64 (cu_user cu)),
      cn_recv_user_username = u_username v,
      cn_unread_message_ids = client_unread (cu_conversation cu) (cu_user cu) (sv_tables ?sv)\<rparr> | cu v.
    cu \<in> set (members (sv_tables ?sv)) \<and> v \<in> set (users (sv_tables ?sv)) \<and> u_id v = cu_user cu \<and>
    (list_ex (\<lambda>cu'. cu_conversation cu' = cu_conversation cu \<and> cu_user cu' = 1) (members (sv_tables ?sv)) \<and>
     cu_user cu \<noteq> 1 \<and> \<not> u_deleted v \<and>
     list_ex (\<lambda>c. c_id c = cu_conversation cu \<and> \<not> c_deleted c) (conversations (sv_tables ?sv)))}"
  have "\<lparr>cn_id = 1, cn_recv_user_id = 2, cn_recv_user_username = [98], cn_unread_message_ids = {}\<rparr> \<in> ?shown"
    unfolding t
    by (intro CollectI exI [of _ "\<lparr>cu_conversation = 1, cu_user = 2\<rparr>"]
        exI [of _ "\<lparr>u_id = 2, u_username = [98], u_password = [121], u_deleted = False\<rparr>"])
      (simp add: client_unread_def int_of_id_def of_int64_def)
  then show ?thesis
    using client_shows_conversations [OF witness_engine_ok u _ me refl, of "\<lambda>_. Some ?sv" ?sv] by blast
qed

text \<open>The second of two conversations gets a message.\<close>
theorem message_marks_unread_witness:
  "\<exists>cl'. client_steps witness_engine [On_Receive_Message 4 7 2 [104], Deliver, Deliver]
      ((set_user_slot 1 [97] (new_client ([96], 0)))\<lparr>cl_conversations :=
        [\<lparr>cn_id = 3, cn_recv_user_id = 5, cn_recv_user_username = [99], cn_unread_message_ids = {}\<rparr>,
         \<lparr>cn_id = 4, cn_recv_user_id = 2, cn_recv_user_username = [98], cn_unread_message_ids = {6}\<rparr>]\<rparr>, \<lambda>_. None) =
      Returns (cl', \<lambda>_. None) \<and>
    cl_conversations cl' =
      [\<lparr>cn_id = 4, cn_recv_user_id = 2, cn_recv_user_username = [98], cn_unread_message_ids = {6, 7}\<rparr>,
       \<lparr>cn_id = 3, cn_recv_user_id = 5, cn_recv_user_username = [99], cn_unread_message_ids = {}\<rparr>]"
proof -
  let ?q = "\<lparr>cn_id = 4, cn_recv_user_id = 2, cn_recv_user_username = [98], cn_unread_message_ids = {6}\<rparr>"
  let ?cl = "(set_user_slot 1 [97] (new_client ([96], 0)))\<lparr>cl_conversations :=
        [\<lparr>cn_id = 3, cn_recv_user_id = 5, cn_recv_user_username = [99], cn_unread_message_ids = {}\<rparr>, ?q]\<rparr>"
  note defs = set_user_slot_def set_user_def start_readers_def new_client_def Let_def
  have h: "cl_user ?cl = Some \<lparr>us_id = 1, us_username = [97]\<rparr>" "(2 :: u64) \<noteq> id_of_int (us_id \<lparr>us_id = 1, us_username = [97]\<rparr>)"
    "cl_queue ?cl = []" "conversations_instance (int_of_id 4) (cl_conversations ?cl) = Some (?q, 1)"
    "cl_conversation ?cl = None \<or> id_of_int (cn_id (the (cl_conversation ?cl))) \<noteq> 4"
    by (simp_all add: defs id_of_int_def conversations_instance_def int_of_id_def)
  from message_marks_unread [OF h, of witness_engine 7 "[104]" "\<lambda>_. None"]
  obtain cl' where cl': "client_steps witness_engine [On_Receive_Message 4 7 2 [104], Deliver, Deliver] (?cl, \<lambda>_. None) =
      Returns (cl', \<lambda>_. None)"
    "cl_conversations cl' = add_unread_message_id (int_of_id 7) ?q # take_row 1 (cl_conversations ?cl)" by blast
  from cl'(2) have "cl_conversations cl' =
      [\<lparr>cn_id = 4, cn_recv_user_id = 2, cn_recv_user_username = [98], cn_unread_message_ids = {6, 7}\<rparr>,
       \<lparr>cn_id = 3, cn_recv_user_id = 5, cn_recv_user_username = [99], cn_unread_message_ids = {}\<rparr>]"
    by (simp add: add_unread_message_id_def int_of_id_def take_row_def insert_commute)
  with cl'(1) show ?thesis by (intro exI conjI)
qed

text \<open>The open conversation gets its first message.\<close>
theorem open_conversation_reads_witness:
  "\<exists>m sv cl' sv'. m_id m = 1 \<and> messages (sv_tables sv) = [m] \<and> \<not> m_read m \<and>
    client_steps witness_engine [On_Receive_Message 1 1 2 [104], Deliver]
      ((set_conversation_slot 1 2 [98] [] (set_user_slot 1 [97] (new_client ([96], 0))))
        \<lparr>cl_messages := \<lparr>mm_conversation_id = Some 1, mm_rows = []\<rparr>\<rparr>, [([96], 0) \<mapsto> sv]) =
      Returns (cl', [([96], 0) \<mapsto> sv']) \<and>
    mm_rows (cl_messages cl') = [\<lparr>ms_id = 1, ms_send_user_id = 2, ms_is_read = False, ms_content = [104]\<rparr>] \<and>
    1 \<notin> set (unread_from witness_engine 1 2 (sv_tables sv'))"
proof -
  define m where "m = \<lparr>m_id = 1, m_conversation = 1, m_content = [104], m_user = 2, m_read = False, m_deleted = False,
    m_created = 5\<rparr>"
  define sv where "sv = set_tables (no_tables\<lparr>messages := [m], messages_seq := 1\<rparr>) (new_service [])"
  let ?cl = "(set_conversation_slot 1 2 [98] [] (set_user_slot 1 [97] (new_client ([96], 0))))
    \<lparr>cl_messages := \<lparr>mm_conversation_id = Some 1, mm_rows = []\<rparr>\<rparr>"
  let ?q = "\<lparr>cn_id = 1, cn_recv_user_id = 2, cn_recv_user_username = [98], cn_unread_message_ids = {}\<rparr>"
  let ?u = "\<lparr>us_id = 1, us_username = [97]\<rparr>"
  note defs = set_conversation_slot_def set_user_slot_def set_user_def set_conversation_def start_readers_def
    new_client_def Let_def id_of_int_def int_of_id_def of_int64_def bind_unsigned_def to_int64_def
  have cl: "cl_user ?cl = Some ?u" "cl_conversation ?cl = Some ?q" "cl_queue ?cl = []" "cl_channel ?cl = ([96], 0)"
    "mm_conversation_id (cl_messages ?cl) = Some (int_of_id (id_of_int (cn_id ?q)))" "mm_rows (cl_messages ?cl) = []"
    by (simp_all add: defs)
  have net: "[([96], 0) \<mapsto> sv] (cl_channel ?cl) = Some sv" by (simp add: cl)
  have m: "m \<in> set (messages (sv_tables sv))" "0 \<le> m_id m" "m_id m < 2 ^ 31" "m_user m \<noteq> bind_unsigned (id_of_int (us_id ?u))"
    "m_user m = to_int64 2" "(2 :: u64) \<noteq> id_of_int (us_id ?u)"
    by (simp_all add: sv_def m_def set_tables_def defs)
  from open_conversation_reads [where net = "[([96], 0) \<mapsto> sv]", OF witness_engine_ok cl(1,2,3) net m cl(5)]
  obtain cl' sv' where r: "client_steps witness_engine
      [On_Receive_Message (id_of_int (cn_id ?q)) (of_int64 (m_id m)) 2 (m_content m), Deliver] (?cl, [([96], 0) \<mapsto> sv]) =
      Returns (cl', [([96], 0) \<mapsto> sv, cl_channel ?cl \<mapsto> sv'])"
    "mm_rows (cl_messages cl') = mm_rows (cl_messages ?cl) @ [\<lparr>ms_id = int_of_id (of_int64 (m_id m)),
      ms_send_user_id = int_of_id 2, ms_is_read = False, ms_content = m_content m\<rparr>]"
    "m_id m \<notin> set (unread_from witness_engine (m_conversation m) (m_user m) (sv_tables sv'))"
    by blast
  have "id_of_int (cn_id ?q) = 1" "of_int64 (m_id m) = 1" "m_content m = [104]" "int_of_id 1 = 1" "int_of_id 2 = 2"
    "m_conversation m = 1" "m_user m = 2" "m_id m = 1" "\<not> m_read m" "messages (sv_tables sv) = [m]"
    by (simp_all add: m_def sv_def set_tables_def defs)
  with r cl(4,6) have "m_id m = 1 \<and> messages (sv_tables sv) = [m] \<and> \<not> m_read m \<and>
    client_steps witness_engine [On_Receive_Message 1 1 2 [104], Deliver] (?cl, [([96], 0) \<mapsto> sv]) =
      Returns (cl', [([96], 0) \<mapsto> sv']) \<and>
    mm_rows (cl_messages cl') = [\<lparr>ms_id = 1, ms_send_user_id = 2, ms_is_read = False, ms_content = [104]\<rparr>] \<and>
    1 \<notin> set (unread_from witness_engine 1 2 (sv_tables sv'))"
    by (simp del: client_steps.simps)
  then show ?thesis by blast
qed

end
