(* ===== verification/Reader.thy ===== *)
theory Reader
  imports Main
begin

text \<open>
  The readers of server streams: \<open>reader.{hpp,cpp}\<close> of the chat client and of the chat server. A reader
  hands the responses of its stream to a callback; \<open>Await\<close> blocks on a condition variable until the
  stream has ended. The threads are an inductive step relation: gRPC's, which runs \<open>OnReadDone\<close> and
  \<open>OnDone\<close>, and the one that calls \<open>TryCancel\<close> and \<open>Await\<close>.
\<close>

section \<open>The reader\<close>

text \<open>
  The members of a reader. \<open>rd_reads\<close> counts the calls of \<open>StartRead\<close> that are not answered,
  \<open>rd_given\<close> are the calls of \<open>on_response_\<close>; a message that is cleared, and a status that was moved from,
  is \<open>None\<close>.
\<close>

record ('r, 's) reader =
  rd_response :: "'r option"
  rd_given :: "'r option list"
  rd_reads :: nat
  rd_status :: "'s option"
  rd_done :: bool

definition start_read :: "('r, 's) reader \<Rightarrow> ('r, 's) reader" where
  "start_read r = r\<lparr>rd_reads := Suc (rd_reads r)\<rparr>"

definition new_reader :: "'s \<Rightarrow> ('r, 's) reader" where
  "new_reader ok =
     start_read \<lparr>rd_response = None, rd_given = [], rd_reads = 0, rd_status = Some ok, rd_done = False\<rparr>"

definition on_response :: "('r, 's) reader \<Rightarrow> ('r, 's) reader" where
  "on_response r = r\<lparr>rd_given := rd_given r @ [rd_response r]\<rparr>"

text \<open>\<open>OnReadDone\<close> of the four classes.\<close>

definition get_servers_on_read_done :: "bool \<Rightarrow> ('r, 's) reader \<Rightarrow> ('r, 's) reader" where
  "get_servers_on_read_done ok r =
     (if ok then start_read ((on_response r)\<lparr>rd_response := None\<rparr>) else r)"

definition receive_message_on_read_done :: "bool \<Rightarrow> ('r, 's) reader \<Rightarrow> ('r, 's) reader" where
  "receive_message_on_read_done ok r = (if ok then start_read (on_response r) else r)"

definition receive_read_messages_on_read_done :: "bool \<Rightarrow> ('r, 's) reader \<Rightarrow> ('r, 's) reader" where
  "receive_read_messages_on_read_done ok r = (if ok then start_read (on_response r) else r)"

definition get_transactions_on_read_done :: "bool \<Rightarrow> ('r, 's) reader \<Rightarrow> ('r, 's) reader" where
  "get_transactions_on_read_done ok r = (if ok then start_read (on_response r) else r)"

text \<open>The stores of \<open>OnDone\<close>, and what \<open>Await\<close> returns and leaves once \<open>done_\<close> holds.\<close>

definition on_done_store :: "'s \<Rightarrow> ('r, 's) reader \<Rightarrow> ('r, 's) reader" where
  "on_done_store s r = r\<lparr>rd_status := Some s, rd_done := True\<rparr>"

definition await_take :: "('r, 's) reader \<Rightarrow> 's option \<times> ('r, 's) reader" where
  "await_take r = (rd_status r, r\<lparr>rd_status := None\<rparr>)"

section \<open>The threads\<close>

text \<open>
  Where gRPC's thread stands: before the end of the stream, and in \<open>OnDone\<close> before the lock, before the
  stores, before \<open>on_done_\<close> and before the unlock. Where the other thread stands: outside \<open>Await\<close>, before
  the lock, before the test of \<open>done_\<close>, asleep on the condition variable, and returned.
\<close>

datatype callback_pc = Streaming | Done_Lock | Done_Store | Done_Call | Done_Unlock | Done_Over

datatype 's waiter_pc = Outside | Await_Lock | Await_Test | Asleep | Awaited "'s option"

datatype thread = Callback | Waiter

text \<open>
  A call with its reader. \<open>rp_sent\<close> are all responses that came, \<open>rp_incoming\<close> those not yet read;
  \<open>rp_over\<close>: no more will come; \<open>rp_final\<close> is the status it ends with.
\<close>

record ('r, 's) stream_call =
  rp_reader :: "('r, 's) reader"
  rp_sent :: "'r list"
  rp_incoming :: "'r list"
  rp_over :: bool
  rp_cancelled :: bool
  rp_final :: 's
  rp_mu :: "thread option"
  rp_callback :: callback_pc
  rp_waiter :: "'s waiter_pc"

definition new_stream_call :: "'s \<Rightarrow> 's \<Rightarrow> ('r, 's) stream_call" where
  "new_stream_call ok final =
     \<lparr>rp_reader = new_reader ok, rp_sent = [], rp_incoming = [], rp_over = False, rp_cancelled = False,
      rp_final = final, rp_mu = None, rp_callback = Streaming, rp_waiter = Outside\<rparr>"

definition try_cancel :: "('r, 's) stream_call \<Rightarrow> ('r, 's) stream_call" where
  "try_cancel c = c\<lparr>rp_cancelled := True\<rparr>"

text \<open>\<open>OnDone\<close>: the lock, the critical section with \<open>notify_one\<close>, \<open>on_done_\<close> where there is one, the end.\<close>

definition on_done_step :: "bool \<Rightarrow> ('r, 's) stream_call \<Rightarrow> ('r, 's) stream_call option" where
  "on_done_step has_on_done c =
     (case rp_callback c of
        Done_Lock \<Rightarrow> (if rp_mu c = None then Some (c\<lparr>rp_mu := Some Callback, rp_callback := Done_Store\<rparr>) else None)
      | Done_Store \<Rightarrow>
          Some (c\<lparr>rp_reader := on_done_store (rp_final c) (rp_reader c),
            rp_waiter := (if rp_waiter c = Asleep then Await_Lock else rp_waiter c),
            rp_callback := (if has_on_done then Done_Call else Done_Unlock)\<rparr>)
      | Done_Call \<Rightarrow> Some (c\<lparr>rp_callback := Done_Unlock\<rparr>)
      | Done_Unlock \<Rightarrow> Some (c\<lparr>rp_mu := None, rp_callback := Done_Over\<rparr>)
      | _ \<Rightarrow> None)"

text \<open>\<open>Await\<close>: \<open>cv_.wait\<close> tests the predicate, and otherwise releases the mutex and sleeps in one step.\<close>

definition await_step :: "('r, 's) stream_call \<Rightarrow> ('r, 's) stream_call option" where
  "await_step c =
     (case rp_waiter c of
        Await_Lock \<Rightarrow> (if rp_mu c = None then Some (c\<lparr>rp_mu := Some Waiter, rp_waiter := Await_Test\<rparr>) else None)
      | Await_Test \<Rightarrow>
          Some (if rd_done (rp_reader c) then (case await_take (rp_reader c) of (s, r) \<Rightarrow>
              c\<lparr>rp_reader := r, rp_mu := None, rp_waiter := Awaited s\<rparr>)
            else c\<lparr>rp_mu := None, rp_waiter := Asleep\<rparr>)
      | _ \<Rightarrow> None)"

text \<open>
  The steps. \<open>Outer\<close> are those of the server, of the caller and of a spurious wake-up; \<open>Inner\<close> are those
  that the reader and gRPC take by themselves. gRPC answers one read at a time: with a response, or with
  \<open>ok = false\<close> once there are no more or the call is cancelled; it runs \<open>OnDone\<close> when no read is
  outstanding.
\<close>

datatype step_kind = Outer | Inner

inductive stream_step ::
    "(bool \<Rightarrow> ('r, 's) reader \<Rightarrow> ('r, 's) reader) \<Rightarrow> bool \<Rightarrow> step_kind \<Rightarrow>
      ('r, 's) stream_call \<Rightarrow> ('r, 's) stream_call \<Rightarrow> bool" for on_read_done has_on_done where
  arrive: "\<not> rp_over c \<Longrightarrow> stream_step on_read_done has_on_done Outer c
     (c\<lparr>rp_sent := rp_sent c @ [x], rp_incoming := rp_incoming c @ [x]\<rparr>)"
| finish: "stream_step on_read_done has_on_done Outer c (c\<lparr>rp_over := True\<rparr>)"
| cancel: "stream_step on_read_done has_on_done Outer c (try_cancel c)"
| await: "rp_waiter c = Outside \<Longrightarrow>
     stream_step on_read_done has_on_done Outer c (c\<lparr>rp_waiter := Await_Lock\<rparr>)"
| spurious: "rp_waiter c = Asleep \<Longrightarrow>
     stream_step on_read_done has_on_done Outer c (c\<lparr>rp_waiter := Await_Lock\<rparr>)"
| read: "rp_callback c = Streaming \<Longrightarrow> rd_reads (rp_reader c) = Suc k \<Longrightarrow> rp_incoming c = x # xs \<Longrightarrow>
     stream_step on_read_done has_on_done Inner c
       (c\<lparr>rp_reader := on_read_done True ((rp_reader c)\<lparr>rd_reads := k, rd_response := Some x\<rparr>),
          rp_incoming := xs\<rparr>)"
| no_read: "rp_callback c = Streaming \<Longrightarrow> rd_reads (rp_reader c) = Suc k \<Longrightarrow>
     rp_cancelled c \<or> rp_over c \<and> rp_incoming c = [] \<Longrightarrow>
     stream_step on_read_done has_on_done Inner c
       (c\<lparr>rp_reader := on_read_done False ((rp_reader c)\<lparr>rd_reads := k\<rparr>)\<rparr>)"
| ended: "rp_callback c = Streaming \<Longrightarrow> rd_reads (rp_reader c) = 0 \<Longrightarrow> rp_cancelled c \<or> rp_over c \<Longrightarrow>
     stream_step on_read_done has_on_done Inner c (c\<lparr>rp_callback := Done_Lock\<rparr>)"
| on_done: "on_done_step has_on_done c = Some c' \<Longrightarrow> stream_step on_read_done has_on_done Inner c c'"
| waiting: "await_step c = Some c' \<Longrightarrow> stream_step on_read_done has_on_done Inner c c'"

inductive stream_run for on_read_done has_on_done where
  nil: "stream_run on_read_done has_on_done (0 :: nat) c c"
| outer: "stream_run on_read_done has_on_done k c c' \<Longrightarrow> stream_step on_read_done has_on_done Outer c' c'' \<Longrightarrow>
     stream_run on_read_done has_on_done k c c''"
| inner: "stream_run on_read_done has_on_done k c c' \<Longrightarrow> stream_step on_read_done has_on_done Inner c' c'' \<Longrightarrow>
     stream_run on_read_done has_on_done (Suc k) c c''"

section \<open>What every reader does\<close>

text \<open>Who holds the mutex, what is stored when, and which responses are where.\<close>

definition mutex_ok :: "('r, 's) stream_call \<Rightarrow> bool" where
  "mutex_ok c \<longleftrightarrow>
     (rp_mu c = Some Callback \<longleftrightarrow> rp_callback c = Done_Store \<or> rp_callback c = Done_Call \<or> rp_callback c = Done_Unlock) \<and>
     (rp_mu c = Some Waiter \<longleftrightarrow> rp_waiter c = Await_Test)"

fun awaited_ok :: "'s waiter_pc \<Rightarrow> callback_pc \<Rightarrow> bool \<Rightarrow> 's option \<Rightarrow> 's \<Rightarrow> bool" where
  "awaited_ok (Awaited s) callback stored status final = (callback = Done_Over \<and> s = Some final)"
| "awaited_ok _ callback stored status final = (stored \<longrightarrow> status = Some final)"

definition done_ok :: "('r, 's) stream_call \<Rightarrow> bool" where
  "done_ok c \<longleftrightarrow>
     (rd_done (rp_reader c) \<longleftrightarrow> rp_callback c = Done_Call \<or> rp_callback c = Done_Unlock \<or> rp_callback c = Done_Over) \<and>
     (rp_waiter c = Asleep \<longrightarrow> \<not> rd_done (rp_reader c)) \<and>
     awaited_ok (rp_waiter c) (rp_callback c) (rd_done (rp_reader c)) (rd_status (rp_reader c)) (rp_final c)"

definition reads_ok :: "('r, 's) stream_call \<Rightarrow> bool" where
  "reads_ok c \<longleftrightarrow>
     rd_reads (rp_reader c) \<le> 1 \<and>
     (rd_reads (rp_reader c) = 0 \<longrightarrow> rp_cancelled c \<or> rp_over c \<and> rp_incoming c = []) \<and>
     (rp_callback c \<noteq> Streaming \<longrightarrow> rd_reads (rp_reader c) = 0) \<and>
     map Some (rp_sent c) = rd_given (rp_reader c) @ map Some (rp_incoming c)"

definition stream_ok :: "('r, 's) stream_call \<Rightarrow> bool" where
  "stream_ok c \<longleftrightarrow> mutex_ok c \<and> done_ok c \<and> reads_ok c"

lemmas stream_ok_defs = mutex_ok_def done_ok_def reads_ok_def

lemma stream_ok_new: "stream_ok (new_stream_call ok final)"
  by (simp add: stream_ok_def stream_ok_defs new_stream_call_def new_reader_def start_read_def)

lemma stream_ok_on_done:
  assumes "on_done_step b c = Some c'" "stream_ok c"
  shows "stream_ok c'"
proof -
  have "mutex_ok c'" "done_ok c'" "reads_ok c'"
    using assms unfolding stream_ok_def stream_ok_defs
    by (cases "rp_callback c"; cases "rp_waiter c";
        clarsimp simp: on_done_step_def on_done_store_def split: if_splits)+
  then show ?thesis by (simp add: stream_ok_def)
qed

lemma stream_ok_await:
  assumes "await_step c = Some c'" "stream_ok c"
  shows "stream_ok c'"
proof -
  have "mutex_ok c'" "done_ok c'" "reads_ok c'"
    using assms unfolding stream_ok_def stream_ok_defs
    by (cases "rp_waiter c"; cases "rp_callback c";
        clarsimp simp: await_step_def await_take_def split: if_splits)+
  then show ?thesis by (simp add: stream_ok_def)
qed

lemma holder_cases: "m = None \<or> m = Some Callback \<or> m = Some Waiter"
  by (cases m; cases "the m") simp_all

text \<open>A bound on the steps that the reader and gRPC still take by themselves.\<close>

fun callback_left :: "callback_pc \<Rightarrow> nat" where
  "callback_left Streaming = 9"
| "callback_left Done_Lock = 8"
| "callback_left Done_Store = 7"
| "callback_left Done_Call = 4"
| "callback_left Done_Unlock = 3"
| "callback_left Done_Over = 0"

fun waiter_left :: "'s waiter_pc \<Rightarrow> nat" where
  "waiter_left Await_Lock = 2"
| "waiter_left Await_Test = 1"
| "waiter_left _ = 0"

definition inner_left :: "('r, 's) stream_call \<Rightarrow> nat" where
  "inner_left c = length (rp_incoming c) + rd_reads (rp_reader c) +
     callback_left (rp_callback c) + waiter_left (rp_waiter c)"

lemma on_done_left: "on_done_step b c = Some c' \<Longrightarrow> inner_left c' < inner_left c"
  by (cases "rp_callback c"; cases "rp_waiter c")
    (auto simp: on_done_step_def on_done_store_def inner_left_def split: if_splits)

lemma await_left: "await_step c = Some c' \<Longrightarrow> inner_left c' < inner_left c"
  by (cases "rp_waiter c") (auto simp: await_step_def await_take_def inner_left_def split: if_splits)

text \<open>
  The contract of \<open>OnReadDone\<close>: a response is given to the callback once and the next read is started; a
  read that failed changes nothing.
\<close>

locale read_reactor =
  fixes on_read_done :: "bool \<Rightarrow> ('r, 's) reader \<Rightarrow> ('r, 's) reader"
  assumes given: "rd_given (on_read_done True r) = rd_given r @ [rd_response r]"
    and next_read: "rd_reads (on_read_done True r) = Suc (rd_reads r)"
    and kept: "rd_status (on_read_done True r) = rd_status r" "rd_done (on_read_done True r) = rd_done r"
    and failed_read: "on_read_done False r = r"
begin

lemma read_ok:
  assumes "stream_ok c" "rp_callback c = Streaming" "rd_reads (rp_reader c) = Suc k" "rp_incoming c = x # xs"
  shows "stream_ok (c\<lparr>rp_reader := on_read_done True ((rp_reader c)\<lparr>rd_reads := k, rd_response := Some x\<rparr>),
     rp_incoming := xs\<rparr>)"
  using assms unfolding stream_ok_def stream_ok_defs
  by (cases "rp_waiter c") (simp_all add: given next_read kept)

lemma stream_ok_step: "stream_step on_read_done b e c c' \<Longrightarrow> stream_ok c \<Longrightarrow> stream_ok c'"
proof (induction rule: stream_step.induct)
  case (read c k x xs)
  then show ?case by (intro read_ok)
next
  case (on_done c c')
  then show ?case by (rule stream_ok_on_done)
next
  case (waiting c c')
  then show ?case by (rule stream_ok_await)
next
  case (arrive c x)
  then show ?case by (cases "rp_callback c") (auto simp: stream_ok_def stream_ok_defs)
next
  case (finish c)
  then show ?case by (auto simp: stream_ok_def stream_ok_defs)
next
  case (cancel c)
  then show ?case by (auto simp: stream_ok_def stream_ok_defs try_cancel_def)
next
  case (await c)
  then show ?case by (cases "rp_callback c") (simp_all add: stream_ok_def stream_ok_defs)
next
  case (spurious c)
  then show ?case by (cases "rp_callback c") (simp_all add: stream_ok_def stream_ok_defs)
next
  case (no_read c k)
  then show ?case by (cases "rp_waiter c") (auto simp: stream_ok_def stream_ok_defs failed_read)
next
  case (ended c)
  then show ?case by (cases "rp_waiter c") (auto simp: stream_ok_def stream_ok_defs)
qed

lemma stream_run_ok: "stream_run on_read_done b k c c' \<Longrightarrow> stream_ok c \<Longrightarrow> stream_ok c'"
  by (induction rule: stream_run.induct) (auto intro: stream_ok_step)

lemma run_given:
  assumes "stream_run on_read_done b k (new_stream_call ok final) c"
  shows "map Some (rp_sent c) = rd_given (rp_reader c) @ map Some (rp_incoming c)"
    "rp_callback c \<noteq> Streaming \<Longrightarrow> \<not> rp_cancelled c \<Longrightarrow> rp_incoming c = []"
  using stream_run_ok [OF assms stream_ok_new] by (auto simp: stream_ok_def reads_ok_def)

lemma inner_step_left: "stream_step on_read_done b e c c' \<Longrightarrow> e = Inner \<Longrightarrow> inner_left c' < inner_left c"
proof (induction rule: stream_step.induct)
  case (on_done c c')
  then show ?case by (intro on_done_left)
next
  case (waiting c c')
  then show ?case by (intro await_left)
qed (simp_all add: inner_left_def next_read failed_read)

lemma stream_progress:
  assumes ok: "stream_ok c" and stop: "rp_cancelled c \<or> rp_over c"
    and waits: "rp_waiter c = Await_Lock \<or> rp_waiter c = Await_Test \<or> rp_waiter c = Asleep"
  shows "\<exists>c'. stream_step on_read_done b Inner c c'"
proof -
  have cb: ?thesis if "on_done_step b c \<noteq> None"
    using that by (auto intro: stream_step.on_done)
  have wt: ?thesis if "await_step c \<noteq> None"
    using that by (auto intro: stream_step.waiting)
  have mu: "rp_mu c = None \<or> rp_mu c = Some Callback \<or> rp_mu c = Some Waiter"
    by (rule holder_cases)
  show ?thesis
  proof (cases "rp_callback c")
    case Streaming
    show ?thesis
    proof (cases "rd_reads (rp_reader c)")
      case 0
      then show ?thesis using Streaming stop by (blast intro: stream_step.ended)
    next
      case (Suc k)
      then show ?thesis using Streaming stop
        by (cases "rp_incoming c") (blast intro: stream_step.read stream_step.no_read)+
    qed
  next
    case Done_Lock
    show ?thesis
    proof (cases "rp_mu c = None")
      case True
      then show ?thesis using Done_Lock by (intro cb) (simp add: on_done_step_def)
    next
      case False
      then have "rp_waiter c = Await_Test"
        using mu ok Done_Lock by (auto simp: stream_ok_def mutex_ok_def)
      then show ?thesis by (intro wt) (simp add: await_step_def)
    qed
  next
    case Done_Over
    then have "rp_waiter c \<noteq> Asleep" "rp_mu c \<noteq> Some Callback"
      using ok by (auto simp: stream_ok_def done_ok_def mutex_ok_def)
    then show ?thesis
      using waits mu ok by (intro wt) (auto simp: await_step_def stream_ok_def mutex_ok_def)
  qed (auto intro: cb simp: on_done_step_def)
qed

text \<open>After \<open>Await\<close> nothing touches the reader any more.\<close>

lemma awaited_quiet:
  assumes ok: "stream_ok c" and "rp_waiter c = Awaited s"
  shows "s = Some (rp_final c) \<and> rp_mu c = None \<and> \<not> stream_step on_read_done b Inner c c'"
proof -
  have c: "s = Some (rp_final c)" "rp_callback c = Done_Over" "rp_mu c \<noteq> Some Callback" "rp_mu c \<noteq> Some Waiter"
    using assms by (simp_all add: stream_ok_def done_ok_def mutex_ok_def)
  have "rp_mu c = None" using c(3,4) holder_cases [of "rp_mu c"] by blast
  then show ?thesis
    using c assms(2) by (auto elim!: stream_step.cases simp: on_done_step_def await_step_def)
qed

lemma await_returns:
  assumes run: "stream_run on_read_done b k (new_stream_call ok final) c"
    and stop: "rp_cancelled c \<or> rp_over c" and waits: "rp_waiter c \<noteq> Outside"
  shows "(\<exists>s. rp_waiter c = Awaited s \<and> s = Some (rp_final c) \<and> rp_mu c = None \<and>
        (\<forall>c'. \<not> stream_step on_read_done b Inner c c')) \<or>
     (\<exists>c'. stream_step on_read_done b Inner c c') \<and>
        (\<forall>c'. stream_step on_read_done b Inner c c' \<longrightarrow> inner_left c' < inner_left c)"
proof -
  have ok: "stream_ok c" using stream_run_ok [OF run stream_ok_new] .
  show ?thesis
  proof (cases "rp_waiter c")
    case (Awaited s)
    then show ?thesis using awaited_quiet [OF ok Awaited] by blast
  next
    case Outside
    then show ?thesis using waits by simp
  qed (use stream_progress [OF ok stop] inner_step_left in \<open>blast+\<close>)
qed

end

interpretation get_servers: read_reactor get_servers_on_read_done
  by unfold_locales (simp_all add: get_servers_on_read_done_def on_response_def start_read_def)

interpretation receive_message: read_reactor receive_message_on_read_done
  by unfold_locales (simp_all add: receive_message_on_read_done_def on_response_def start_read_def)

interpretation receive_read_messages: read_reactor receive_read_messages_on_read_done
  by unfold_locales (simp_all add: receive_read_messages_on_read_done_def on_response_def start_read_def)

interpretation get_transactions: read_reactor get_transactions_on_read_done
  by unfold_locales (simp_all add: get_transactions_on_read_done_def on_response_def start_read_def)

section \<open>The classes\<close>

text \<open>
  A thread in \<open>Await\<close> has returned, with the status of the call, and nothing touches the reader any
  more; or some step of the reader is possible, and each brings it nearer the end.
\<close>

definition await_served ::
    "(bool \<Rightarrow> ('r, 's) reader \<Rightarrow> ('r, 's) reader) \<Rightarrow> bool \<Rightarrow> ('r, 's) stream_call \<Rightarrow> bool" where
  "await_served on_read_done has_on_done c \<longleftrightarrow>
     (\<exists>s. rp_waiter c = Awaited s \<and> s = Some (rp_final c) \<and> rp_mu c = None \<and>
        (\<forall>d. \<not> stream_step on_read_done has_on_done Inner c d)) \<or>
     (\<exists>d. stream_step on_read_done has_on_done Inner c d) \<and>
        (\<forall>d. stream_step on_read_done has_on_done Inner c d \<longrightarrow> inner_left d < inner_left c)"

text \<open>The stream of another server's transactions is handed to the callback response by response, in the
  order in which they came and each once, and when \<open>OnDone\<close> runs none has been left out, unless the call was
  cancelled. So it is for the list of servers, whose reader clears the message after each.\<close>

theorem responses_given_in_order:
  assumes "stream_run get_transactions_on_read_done False k (new_stream_call ok final) c"
    and "stream_run get_servers_on_read_done True k' (new_stream_call ok' final') c'"
  shows "map Some (rp_sent c) = rd_given (rp_reader c) @ map Some (rp_incoming c) \<and>
    (rp_callback c \<noteq> Streaming \<longrightarrow> \<not> rp_cancelled c \<longrightarrow> rd_given (rp_reader c) = map Some (rp_sent c)) \<and>
    map Some (rp_sent c') = rd_given (rp_reader c') @ map Some (rp_incoming c') \<and>
    (rp_callback c' \<noteq> Streaming \<longrightarrow> \<not> rp_cancelled c' \<longrightarrow> rd_given (rp_reader c') = map Some (rp_sent c'))"
  using get_transactions.run_given [OF assms(1)] get_servers.run_given [OF assms(2)] by auto

theorem responses_given_in_order_witness:
  "\<exists>(c :: (nat, nat) stream_call) c' :: (nat, nat) stream_call.
     rp_sent c = [7] \<and> rd_given (rp_reader c) = [Some 7] \<and> rd_given (rp_reader c') = []"
proof -
  let ?c = "(new_stream_call 0 2)\<lparr>rp_sent := [7], rp_incoming := [7]\<rparr> :: (nat, nat) stream_call"
  let ?d = "?c\<lparr>rp_reader := get_transactions_on_read_done True
      ((rp_reader ?c)\<lparr>rd_reads := 0, rd_response := Some 7\<rparr>), rp_incoming := []\<rparr>"
  have "stream_step get_transactions_on_read_done False Outer (new_stream_call 0 2) ?c"
    using stream_step.arrive [of "new_stream_call 0 2 :: (nat, nat) stream_call" get_transactions_on_read_done False 7]
    by (simp add: new_stream_call_def)
  moreover have "stream_step get_transactions_on_read_done False Inner ?c ?d"
    by (rule stream_step.read) (simp_all add: new_stream_call_def new_reader_def start_read_def)
  ultimately have run: "stream_run get_transactions_on_read_done False (Suc 0) (new_stream_call 0 2) ?d"
    by (blast intro: stream_run.intros)
  have run': "stream_run get_servers_on_read_done True 0 (new_stream_call 0 2) (new_stream_call 0 2 :: (nat, nat) stream_call)"
    by (rule stream_run.nil)
  show ?thesis
    using responses_given_in_order [OF run run']
    by (intro exI [of _ ?d] exI [of _ "new_stream_call 0 2"]) (simp add: new_stream_call_def)
qed

text \<open>C14: signing out does not hang and may free the readers of messages and of marks. Once a reader has been
  cancelled, the thread in \<open>Await\<close> is not left asleep: as long as it has not returned, some step of the
  reader is possible, and each of them decreases a bound. When it returns it has the status of the call, the
  mutex is free, and no callback touches the reader any more.\<close>

theorem cancelled_readers_are_awaited:
  assumes "stream_run receive_message_on_read_done False k (new_stream_call ok final) c"
    and "stream_run receive_read_messages_on_read_done False k' (new_stream_call ok' final') c'"
    and "rp_cancelled c" "rp_waiter c \<noteq> Outside" "rp_cancelled c'" "rp_waiter c' \<noteq> Outside"
  shows "await_served receive_message_on_read_done False c \<and>
    await_served receive_read_messages_on_read_done False c'"
  using receive_message.await_returns [OF assms(1) _ assms(4)]
    receive_read_messages.await_returns [OF assms(2) _ assms(6)] assms(3,5)
  by (simp add: await_served_def)

theorem cancelled_readers_are_awaited_witness:
  "\<exists>(c :: (nat, nat) stream_call) c' :: (nat, nat) stream_call. rp_waiter c = Await_Lock \<and>
     await_served receive_message_on_read_done False c \<and> await_served receive_read_messages_on_read_done False c'"
proof -
  let ?c = "(try_cancel (new_stream_call 0 2))\<lparr>rp_waiter := Await_Lock\<rparr> :: (nat, nat) stream_call"
  have run: "stream_run ord False 0 (new_stream_call 0 2) ?c" for ord
    by (rule stream_run.outer [OF stream_run.outer [OF stream_run.nil stream_step.cancel] stream_step.await])
      (simp add: try_cancel_def new_stream_call_def)
  have "rp_cancelled ?c" "rp_waiter ?c \<noteq> Outside" by (simp_all add: try_cancel_def)
  then show ?thesis
    using cancelled_readers_are_awaited [OF run run] by (intro exI [of _ ?c]) simp
qed

text \<open>
  \<open>GetServersReader\<close> calls \<open>on_done_\<close> with its mutex locked, and unlocks it afterwards: when the callback
  replaces the reader, as \<open>handle_reconnect\<close> does, a locked mutex is destroyed and then unlocked.
\<close>

lemma on_done_called_locked:
  assumes "stream_run get_servers_on_read_done True k (new_stream_call ok final) c" "rp_callback c = Done_Call"
  shows "rp_mu c = Some Callback \<and> rp_waiter c \<noteq> Await_Test \<and>
    (\<exists>d. on_done_step True c = Some d \<and> rp_callback d = Done_Unlock \<and> rp_mu d = Some Callback)"
  using get_servers.stream_run_ok [OF assms(1) stream_ok_new] assms(2)
  by (auto simp: stream_ok_def mutex_ok_def on_done_step_def)

end
