(* ===== verification/Sql.thy ===== *)
theory Sql
  imports ChatLink
begin

text \<open>
  The class \<open>Db\<close> of the chat server (\<open>database.{hpp,cpp}\<close>): binding of arguments, the loop over the
  rows of a statement, the set-up of a new database from \<open>sql.hpp\<close>, copying a database; and the SQL texts
  that are put together at run time, by \<open>ReadMessages\<close> (\<open>service/main/impl.cpp\<close>) and by the replay of
  operations on a replica (\<open>server.cpp\<close>). SQLite is a parameter: what preparing a text and stepping a
  statement give.
\<close>

section \<open>Arguments\<close>

text \<open>The overloads of \<open>bind_arg\<close>. A double is known by its bits.\<close>

datatype db_arg =
    Arg_Int u32 | Arg_Int64 u64 | Arg_Ulong u64 | Arg_Ulonglong u64 | Arg_Double u64 | Arg_Text bytes | Arg_Null
  | Arg_Range "db_arg list"

datatype db_value = Db_Null | Db_Integer int | Db_Double u64 | Db_Text bytes

text \<open>
  The length of a text is passed as an \<open>int\<close>; a negative one means that the text ends at its first zero
  byte.
\<close>

definition bound_text :: "bytes \<Rightarrow> bytes" where
  "bound_text s =
     (let n = sint (word_of_nat (length s) :: u32)
      in if n < 0 then takeWhile (\<lambda>b. b \<noteq> 0) s else take (nat n) s)"

text \<open>A prepared statement: how many placeholders it has, and their values by their number from 1.\<close>

record stmt =
  st_params :: nat
  st_bound :: "nat \<rightharpoonup> db_value"

text \<open>One call of \<open>sqlite3_bind_\<close>: \<open>None\<close> is the exception for a number out of range.\<close>

definition bind_value :: "db_value \<Rightarrow> nat \<times> stmt \<Rightarrow> (nat \<times> stmt) option" where
  "bind_value v s =
     (case s of (index, st) \<Rightarrow>
        let index = index + 1 in
        if index \<le> st_params st then Some (index, st\<lparr>st_bound := (st_bound st)(index \<mapsto> v)\<rparr>) else None)"

fun bind_arg :: "db_arg \<Rightarrow> nat \<times> stmt \<Rightarrow> (nat \<times> stmt) option"
  and bind_args :: "db_arg list \<Rightarrow> nat \<times> stmt \<Rightarrow> (nat \<times> stmt) option" where
  "bind_arg (Arg_Int i) s = bind_value (Db_Integer (sint i)) s"
| "bind_arg (Arg_Int64 i) s = bind_value (Db_Integer (sint i)) s"
| "bind_arg (Arg_Ulong w) s = bind_value (Db_Integer (bind_unsigned w)) s"
| "bind_arg (Arg_Ulonglong w) s = bind_value (Db_Integer (bind_unsigned w)) s"
| "bind_arg (Arg_Double d) s = bind_value (Db_Double d) s"
| "bind_arg (Arg_Text t) s = bind_value (Db_Text (bound_text t)) s"
| "bind_arg Arg_Null s = bind_value Db_Null s"
| "bind_arg (Arg_Range args) s = bind_args args s"
| "bind_args [] s = Some s"
| "bind_args (a # args) s = (case bind_arg a s of None \<Rightarrow> None | Some s \<Rightarrow> bind_args args s)"

section \<open>Rows\<close>

datatype col_type = Col_Bool | Col_Int | Col_Int64 | Col_Double | Col_Text

datatype field = Field_Bool bool | Field_Int u32 | Field_Int64 u64 | Field_Double u64 | Field_Text bytes

text \<open>
  The parameter: \<open>sq_prepare\<close> is the number of placeholders of a text, or a failure; \<open>sq_steps\<close> is what the
  statement does to the database and what the calls of \<open>sqlite3_step\<close> return; the rest are SQLite's
  conversions of a column's value.
\<close>

datatype step_result = Sqlite_Row "db_value list" | Sqlite_Done | Sqlite_Error | Sqlite_Other nat

record 'd sqlite =
  sq_prepare :: "'d \<Rightarrow> string \<Rightarrow> nat option"
  sq_steps :: "'d \<Rightarrow> string \<Rightarrow> (nat \<rightharpoonup> db_value) \<Rightarrow> 'd \<times> step_result list"
  sq_int64 :: "db_value \<Rightarrow> u64"
  sq_double :: "db_value \<Rightarrow> u64"
  sq_text :: "db_value \<Rightarrow> bytes"

definition get_column_value :: "'d sqlite \<Rightarrow> col_type \<Rightarrow> db_value \<Rightarrow> field" where
  "get_column_value sq t v =
     (case t of
        Col_Bool \<Rightarrow> Field_Bool ((ucast (sq_int64 sq v) :: u32) \<noteq> 0)
      | Col_Int \<Rightarrow> Field_Int (ucast (sq_int64 sq v))
      | Col_Int64 \<Rightarrow> Field_Int64 (sq_int64 sq v)
      | Col_Double \<Rightarrow> Field_Double (sq_double sq v)
      | Col_Text \<Rightarrow> Field_Text (sq_text sq v))"

text \<open>A column that a row does not have is NULL.\<close>

definition fetch_tuple :: "'d sqlite \<Rightarrow> col_type list \<Rightarrow> db_value list \<Rightarrow> field list" where
  "fetch_tuple sq ts row =
     map (\<lambda>(i, t). get_column_value sq t (if i < length row then row ! i else Db_Null)) (enumerate 0 ts)"

section \<open>Executing a statement\<close>

datatype db_error = Prepare_Failed | Bind_Failed | Step_Failed

text \<open>The loop over \<open>sqlite3_step\<close>; \<open>None\<close>: the rows do not end.\<close>

fun step_loop :: "'d sqlite \<Rightarrow> col_type list \<Rightarrow> step_result list \<Rightarrow> field list list \<Rightarrow>
    (field list list \<times> step_result) option" where
  "step_loop sq ts (Sqlite_Row row # rs) rows = step_loop sq ts rs (rows @ [fetch_tuple sq ts row])"
| "step_loop sq ts (rc # rs) rows = Some (rows, rc)"
| "step_loop sq ts [] rows = None"

text \<open>A connection: the database, and how many statements are not finalized.\<close>

record 'd conn =
  cn_db :: 'd
  cn_live :: nat

definition execute :: "'d sqlite \<Rightarrow> col_type list \<Rightarrow> string \<Rightarrow> db_arg list \<Rightarrow> 'd conn \<Rightarrow>
    ((db_error + field list list) \<times> 'd conn) option" where
  "execute sq ts sql args c =
     (case sq_prepare sq (cn_db c) sql of
        None \<Rightarrow> Some (Inl Prepare_Failed, c)
      | Some n \<Rightarrow>
          (let c = c\<lparr>cn_live := cn_live c + 1\<rparr> in
           case bind_args args (0, \<lparr>st_params = n, st_bound = Map.empty\<rparr>) of
             None \<Rightarrow> Some (Inl Bind_Failed, c)
           | Some (_, st) \<Rightarrow>
               (case sq_steps sq (cn_db c) sql (st_bound st) of (d, rs) \<Rightarrow>
                  map_option (\<lambda>(rows, rc).
                    (case rc of Sqlite_Error \<Rightarrow> Inl Step_Failed | _ \<Rightarrow> Inr rows,
                     c\<lparr>cn_db := d, cn_live := cn_live c - 1\<rparr>)) (step_loop sq ts rs []))))"

section \<open>Texts put together at run time\<close>

text \<open>The loops that write the elements of a list with a separator between them.\<close>

fun write_list :: "string \<Rightarrow> string list \<Rightarrow> string" where
  "write_list sep [] = ''''"
| "write_list sep (x # xs) = x @ (if xs = [] then '''' else sep) @ write_list sep xs"

definition read_text :: "nat \<Rightarrow> string" where
  "read_text n = ''UPDATE messages SET is_read = 1 WHERE user_id != ? AND id IN ('' @
     write_list '', '' (replicate n ''?'') @ '') RETURNING user_id''"

definition read_args :: "u64 \<Rightarrow> u64 list \<Rightarrow> db_arg list" where
  "read_args user_id message_ids = [Arg_Ulong user_id, Arg_Range (map Arg_Ulong message_ids)]"

definition insert_text :: "operation \<Rightarrow> string" where
  "insert_text op = ''INSERT INTO '' @ op_table op @ '' ('' @ write_list '', '' (map fst (op_new op)) @
     '') VALUES ('' @ write_list '', '' (map (\<lambda>_. ''?'') (op_new op)) @ '')''"

definition insert_args :: "operation \<Rightarrow> db_arg list" where
  "insert_args op = [Arg_Range (map (Arg_Text \<circ> snd) (op_new op))]"

definition update_text :: "operation \<Rightarrow> string" where
  "update_text op = ''UPDATE '' @ op_table op @ '' SET '' @
     write_list '', '' (map (\<lambda>e. fst e @ '' = ?'') (op_new op)) @
     (if op_old op \<noteq> [] then '' WHERE '' @ write_list '' AND '' (map (\<lambda>e. fst e @ '' = ?'') (op_old op)) else '''')"

definition update_args :: "operation \<Rightarrow> db_arg list" where
  "update_args op = [Arg_Range (map (Arg_Text \<circ> snd) (op_new op) @ map (Arg_Text \<circ> snd) (op_old op))]"

section \<open>A new database\<close>

text \<open>The constant \<open>MAIN\<close> of \<open>sql.hpp\<close>.\<close>

definition create_users :: string where
  "create_users =
     ''CREATE TABLE IF NOT EXISTS users ( id INTEGER PRIMARY KEY AUTOINCREMENT, username TEXT '' @
     ''NOT NULL UNIQUE, password_encoded TEXT NOT NULL, is_deleted BOOLEAN NOT NULL DEFAULT 0, '' @
     ''updated_at DATETIME NOT NULL DEFAULT CURRENT_TIMESTAMP, created_at DATETIME NOT NULL '' @
     ''DEFAULT CURRENT_TIMESTAMP )''"

definition create_conversations :: string where
  "create_conversations =
     ''CREATE TABLE IF NOT EXISTS conversations ( id INTEGER PRIMARY KEY AUTOINCREMENT, '' @
     ''is_deleted BOOLEAN NOT NULL DEFAULT 0, updated_at DATETIME NOT NULL DEFAULT '' @
     ''CURRENT_TIMESTAMP, created_at DATETIME NOT NULL DEFAULT CURRENT_TIMESTAMP )''"

definition create_conversations_users :: string where
  "create_conversations_users =
     ''CREATE TABLE IF NOT EXISTS conversations_users ( id INTEGER PRIMARY KEY AUTOINCREMENT, '' @
     ''conversation_id INTEGER NOT NULL, user_id INTEGER NOT NULL, updated_at DATETIME NOT NULL '' @
     ''DEFAULT CURRENT_TIMESTAMP, created_at DATETIME NOT NULL DEFAULT CURRENT_TIMESTAMP, '' @
     ''FOREIGN KEY (conversation_id) REFERENCES conversations(id), FOREIGN KEY (user_id) '' @
     ''REFERENCES users(id) )''"

definition create_messages :: string where
  "create_messages =
     ''CREATE TABLE IF NOT EXISTS messages ( id INTEGER PRIMARY KEY AUTOINCREMENT, '' @
     ''conversation_id INTEGER NOT NULL, content TEXT NOT NULL, user_id INTEGER NOT NULL, '' @
     ''is_read BOOLEAN NOT NULL DEFAULT 0, is_deleted BOOLEAN NOT NULL DEFAULT 0, updated_at '' @
     ''DATETIME NOT NULL DEFAULT CURRENT_TIMESTAMP, created_at DATETIME NOT NULL DEFAULT '' @
     ''CURRENT_TIMESTAMP, FOREIGN KEY (conversation_id) REFERENCES conversations(id), FOREIGN '' @
     ''KEY (user_id) REFERENCES users(id) )''"

definition main_sql :: string where
  "main_sql = create_users @ ''; '' @ create_conversations @ ''; '' @ create_conversations_users @ ''; '' @
     create_messages @ ''; ''"

text \<open>\<open>std::getline\<close> until its end, \<open>boost::trim_right\<close>, and the loop of the constructor.\<close>

fun get_lines :: "char \<Rightarrow> string \<Rightarrow> string list" where
  "get_lines d [] = []"
| "get_lines d (c # cs) =
     (let line = takeWhile (\<lambda>x. x \<noteq> d) (c # cs)
      in line # get_lines d (drop (length line + 1) (c # cs)))"

definition is_space :: "char \<Rightarrow> bool" where
  "is_space c \<longleftrightarrow> of_char c = (32 :: nat) \<or> 9 \<le> (of_char c :: nat) \<and> of_char c \<le> (13 :: nat)"

definition trim_right :: "string \<Rightarrow> string" where
  "trim_right s = rev (dropWhile is_space (rev s))"

definition schema_statements :: "string \<Rightarrow> string list" where
  "schema_statements text =
     map (\<lambda>s. s @ '';'') (filter (\<lambda>s. s \<noteq> []) (map trim_right (get_lines (CHR '';'') text)))"

text \<open>The constructor of \<open>Db\<close>: the statements it executes, for a file that exists or not; \<open>None\<close> is the
  exception.\<close>

definition db_file :: "string \<Rightarrow> string" where
  "db_file name = name @ ''.db''"

definition open_db :: "bool \<Rightarrow> bool \<Rightarrow> string list option" where
  "open_db opened file_exists =
     (if \<not> opened then None else if file_exists then Some [] else Some (schema_statements main_sql))"

section \<open>Copying a database\<close>

text \<open>Which of SQLite's calls succeed.\<close>

record copying =
  cp_open_memory :: bool
  cp_deserialize :: bool
  cp_open_file :: bool
  cp_backup_init :: bool
  cp_backup_step :: bool

text \<open>What \<open>set_bytes\<close> leaves in the file, and whether it logs an error; it returns nothing.\<close>

definition set_bytes :: "copying \<Rightarrow> 'd \<Rightarrow> 'd \<Rightarrow> 'd \<times> bool" where
  "set_bytes cp received file =
     (if \<not> cp_open_memory cp then (file, True)
      else if \<not> cp_deserialize cp then (file, True)
      else if \<not> cp_open_file cp then (file, True)
      else
        (let file = (if cp_backup_init cp \<and> cp_backup_step cp then received else file)
         in (file, \<not> (cp_backup_init cp \<and> cp_backup_step cp))))"

section \<open>Binding\<close>

text \<open>The values of an argument, in the order in which they are bound.\<close>

fun arg_values :: "db_arg \<Rightarrow> db_value list" where
  "arg_values (Arg_Int i) = [Db_Integer (sint i)]"
| "arg_values (Arg_Int64 i) = [Db_Integer (sint i)]"
| "arg_values (Arg_Ulong w) = [Db_Integer (bind_unsigned w)]"
| "arg_values (Arg_Ulonglong w) = [Db_Integer (bind_unsigned w)]"
| "arg_values (Arg_Double d) = [Db_Double d]"
| "arg_values (Arg_Text t) = [Db_Text (bound_text t)]"
| "arg_values Arg_Null = [Db_Null]"
| "arg_values (Arg_Range args) = concat (map arg_values args)"

text \<open>Values at the numbers from \<open>i + 1\<close> on.\<close>

definition numbered :: "nat \<Rightarrow> 'v list \<Rightarrow> (nat \<rightharpoonup> 'v)" where
  "numbered i vs = (\<lambda>k. if i < k \<and> k \<le> i + length vs then Some (vs ! (k - i - 1)) else None)"

definition bind_all :: "db_value list \<Rightarrow> nat \<times> stmt \<Rightarrow> (nat \<times> stmt) option" where
  "bind_all vs s =
     (case s of (i, st) \<Rightarrow>
        if vs = [] \<or> i + length vs \<le> st_params st
        then Some (i + length vs, st\<lparr>st_bound := st_bound st ++ numbered i vs\<rparr>) else None)"

lemma numbered_Nil [simp]: "numbered i [] = Map.empty"
  by (auto simp: numbered_def fun_eq_iff)

lemma numbered_append: "numbered i (us @ vs) = numbered i us ++ numbered (i + length us) vs"
  by (auto simp: numbered_def fun_eq_iff map_add_def nth_append)

lemma bind_value_all: "bind_value v s = bind_all [v] s"
proof -
  have "numbered i [v] = [Suc i \<mapsto> v]" for i by (auto simp: numbered_def fun_eq_iff)
  then show ?thesis by (cases s) (simp add: bind_value_def bind_all_def)
qed

lemma bind_all_Nil [simp]: "bind_all [] s = Some s"
  by (cases s) (simp add: bind_all_def)

lemma bind_all_append: "bind_all (us @ vs) s = Option.bind (bind_all us s) (bind_all vs)"
  by (cases s; cases "us = []"; cases "vs = []") (auto simp: bind_all_def numbered_append)

lemma bind_arg_all: "bind_arg a s = bind_all (arg_values a) s"
  "bind_args args s = bind_all (concat (map arg_values args)) s"
  by (induction a s and args s rule: bind_arg_bind_args.induct)
    (auto simp: bind_value_all bind_all_append split: option.splits)

lemma bind_args_fresh:
  "bind_args args (0, \<lparr>st_params = n, st_bound = Map.empty\<rparr>) =
     (let vs = concat (map arg_values args) in
      if length vs \<le> n then Some (length vs, \<lparr>st_params = n, st_bound = numbered 0 vs\<rparr>) else None)"
  by (cases "concat (map arg_values args) = []") (auto simp: bind_arg_all bind_all_def Let_def simp del: concat_eq_Nil_conv)

section \<open>Placeholders\<close>

definition placeholders :: "string \<Rightarrow> nat" where
  "placeholders sql = length (filter (\<lambda>c. c = CHR ''?'') sql)"

lemma placeholders_append [simp]: "placeholders (s @ t) = placeholders s + placeholders t"
  by (simp add: placeholders_def)

lemma placeholders_chars [simp]:
  "placeholders [] = 0" "placeholders (c # s) = (if c = CHR ''?'' then 1 else 0) + placeholders s"
  by (simp_all add: placeholders_def)

lemma placeholders_list: "placeholders sep = 0 \<Longrightarrow> placeholders (write_list sep xs) = sum_list (map placeholders xs)"
  by (induction sep xs rule: write_list.induct) (auto simp: placeholders_def)

definition plain_names :: "operation \<Rightarrow> bool" where
  "plain_names op \<longleftrightarrow> placeholders (op_table op) = 0 \<and>
     (\<forall>e\<in>set (op_new op) \<union> set (op_old op). placeholders (fst e) = 0)"

lemma sum_list_ones: "(\<forall>x\<in>set xs. f x = 1) \<Longrightarrow> sum_list (map f xs) = length xs"
  by (induction xs) auto

lemma sum_list_zeros: "(\<forall>x\<in>set xs. f x = 0) \<Longrightarrow> sum_list (map f xs) = (0 :: nat)"
  by (induction xs) auto

lemma placeholders_read: "placeholders (read_text n) = n + 1"
proof -
  have "sum_list (replicate n (Suc 0)) = n" by (induction n) auto
  then show ?thesis
    unfolding read_text_def placeholders_append
    by (subst placeholders_list) (simp_all add: placeholders_def)
qed

lemma placeholders_insert:
  assumes "plain_names op"
  shows "placeholders (insert_text op) = length (op_new op)"
proof -
  have "sum_list (map (placeholders \<circ> fst) (op_new op)) = 0"
    using assms by (intro sum_list_zeros) (auto simp: plain_names_def)
  moreover have "sum_list (map (placeholders \<circ> (\<lambda>_. ''?'')) (op_new op)) = length (op_new op)"
    by (intro sum_list_ones) (simp add: placeholders_def)
  ultimately show ?thesis
    using assms unfolding insert_text_def placeholders_append
    by (simp add: placeholders_list plain_names_def)
qed

lemma placeholders_update:
  assumes "plain_names op"
  shows "placeholders (update_text op) = length (op_new op) + length (op_old op)"
proof -
  have one: "placeholders (fst e @ '' = ?'') = 1" if "e \<in> set (op_new op) \<union> set (op_old op)" for e
    using assms that by (auto simp: plain_names_def)
  have "sum_list (map (placeholders \<circ> (\<lambda>e. fst e @ '' = ?'')) (op_new op)) = length (op_new op)"
    "sum_list (map (placeholders \<circ> (\<lambda>e. fst e @ '' = ?'')) (op_old op)) = length (op_old op)"
    using one by (intro sum_list_ones; simp)+
  then show ?thesis
    using assms unfolding update_text_def placeholders_append
    by (cases "op_old op = []") (simp_all add: placeholders_list plain_names_def)
qed

lemma values_of_texts: "concat (map (arg_values \<circ> (Arg_Text \<circ> snd)) es) = map (Db_Text \<circ> bound_text \<circ> snd) es"
  by (induction es) auto

lemma values_of_ids: "concat (map (arg_values \<circ> Arg_Ulong) ws) = map (Db_Integer \<circ> bind_unsigned) ws"
  by (induction ws) auto



section \<open>The outcomes of a statement\<close>

lemma step_loop_rows:
  "\<forall>row. rc \<noteq> Sqlite_Row row \<Longrightarrow>
     step_loop sq ts (map Sqlite_Row rows @ rc # rest) acc = Some (acc @ map (fetch_tuple sq ts) rows, rc)"
  by (induction rows arbitrary: acc) (cases rc; auto)+

text \<open>\<open>execute\<close> throws when SQLite rejects the text, when there are more values than placeholders, and when
  the last step returns SQLITE_ERROR, and in no other case: after SQLITE_CONSTRAINT or SQLITE_BUSY it returns the
  rows that came before, as after SQLITE_DONE. Only the second case leaves a statement behind that is not
  finalized.\<close>

theorem execute_outcome:
  assumes "sq_steps sq (cn_db c) sql (numbered 0 (concat (map arg_values args))) =
      (d, map Sqlite_Row rows @ rc # rest)"
    and "\<forall>row. rc \<noteq> Sqlite_Row row"
  shows "execute sq ts sql args c =
    (case sq_prepare sq (cn_db c) sql of
       None \<Rightarrow> Some (Inl Prepare_Failed, c)
     | Some n \<Rightarrow>
         if n < length (concat (map arg_values args)) then Some (Inl Bind_Failed, c\<lparr>cn_live := cn_live c + 1\<rparr>)
         else Some (if rc = Sqlite_Error then Inl Step_Failed else Inr (map (fetch_tuple sq ts) rows),
           c\<lparr>cn_db := d\<rparr>))"
proof (cases "sq_prepare sq (cn_db c) sql")
  case (Some n)
  have "step_loop sq ts (map Sqlite_Row rows @ rc # rest) [] = Some (map (fetch_tuple sq ts) rows, rc)"
    using step_loop_rows [OF assms(2), of sq ts rows rest "[]"] by simp
  then show ?thesis
    using Some assms by (cases rc) (simp_all add: execute_def bind_args_fresh Let_def not_less)
qed (simp add: execute_def)

theorem execute_outcome_witness:
  "\<exists>sq :: nat sqlite. execute sq [Col_Int64] ''INSERT'' [Arg_Ulong 5] \<lparr>cn_db = 0, cn_live = 0\<rparr> =
     Some (Inr [], \<lparr>cn_db = 1, cn_live = 0\<rparr>) \<and>
   snd (sq_steps sq 0 ''INSERT'' (numbered 0 [Db_Integer 5])) = [Sqlite_Other 19]"
proof -
  let ?sq = "\<lparr>sq_prepare = (\<lambda>_ _. Some 1), sq_steps = (\<lambda>d _ _. (Suc d, [Sqlite_Other 19])), sq_int64 = (\<lambda>_. 0),
    sq_double = (\<lambda>_. 0), sq_text = (\<lambda>_. [])\<rparr> :: nat sqlite"
  have "execute ?sq [Col_Int64] ''INSERT'' [Arg_Ulong 5] \<lparr>cn_db = 0, cn_live = 0\<rparr> =
     Some (Inr [], \<lparr>cn_db = 1, cn_live = 0\<rparr>)"
    using execute_outcome [of ?sq "\<lparr>cn_db = 0, cn_live = 0\<rparr>" "''INSERT''" "[Arg_Ulong 5]" "Suc 0" "[]" "Sqlite_Other 19" "[]" "[Col_Int64]"]
    by simp
  then show ?thesis by (intro exI [of _ ?sq]) simp
qed

section \<open>The schema\<close>

lemma get_lines_append:
  assumes "d \<notin> set s"
  shows "get_lines d (s @ d # r) = s # get_lines d r"
proof (cases s)
  case Nil
  then show ?thesis by simp
next
  case (Cons c cs)
  have "takeWhile (\<lambda>x. x \<noteq> d) (s @ d # r) = s" using assms by (subst takeWhile_append2) auto
  then show ?thesis using Cons by (simp add: Let_def)
qed

lemma trim_right_last: "s \<noteq> [] \<Longrightarrow> \<not> is_space (last s) \<Longrightarrow> trim_right s = s"
  by (cases s rule: rev_cases) (auto simp: trim_right_def)

text \<open>A statement without a semicolon that does not end in a blank.\<close>

definition one_statement :: "string \<Rightarrow> bool" where
  "one_statement s \<longleftrightarrow> CHR '';'' \<notin> set s \<and> s \<noteq> [] \<and> \<not> is_space (last s)"

lemma schema_statements_Cons:
  assumes "one_statement s"
  shows "schema_statements (s @ '';'' @ r) = (s @ '';'') # schema_statements r"
  using assms get_lines_append [of "CHR '';''" s r] trim_right_last [of s]
  by (simp add: one_statement_def schema_statements_def)

lemma schema_statements_blank: "schema_statements '' '' = []"
  by (simp add: schema_statements_def trim_right_def is_space_def)

lemma one_statement_blank: "one_statement s \<Longrightarrow> one_statement (CHR '' '' # s)"
  by (auto simp: one_statement_def)

lemma main_statements:
  "one_statement create_users" "one_statement create_conversations" "one_statement create_conversations_users"
  "one_statement create_messages"
  by (simp_all add: one_statement_def create_users_def create_conversations_def create_conversations_users_def
    create_messages_def is_space_def)

text \<open>A new database executes the four CREATE TABLE statements of \<open>main.sql\<close>, each with its semicolon, in
  order, and nothing else; a database whose file exists executes nothing. In general the loop over the
  semicolons gives back exactly the statements that were joined with them.\<close>

theorem new_database_has_tables:
  "open_db True False = Some [create_users @ '';'', '' '' @ create_conversations @ '';'',
     '' '' @ create_conversations_users @ '';'', '' '' @ create_messages @ '';''] \<and>
   open_db True True = Some [] \<and>
   (list_all one_statement ss \<longrightarrow>
     schema_statements (concat (map (\<lambda>s. s @ '';'') ss)) = map (\<lambda>s. s @ '';'') ss)"
proof -
  have "schema_statements (concat (map (\<lambda>s. s @ '';'') ss)) = map (\<lambda>s. s @ '';'') ss" if "list_all one_statement ss"
    using that
  proof (induction ss)
    case Nil
    show ?case by (simp add: schema_statements_def)
  next
    case (Cons s ss)
    then show ?case using schema_statements_Cons [of s "concat (map (\<lambda>s. s @ '';'') ss)"] by simp
  qed
  moreover have "schema_statements main_sql = [create_users @ '';'', '' '' @ create_conversations @ '';'',
     '' '' @ create_conversations_users @ '';'', '' '' @ create_messages @ '';'']"
    using schema_statements_Cons [OF main_statements(1)]
      schema_statements_Cons [OF one_statement_blank [OF main_statements(2)]]
      schema_statements_Cons [OF one_statement_blank [OF main_statements(3)]]
      schema_statements_Cons [OF one_statement_blank [OF main_statements(4)]] schema_statements_blank
    by (simp add: main_sql_def)
  ultimately show ?thesis by (simp add: open_db_def)
qed

theorem new_database_has_tables_witness:
  "schema_statements (concat (map (\<lambda>s. s @ '';'') [''A'', '' B''])) = [''A;'', '' B;'']"
  using new_database_has_tables [of "[''A'', '' B'']"] by (simp add: one_statement_def is_space_def)

end
