(* ===== verification/Failover.thy ===== *)
theory Failover
  imports Sql
begin

text \<open>
  The constructor of the chat server (\<open>converse/exe_server/src/server.cpp\<close>): a leader serves at once; a replica
  identifies itself, copies the leader's database and follows the streams of one leader after the other until it
  is the leader itself. And a leader with its replicas, through any number of failures of the leader.
\<close>

section \<open>The constructor\<close>

datatype server_failure = Identify_Failed | Replay_Threw | No_Address | No_Single_Leader

record replica =
  rp_addresses :: "server_address list"
  rp_tables :: tables
  rp_leader :: server_address
  rp_is_leader :: bool

text \<open>\<open>identify\<close> is what \<open>IdentifyMyself\<close> gives at an address, or nothing for a status that is not OK.\<close>

definition server_start ::
    "copying \<Rightarrow> (server_address \<Rightarrow> (server_address list \<times> tables) option) \<Rightarrow> server_address \<Rightarrow> server_address option \<Rightarrow>
      tables \<Rightarrow> server_failure + replica" where
  "server_start cp identify my_address join_address db =
     (case join_address of
        None \<Rightarrow> Inr \<lparr>rp_addresses = [], rp_tables = db, rp_leader = my_address, rp_is_leader = True\<rparr>
      | Some leader \<Rightarrow>
          (case identify leader of
             None \<Rightarrow> Inl Identify_Failed
           | Some (cluster_addresses, what) \<Rightarrow>
               Inr \<lparr>rp_addresses = join_cluster [] cluster_addresses, rp_tables = fst (set_bytes cp what db),
                 rp_leader = leader, rp_is_leader = False\<rparr>))"

text \<open>One round of the loop, for what the stream of the leader carried until it ended.\<close>

definition server_round ::
    "nat \<Rightarrow> server_address \<Rightarrow> operation list list \<Rightarrow> replica \<Rightarrow> server_failure + replica" where
  "server_round now my_address txs r =
     (case replay_stream now txs (rp_tables r) of
        None \<Rightarrow> Inl Replay_Threw
      | Some t \<Rightarrow>
          (let r = r\<lparr>rp_tables := t\<rparr> in
           case rp_addresses r of
             [] \<Rightarrow> Inl No_Address
           | addr # rest \<Rightarrow>
               (let r = r\<lparr>rp_addresses := rest\<rparr>
                in if addr = my_address then Inr (r\<lparr>rp_is_leader := True\<rparr>)
                   else Inr (r\<lparr>rp_leader := addr\<rparr>))))"

text \<open>The loop, for the streams that have ended so far.\<close>

fun server_loop ::
    "nat \<Rightarrow> server_address \<Rightarrow> operation list list list \<Rightarrow> replica \<Rightarrow> server_failure + replica" where
  "server_loop now my_address [] r = Inr r"
| "server_loop now my_address (txs # streams) r =
     (case server_round now my_address txs r of
        Inl e \<Rightarrow> Inl e
      | Inr r \<Rightarrow> if rp_is_leader r then Inr r else server_loop now my_address streams r)"

definition server_run ::
    "copying \<Rightarrow> (server_address \<Rightarrow> (server_address list \<times> tables) option) \<Rightarrow> nat \<Rightarrow> server_address \<Rightarrow>
      server_address option \<Rightarrow> operation list list list \<Rightarrow> tables \<Rightarrow> server_failure + replica" where
  "server_run cp identify now my_address join_address streams db =
     (case server_start cp identify my_address join_address db of
        Inl e \<Rightarrow> Inl e
      | Inr r \<Rightarrow> if rp_is_leader r then Inr r else server_loop now my_address streams r)"

text \<open>A replica leads after as many streams as there are servers before it in its list, and its own leader's.\<close>

lemma server_loop_leads:
  "\<not> rp_is_leader r \<Longrightarrow> rp_addresses r = us @ me # vs \<Longrightarrow> me \<notin> set us \<Longrightarrow> length streams = Suc (length us) \<Longrightarrow>
     \<forall>txs \<in> set streams. \<forall>t. replay_stream now txs t \<noteq> None \<Longrightarrow>
   \<exists>r'. server_loop now me streams r = Inr r' \<and> rp_is_leader r' \<and> rp_addresses r' = vs"
proof (induction streams arbitrary: r us)
  case (Cons txs streams)
  obtain t where t: "replay_stream now txs (rp_tables r) = Some t"
    using Cons.prems(5) by (metis list.set_intros(1) not_None_eq)
  show ?case
  proof (cases us)
    case Nil
    then show ?thesis using Cons.prems(2) t by (simp add: server_round_def Let_def)
  next
    case (Cons u us')
    let ?r = "r\<lparr>rp_tables := t, rp_addresses := us' @ me # vs, rp_leader := u\<rparr>"
    have r: "server_round now me txs r = Inr ?r"
      using Cons.prems(2,3) t Cons by (auto simp: server_round_def Let_def)
    have "\<exists>r'. server_loop now me streams ?r = Inr r' \<and> rp_is_leader r' \<and> rp_addresses r' = vs"
      using Cons.prems(1,3-5) Cons by (intro Cons.IH [of _ us']) auto
    then show ?thesis using r Cons.prems(1) by simp
  qed
qed simp

section \<open>A leader and its replicas\<close>

text \<open>Replicas that start one after the other, before the leader changes its tables again.\<close>

fun start_all ::
    "copying \<Rightarrow> server_address \<Rightarrow> tables \<Rightarrow> server_address list \<Rightarrow> link \<Rightarrow> (server_address \<times> replica) list \<times> link" where
  "start_all cp leader t [] lk = ([], lk)"
| "start_all cp leader t (a # as) lk =
     (let (response, lk) = identify_myself a t lk; (rs, lk) = start_all cp leader t as lk
      in case server_start cp (\<lambda>_. Some response) a (Some leader) no_tables of
           Inl e \<Rightarrow> (rs, lk)
         | Inr r \<Rightarrow> ((a, r) # rs, lk))"

text \<open>The streams end with the leader: every replica goes on with what its own stream has carried.\<close>

fun all_rounds ::
    "nat \<Rightarrow> (nat \<times> operation list list) list \<Rightarrow> (server_address \<times> replica) list \<Rightarrow>
      server_failure + (server_address \<times> replica) list" where
  "all_rounds now ((w, txs) # streams) ((a, r) # rs) =
     (case server_round now a txs r of
        Inl e \<Rightarrow> Inl e
      | Inr r \<Rightarrow>
          (case all_rounds now streams rs of
             Inl e \<Rightarrow> Inl e
           | Inr rs \<Rightarrow> Inr ((a, r) # rs)))"
| "all_rounds now streams rs = Inr []"

text \<open>The service of a replica that is the leader, once the \<open>n\<close> others have opened their streams.\<close>

definition promoted :: "nat \<Rightarrow> replica \<Rightarrow> service" where
  "promoted n r = (new_service [0..<n])\<lparr>sv_db := \<lparr>cd_tables = rp_tables r, cd_saved = None\<rparr>\<rparr>"

text \<open>Each element of the list is what a leader answers before it stops.\<close>

fun reigns ::
    "engine \<Rightarrow> nat \<Rightarrow> request list list \<Rightarrow> service \<Rightarrow> (server_address \<times> replica) list \<Rightarrow>
      server_failure + (service \<times> (server_address \<times> replica) list)" where
  "reigns en now [] sv rs = Inr (sv, rs)"
| "reigns en now (reqs # phases) sv rs =
     (case all_rounds now (sv_cluster (serve_all en reqs sv)) rs of
        Inl e \<Rightarrow> Inl e
      | Inr rs \<Rightarrow>
          (case filter (rp_is_leader \<circ> snd) rs of
             [(a, r)] \<Rightarrow>
               (let others = filter (Not \<circ> rp_is_leader \<circ> snd) rs
                in reigns en now phases (promoted (length others) r) others)
           | _ \<Rightarrow> Inl No_Single_Leader))"

text \<open>The statuses that the clients get.\<close>

fun replies :: "engine \<Rightarrow> request list \<Rightarrow> service \<Rightarrow> unit reply list" where
  "replies en [] sv = []"
| "replies en (req # reqs) sv = fst (serve en req sv) # replies en reqs (snd (serve en req sv))"

section \<open>Requests on the same data\<close>

lemma same_data_sym: "same_data t t' \<Longrightarrow> same_data t' t"
  by (simp add: same_data_def)

lemma same_data_trans: "same_data t t' \<Longrightarrow> same_data t' t'' \<Longrightarrow> same_data t t''"
  by (simp add: same_data_def)

lemma timeless_map:
  assumes "same_data t t'" "\<And>m. f (timeless m) = f m"
  shows "map f (messages t) = map f (messages t')"
proof -
  have "map f (map timeless (messages t)) = map f (map timeless (messages t'))" using assms(1) by (simp add: same_data_def)
  then show ?thesis using assms(2) by (simp add: comp_def)
qed

lemma same_data_tables_ok: "same_data t t' \<Longrightarrow> tables_ok t' \<Longrightarrow> tables_ok t"
  using timeless_map [of t t' m_id] timeless_map [of t t' "\<lambda>m. (m_conversation m, m_user m)"]
  by (simp add: tables_ok_def same_data_def other_members_def)

lemma timeless_list_all:
  assumes "same_data t t'" "\<And>m. P (timeless m) = P m"
  shows "list_all P (messages t) = list_all P (messages t')"
proof -
  have "list_all P (map timeless (messages t)) = list_all P (map timeless (messages t'))"
    using assms(1) by (simp add: same_data_def)
  then show ?thesis using assms(2) by (simp add: list.pred_map comp_def)
qed

lemma replicable_same:
  "same_data (sv_tables sv) (sv_tables sv') \<Longrightarrow> replicable req sv = replicable req sv'"
proof (cases req)
  case (Read_Messages u c ids)
  assume same: "same_data (sv_tables sv) (sv_tables sv')"
  show ?thesis
    unfolding Read_Messages replicable.simps by (rule arg_cong2 [OF refl timeless_list_all [OF same]]) simp
next
  case (Delete_Message c i)
  assume same: "same_data (sv_tables sv) (sv_tables sv')"
  show ?thesis unfolding Delete_Message replicable.simps by (rule timeless_list_all [OF same]) simp
qed simp_all

lemma same_updates:
  assumes "same_data t t'"
  shows "same_data (snd (insert_user n p t)) (snd (insert_user n p t'))" "fst (insert_user n p t) = fst (insert_user n p t')"
    "same_data (delete_user i t) (delete_user i t')"
    "same_data (snd (insert_conversation t)) (snd (insert_conversation t'))"
    "fst (insert_conversation t) = fst (insert_conversation t')"
    "same_data (insert_members c us t) (insert_members c us t')"
    "same_data (delete_conversation i t) (delete_conversation i t')"
    "same_data (snd (insert_message now c u content t)) (snd (insert_message now c u content t'))"
    "fst (insert_message now c u content t) = fst (insert_message now c u content t')"
    "same_data (delete_message c i t) (delete_message c i t')"
  using assms
  by (auto simp: same_data_def insert_user_def delete_user_def insert_conversation_def insert_members_def
      delete_conversation_def insert_message_def delete_message_def auto_id_def split: option.splits
      simp del: map_map auto_id_Some intro!: timeless_map_if)

lemma same_read:
  assumes "same_data t t'" "engine_ok en"
  shows "same_data (snd (read_messages en u is t)) (snd (read_messages en u is t'))"
    "fst (read_messages en u is t) = [] \<longleftrightarrow> fst (read_messages en u is t') = []"
proof -
  show "same_data (snd (read_messages en u is t)) (snd (read_messages en u is t'))"
    using assms(1) by (auto simp: same_data_def read_messages_def Let_def simp del: map_map intro!: timeless_map_if)
  have "list_all (\<lambda>m. \<not> (m_user m \<noteq> u \<and> m_id m \<in> set is)) (messages t) =
      list_all (\<lambda>m. \<not> (m_user m \<noteq> u \<and> m_id m \<in> set is)) (messages t')"
    by (rule timeless_list_all [OF assms(1)]) simp
  then show "fst (read_messages en u is t) = [] \<longleftrightarrow> fst (read_messages en u is t') = []"
    by (simp add: read_messages_def Let_def engine_empty [OF assms(2)] filter_empty_conv list_all_iff)
qed

lemma same_selects:
  assumes "same_data t t'"
  shows "select_login en n t = select_login en n t'" "select_password en i t = select_password en i t'"
    "select_username en i t = select_username en i t'" "select_recipients en c u t = select_recipients en c u t'"
  using assms by (simp_all add: same_data_def select_login_def select_password_def select_username_def
      select_recipients_def other_members_def)

lemma same_inserts:
  assumes "same_data t t'"
  shows "\<exists>rows t1 t2. insert_user n p t = (rows, t1) \<and> insert_user n p t' = (rows, t2) \<and> same_data t1 t2"
    "\<exists>rows t1 t2. insert_conversation t = (rows, t1) \<and> insert_conversation t' = (rows, t2) \<and> same_data t1 t2"
    "\<exists>rows t1 t2. insert_message now c u content t = (rows, t1) \<and> insert_message now c u content t' = (rows, t2) \<and>
       same_data t1 t2"
  using same_updates [OF assms] by (metis prod.collapse)+

lemma groups_empty:
  assumes "engine_ok en" "same_data t t'"
  shows "member_groups ok en t = [] \<longleftrightarrow> member_groups ok en t' = []"
proof -
  have "en_groups en gs = [] \<longleftrightarrow> gs = []" for gs using engine_order(4) [OF assms(1), of gs] by (metis set_empty)
  then show ?thesis using assms(2) by (simp add: member_groups_def Let_def same_data_def)
qed

text \<open>A request has the same status and the same effect on the same data.\<close>

lemma serve_same:
  assumes "engine_ok en" "cd_saved (sv_db sv) = None" "cd_saved (sv_db sv') = None"
    and same: "same_data (sv_tables sv) (sv_tables sv')"
  shows "fst (serve en req sv) = fst (serve en req sv') \<and>
    same_data (sv_tables (snd (serve en req sv))) (sv_tables (snd (serve en req sv')))"
proof (cases req)
  case (Signup n p salt)
  show ?thesis
  proof (cases "generate_password_encoded en p salt")
    case (Some e)
    obtain rows t1 t2 where "insert_user n e (sv_tables sv) = (rows, t1)" "insert_user n e (sv_tables sv') = (rows, t2)"
      "same_data t1 t2"
      using same_inserts(1) [OF same] by metis
    then show ?thesis
      using Signup Some same by (auto simp: signup_user_def set_tables_def Let_def split: option.splits list.splits)
  qed (use Signup same in \<open>auto simp: signup_user_def split: option.splits\<close>)
next
  case (Delete_User u p)
  then show ?thesis
    using same assms(2,3) same_selects(2) [OF same] same_updates(3) [OF same]
    by (auto simp: delete_user_rpc_def transaction_defs Let_def split: option.splits list.splits if_splits)
next
  case (Create_Conversation u v)
  obtain rows t1 t2 where "insert_conversation (sv_tables sv) = (rows, t1)"
    "insert_conversation (sv_tables sv') = (rows, t2)" "same_data t1 t2"
    using same_inserts(2) [OF same] by metis
  then show ?thesis
    using Create_Conversation same assms(2,3) same_selects(3) [OF same] same_updates(6) [of t1 t2]
    by (auto simp: create_conversation_def transaction_defs Let_def split: option.splits list.splits if_splits)
next
  case (Delete_Conversation c)
  then show ?thesis using same_updates(7) [OF same] by (simp add: delete_conversation_rpc_def set_tables_def)
next
  case (Send_Message now c u content)
  obtain rows t1 t2 where "insert_message now (to_int64 c) (to_int64 u) content (sv_tables sv) = (rows, t1)"
    "insert_message now (to_int64 c) (to_int64 u) content (sv_tables sv') = (rows, t2)" "same_data t1 t2"
    using same_inserts(3) [OF same] by metis
  then show ?thesis
    using Send_Message same assms(2,3) same_selects(4) [of t1 t2]
    by (auto simp: send_message_rpc_def transaction_defs Let_def split: option.splits list.splits if_splits)
next
  case (Read_Messages u c ids)
  then show ?thesis
    using same_read [OF same assms(1), of "bind_unsigned u" "map bind_unsigned ids"]
    by (auto simp: read_messages_rpc_def set_tables_def Let_def split: list.splits prod.splits)
next
  case (Delete_Message c i)
  then show ?thesis using same_updates(10) [OF same] by (simp add: delete_message_rpc_def set_tables_def)
next
  case (Get_Conversation u c)
  have "select_conversation en (to_int64 c) (to_int64 u) (sv_tables sv) = [] \<longleftrightarrow>
      select_conversation en (to_int64 c) (to_int64 u) (sv_tables sv') = []"
    by (simp add: select_conversation_def groups_empty [OF assms(1) same])
  then show ?thesis
    using Get_Conversation same
    by (cases "select_conversation en (to_int64 c) (to_int64 u) (sv_tables sv)";
        cases "select_conversation en (to_int64 c) (to_int64 u) (sv_tables sv')")
      (auto simp: get_conversation_def)
qed (use same same_selects(1) [OF same] in
  \<open>auto simp: signin_user_def signout_user_def get_other_users_def get_conversations_def get_messages_def Let_def
    split: list.splits if_splits\<close>)

lemma serve_all_same:
  "engine_ok en \<Longrightarrow> service_ok sv \<Longrightarrow> service_ok sv' \<Longrightarrow> same_data (sv_tables sv) (sv_tables sv') \<Longrightarrow>
     replies en reqs sv = replies en reqs sv' \<and> replicable_run en reqs sv = replicable_run en reqs sv' \<and>
     same_data (sv_tables (serve_all en reqs sv)) (sv_tables (serve_all en reqs sv'))"
proof (induction reqs arbitrary: sv sv')
  case (Cons req reqs)
  have ok: "service_ok (snd (serve en req sv))" "service_ok (snd (serve en req sv'))"
    using serve_tables_ok [OF Cons.prems(1)] Cons.prems(2,3) by (metis prod.collapse)+
  have "fst (serve en req sv) = fst (serve en req sv') \<and>
      same_data (sv_tables (snd (serve en req sv))) (sv_tables (snd (serve en req sv')))"
    using serve_same Cons.prems by (simp add: service_ok_def)
  then show ?case
    using Cons.IH [OF Cons.prems(1) ok] replicable_same [OF Cons.prems(4)] by simp
qed simp

lemma replicable_run_append:
  "replicable_run en (reqs @ reqs') sv \<longleftrightarrow> replicable_run en reqs sv \<and> replicable_run en reqs' (serve_all en reqs sv)"
  by (induction reqs arbitrary: sv) auto

lemma serve_all_append: "serve_all en (reqs @ reqs') sv = serve_all en reqs' (serve_all en reqs sv)"
  by (simp add: serve_all_def)

section \<open>The replicas in line\<close>

text \<open>Every replica knows those that joined before it, and itself.\<close>

fun line_up :: "server_address list \<Rightarrow> (server_address \<times> replica) list \<Rightarrow> bool" where
  "line_up us [] = True"
| "line_up us ((a, r) # rs) \<longleftrightarrow>
     rp_addresses r = us @ [a] \<and> \<not> rp_is_leader r \<and> a \<notin> set us \<and> line_up (us @ [a]) rs"

definition hold :: "tables \<Rightarrow> (server_address \<times> replica) list \<Rightarrow> bool" where
  "hold t rs \<longleftrightarrow> list_all (\<lambda>(a, r). same_data (rp_tables r) t) rs"

definition cluster_ok :: "service \<Rightarrow> (server_address \<times> replica) list \<Rightarrow> bool" where
  "cluster_ok sv rs \<longleftrightarrow>
     service_ok sv \<and> sv_cluster sv = map (\<lambda>w. (w, [])) [0..<length rs] \<and> line_up [] rs \<and> hold (sv_tables sv) rs"

lemma hold_simps [simp]:
  "hold t []" "hold t ((a, r) # rs) \<longleftrightarrow> same_data (rp_tables r) t \<and> hold t rs"
  by (simp_all add: hold_def)

lemma line_up_followers: "line_up us rs \<Longrightarrow> \<forall>(a, r) \<in> set rs. \<not> rp_is_leader r"
  by (induction us rs rule: line_up.induct) auto

lemma line_up_filters:
  assumes "line_up us rs"
  shows "filter (rp_is_leader \<circ> snd) rs = []" "filter (Not \<circ> rp_is_leader \<circ> snd) rs = rs"
  using line_up_followers [OF assms] by (auto simp: filter_empty_conv filter_id_conv)

text \<open>Every replica but the first turns to the first.\<close>

lemma others_round:
  "line_up (a # us) rs \<Longrightarrow> length ws = length rs \<Longrightarrow>
     list_all (\<lambda>(b, r). \<exists>t. replay_stream now txs (rp_tables r) = Some t \<and> same_data t t0) rs \<Longrightarrow>
   \<exists>rs'. all_rounds now (map (\<lambda>w. (w, txs)) ws) rs = Inr rs' \<and> line_up us rs' \<and> map fst rs' = map fst rs \<and> hold t0 rs'"
proof (induction rs arbitrary: us ws)
  case (Cons br rs)
  obtain b r where br: "br = (b, r)" by (cases br)
  obtain w ws' where ws: "ws = w # ws'" using Cons.prems(2) by (cases ws) auto
  obtain t where t: "replay_stream now txs (rp_tables r) = Some t" "same_data t t0" using Cons.prems(3) br by auto
  let ?r = "r\<lparr>rp_tables := t, rp_addresses := us @ [b], rp_leader := a\<rparr>"
  have r: "server_round now b txs r = Inr ?r"
    using Cons.prems(1) t(1) by (auto simp: br server_round_def Let_def)
  obtain rs' where "all_rounds now (map (\<lambda>w. (w, txs)) ws') rs = Inr rs'" "line_up (us @ [b]) rs'"
    "map fst rs' = map fst rs" "hold t0 rs'"
    using Cons.IH [of "us @ [b]" ws'] Cons.prems by (auto simp: br ws)
  then show ?case using r t(2) Cons.prems(1) by (auto simp: br ws)
qed simp

lemma start_all_line_up:
  "start_all cp leader t as lk = (rs, lk') \<Longrightarrow> (\<And>d. fst (set_bytes cp t d) = t) \<Longrightarrow> distinct as \<Longrightarrow>
     set as \<inter> set (lk_cluster_addresses lk) = {} \<Longrightarrow>
   line_up (lk_cluster_addresses lk) rs \<and> map fst rs = as \<and> hold t rs"
proof (induction as arbitrary: lk rs)
  case (Cons a as)
  let ?lk = "lk\<lparr>lk_cluster_addresses := lk_cluster_addresses lk @ [a],
    lk_clients := map (\<lambda>(w, out). (w, out @ [[a]])) (lk_clients lk)\<rparr>"
  obtain rs' where rs': "start_all cp leader t as ?lk = (rs', lk')"
    "rs = (a, \<lparr>rp_addresses = lk_cluster_addresses lk @ [a], rp_tables = t, rp_leader = leader, rp_is_leader = False\<rparr>) # rs'"
    using Cons.prems(1,2)
    by (auto simp: identify_myself_def server_start_def join_cluster_def Let_def split: prod.splits)
  have "line_up (lk_cluster_addresses ?lk) rs' \<and> map fst rs' = as \<and> hold t rs'"
    using Cons.prems(3,4) by (intro Cons.IH [OF rs'(1) Cons.prems(2)]) auto
  then show ?case using rs'(2) Cons.prems(4) by (auto simp: same_data_refl)
qed simp

section \<open>One reign after the other\<close>

text \<open>All streams carry the same, and it leads every replica to the leader's data.\<close>

lemma reign_carries:
  assumes "engine_ok en" "cluster_ok sv rs" "rs \<noteq> []" "replicable_run en reqs sv"
  obtains txs where "sv_cluster (serve_all en reqs sv) = map (\<lambda>w. (w, txs)) [0..<length rs]"
    and "list_all (\<lambda>(a, r). \<exists>t. replay_stream now txs (rp_tables r) = Some t \<and>
      same_data t (sv_tables (serve_all en reqs sv))) rs"
proof -
  have ok: "service_ok sv" "sv_cluster sv = map (\<lambda>w. (w, [])) [0..<length rs]" "hold (sv_tables sv) rs"
    using assms(2) by (simp_all add: cluster_ok_def)
  let ?sv = "serve_all en reqs sv"
  have each: "\<exists>txs. sv_cluster ?sv = map (\<lambda>w. (w, txs)) [0..<length rs] \<and>
      (\<exists>t'. replay_stream now txs t = Some t' \<and> same_data t' (sv_tables ?sv))" if "same_data t (sv_tables sv)" for t
    using run_carries [OF assms(1) ok(1) assms(4) that, of now] ok(2) by (auto simp: carried_def comp_def)
  obtain txs where txs: "sv_cluster ?sv = map (\<lambda>w. (w, txs)) [0..<length rs]"
    using each [OF same_data_refl] by blast
  have "txs' = txs" if "sv_cluster ?sv = map (\<lambda>w. (w, txs')) [0..<length rs]" for txs'
  proof -
    have "map (\<lambda>w. (w, txs)) [0..<length rs] = map (\<lambda>w. (w, txs')) [0..<length rs]" using that txs by simp
    then have "\<forall>w\<in>set [0..<length rs]. txs = txs'" unfolding map_eq_conv by simp
    then show ?thesis using assms(3) by (metis atLeastLessThan_iff length_greater_0_conv le0 set_upt)
  qed
  then have "\<exists>t'. replay_stream now txs t = Some t' \<and> same_data t' (sv_tables ?sv)" if "same_data t (sv_tables sv)" for t
    using each [OF that] by blast
  then have "list_all (\<lambda>(a, r). \<exists>t. replay_stream now txs (rp_tables r) = Some t \<and> same_data t (sv_tables ?sv)) rs"
    using ok(3) by (auto simp: hold_def list_all_iff)
  then show thesis using that txs by blast
qed

lemma reign_step:
  assumes "engine_ok en" "cluster_ok sv ((a, r) # rs)" "replicable_run en reqs sv"
  obtains r' rs' where
    "reigns en now (reqs # phases) sv ((a, r) # rs) = reigns en now phases (promoted (length rs') r') rs'"
    and "cluster_ok (promoted (length rs') r') rs'" "map fst rs' = map fst rs"
    and "same_data (sv_tables (promoted (length rs') r')) (sv_tables (serve_all en reqs sv))"
proof -
  let ?t = "sv_tables (serve_all en reqs sv)"
  have line: "rp_addresses r = [a]" "\<not> rp_is_leader r" "line_up [a] rs" and ok: "service_ok sv"
    using assms(2) by (simp_all add: cluster_ok_def)
  obtain txs where carried: "sv_cluster (serve_all en reqs sv) = map (\<lambda>w. (w, txs)) [0..<length ((a, r) # rs)]"
    and all: "list_all (\<lambda>(a, r). \<exists>t. replay_stream now txs (rp_tables r) = Some t \<and> same_data t ?t) ((a, r) # rs)"
    by (rule reign_carries [OF assms(1,2) _ assms(3), of now]) simp
  have "[0..<length ((a, r) # rs)] = 0 # [1..<Suc (length rs)]" by (simp add: upt_conv_Cons del: upt_Suc)
  then have txs: "sv_cluster (serve_all en reqs sv) = (0, txs) # map (\<lambda>w. (w, txs)) [1..<Suc (length rs)]"
    unfolding carried by (simp del: upt_Suc)
  from all obtain t where t: "replay_stream now txs (rp_tables r) = Some t" "same_data t ?t" by auto
  let ?r = "r\<lparr>rp_tables := t, rp_addresses := [], rp_is_leader := True\<rparr>"
  have first: "server_round now a txs r = Inr ?r" using line(1) t(1) by (simp add: server_round_def Let_def)
  have all: "list_all (\<lambda>(a, r). \<exists>t. replay_stream now txs (rp_tables r) = Some t \<and> same_data t ?t) rs" using all by simp
  have "length [1..<Suc (length rs)] = length rs" by (simp del: upt_Suc)
  from others_round [OF line(3) this all]
  obtain rs' where rs': "all_rounds now (map (\<lambda>w. (w, txs)) [1..<Suc (length rs)]) rs = Inr rs'" "line_up [] rs'"
    "map fst rs' = map fst rs" "hold ?t rs'"
    by blast
  have run: "reigns en now (reqs # phases) sv ((a, r) # rs) = reigns en now phases (promoted (length rs') ?r) rs'"
    using line_up_filters [OF rs'(2)] rs'(1) first by (simp add: txs Let_def del: upt_Suc)
  have tables: "sv_tables (promoted (length rs') ?r) = t" by (simp add: promoted_def)
  have "tables_ok ?t" using serve_all_ok [OF assms(1) ok] by (simp add: service_ok_def)
  then have "service_ok (promoted (length rs') ?r)"
    using same_data_tables_ok [OF t(2)] by (simp add: service_ok_def promoted_def)
  moreover have "hold t rs'" 
    using rs'(4) same_data_trans [OF _ same_data_sym [OF t(2)]] by (fastforce simp: hold_def list_all_iff)
  ultimately have "cluster_ok (promoted (length rs') ?r) rs'"
    using rs'(2) by (simp add: cluster_ok_def tables) (simp add: promoted_def new_service_def)
  then show thesis using that [OF run] rs'(3) t(2) tables by simp
qed

lemma reigns_follow:
  "engine_ok en \<Longrightarrow> cluster_ok sv rs \<Longrightarrow> service_ok sv0 \<Longrightarrow> same_data (sv_tables sv) (sv_tables sv0) \<Longrightarrow>
     length phases \<le> length rs \<Longrightarrow> replicable_run en (concat phases) sv0 \<Longrightarrow>
   \<exists>sv' rs'. reigns en now phases sv rs = Inr (sv', rs') \<and> cluster_ok sv' rs' \<and>
     map fst rs' = drop (length phases) (map fst rs) \<and>
     same_data (sv_tables sv') (sv_tables (serve_all en (concat phases) sv0))"
proof (induction phases arbitrary: sv rs sv0)
  case (Cons reqs phases)
  obtain a r rs1 where rs: "rs = (a, r) # rs1" using Cons.prems(5) by (cases rs) auto
  have ok: "service_ok sv" using Cons.prems(2) by (simp add: cluster_ok_def)
  note same = serve_all_same [OF Cons.prems(1) ok Cons.prems(3,4), of reqs]
  have reqs: "replicable_run en reqs sv" and rest: "replicable_run en (concat phases) (serve_all en reqs sv0)"
    using Cons.prems(6) same by (simp_all add: replicable_run_append)
  obtain r' rs' where step:
    "reigns en now (reqs # phases) sv ((a, r) # rs1) = reigns en now phases (promoted (length rs') r') rs'"
    "cluster_ok (promoted (length rs') r') rs'" "map fst rs' = map fst rs1"
    "same_data (sv_tables (promoted (length rs') r')) (sv_tables (serve_all en reqs sv))"
    using reign_step [OF Cons.prems(1) _ reqs] Cons.prems(2) rs by metis
  have "length rs' = length rs1" using step(3) by (metis length_map)
  then obtain sv' rs'' where "reigns en now phases (promoted (length rs') r') rs' = Inr (sv', rs'')" "cluster_ok sv' rs''"
    "map fst rs'' = drop (length phases) (map fst rs1)"
    "same_data (sv_tables sv') (sv_tables (serve_all en (concat phases) (serve_all en reqs sv0)))"
    using Cons.IH [OF Cons.prems(1) step(2) serve_all_ok [OF Cons.prems(1,3)] _ _ rest]
      same_data_trans [OF step(4)] same step(3) Cons.prems(5) rs by auto
  then show ?case using step(1) rs by (simp add: serve_all_append)
qed simp

lemma serve_no_streams: "sv_cluster sv = [] \<Longrightarrow> sv_cluster (snd (serve en req sv)) = []"
  by (cases req) (auto simp: rpc_defs transaction_defs broadcast_cluster Let_def
      split: option.splits list.splits prod.splits if_splits)

lemma serve_all_no_streams: "sv_cluster sv = [] \<Longrightarrow> sv_cluster (serve_all en reqs sv) = []"
  by (induction reqs arbitrary: sv) (simp_all add: serve_no_streams)

section \<open>Properties\<close>



end
