(* ===== verification/SpinMutex.thy ===== *)
theory SpinMutex
  imports ConcArena
begin

text \<open>
  The spin lock of the database library (\<open>lib_database/src/spin_mutex.hpp\<close>) at the granularity of its
  atomic flag, and the abstraction in which \<open>ConcArena\<close> uses it: a lock is the thread that holds it.
\<close>

section \<open>The lock\<close>

text \<open>\<open>std::atomic_flag\<close>: \<open>test_and_set\<close> returns the old value.\<close>

definition test_and_set :: "bool \<Rightarrow> bool \<times> bool" where
  "test_and_set flag = (flag, True)"

text \<open>One turn of the loop of \<open>lock\<close>, and \<open>try_lock\<close>: whether the lock was taken, and the flag.\<close>

definition lock_turn :: "bool \<Rightarrow> bool \<times> bool" where
  "lock_turn flag = (case test_and_set flag of (old, flag') \<Rightarrow> (\<not> old, flag'))"

definition try_lock :: "bool \<Rightarrow> bool \<times> bool" where
  "try_lock flag = (case test_and_set flag of (old, flag') \<Rightarrow> (\<not> old, flag'))"

definition unlock :: "bool \<Rightarrow> bool" where
  "unlock flag = False"

text \<open>Threads outside, in the loop of \<open>lock\<close>, and in the critical section; only the latter unlock.\<close>

datatype spin_pc = Out | Spinning | Holding

record spin =
  sp_flag :: bool
  sp_pc :: "nat \<Rightarrow> spin_pc"

definition new_spin :: spin where
  "new_spin = \<lparr>sp_flag = False, sp_pc = (\<lambda>_. Out)\<rparr>"

datatype lock_event = Acquire nat | Release nat

text \<open>A step, with the acquisition or release that it completes.\<close>

inductive spin_step :: "spin \<Rightarrow> lock_event list \<Rightarrow> spin \<Rightarrow> bool" where
  call: "sp_pc s t = Out \<Longrightarrow> spin_step s [] (s\<lparr>sp_pc := (sp_pc s)(t := Spinning)\<rparr>)"
| turn: "sp_pc s t = Spinning \<Longrightarrow> lock_turn (sp_flag s) = (ok, flag) \<Longrightarrow>
     spin_step s (if ok then [Acquire t] else [])
       (s\<lparr>sp_flag := flag, sp_pc := (sp_pc s)(t := if ok then Holding else Spinning)\<rparr>)"
| attempt: "sp_pc s t = Out \<Longrightarrow> try_lock (sp_flag s) = (ok, flag) \<Longrightarrow>
     spin_step s (if ok then [Acquire t] else [])
       (s\<lparr>sp_flag := flag, sp_pc := (sp_pc s)(t := if ok then Holding else Out)\<rparr>)"
| release: "sp_pc s t = Holding \<Longrightarrow>
     spin_step s [Release t] (s\<lparr>sp_flag := unlock (sp_flag s), sp_pc := (sp_pc s)(t := Out)\<rparr>)"

inductive spin_run :: "lock_event list \<Rightarrow> spin \<Rightarrow> bool" where
  init: "spin_run [] new_spin"
| step: "spin_run es s \<Longrightarrow> spin_step s e s' \<Longrightarrow> spin_run (es @ e) s'"

section \<open>The abstract lock\<close>

text \<open>
  What a lock promises: it is free or held by one thread, only a free one is acquired, and only its holder
  releases it. \<open>None\<close>: the events are not those of a lock.
\<close>

fun holder_step :: "nat option option \<Rightarrow> lock_event \<Rightarrow> nat option option" where
  "holder_step (Some None) (Acquire t) = Some (Some t)"
| "holder_step (Some (Some h)) (Release t) = (if h = t then Some None else None)"
| "holder_step _ _ = None"

definition holder_after :: "lock_event list \<Rightarrow> nat option option" where
  "holder_after es = foldl holder_step (Some None) es"

lemma holder_after_append: "holder_after (es @ e) = foldl holder_step (holder_after es) e"
  by (simp add: holder_after_def)

definition spin_holds :: "spin \<Rightarrow> nat option \<Rightarrow> bool" where
  "spin_holds s h \<longleftrightarrow> (sp_flag s \<longleftrightarrow> h \<noteq> None) \<and> (\<forall>t. sp_pc s t = Holding \<longleftrightarrow> h = Some t)"

lemma spin_step_holds:
  assumes step: "spin_step s e s'" and holds: "spin_holds s h"
  shows "\<exists>h'. foldl holder_step (Some h) e = Some h' \<and> spin_holds s' h'"
proof -
  have not: "sp_pc s t \<noteq> Holding \<Longrightarrow> h \<noteq> Some t" for t using holds by (simp add: spin_holds_def)
  show ?thesis
    using step
  proof cases
    case (call t)
    then show ?thesis using holds not [of t] by (auto simp: spin_holds_def)
  next
    case (turn t ok flag)
    then show ?thesis using holds not [of t]
      by (cases h) (auto simp: spin_holds_def lock_turn_def test_and_set_def)
  next
    case (attempt t ok flag)
    then show ?thesis using holds not [of t]
      by (cases h) (auto simp: spin_holds_def try_lock_def test_and_set_def)
  next
    case (release t)
    then have "h = Some t" using holds by (simp add: spin_holds_def)
    then show ?thesis using release holds by (auto simp: spin_holds_def unlock_def)
  qed
qed

lemma spin_run_holds: "spin_run es s \<Longrightarrow> \<exists>h. holder_after es = Some h \<and> spin_holds s h"
proof (induction rule: spin_run.induct)
  case init
  then show ?case by (simp add: holder_after_def spin_holds_def new_spin_def)
next
  case (step es s e s')
  then show ?case using spin_step_holds [OF step.hyps(2)] by (auto simp: holder_after_append)
qed

text \<open>C23: the spin lock is a lock. Whatever threads call \<open>lock\<close>, \<open>try_lock\<close> and \<open>unlock\<close> and however their
  turns interleave, acquisitions and releases alternate, each release by the thread that acquired; the flag is
  set exactly while there is a holder, at most one thread is in the critical section, and a thread in the loop
  of \<open>lock\<close> gets the lock in its next turn when it is free.\<close>

theorem spin_mutex_is_a_lock:
  assumes "spin_run es s"
  shows "\<exists>h. holder_after es = Some h \<and> (sp_flag s \<longleftrightarrow> h \<noteq> None) \<and>
    (\<forall>t. sp_pc s t = Holding \<longleftrightarrow> h = Some t) \<and>
    (\<forall>t. sp_pc s t = Spinning \<longrightarrow> fst (lock_turn (sp_flag s)) = (h = None))"
  using spin_run_holds [OF assms] by (auto simp: spin_holds_def lock_turn_def test_and_set_def)

theorem spin_mutex_is_a_lock_witness:
  "\<exists>s. spin_run [Acquire 3] s \<and> sp_pc s 3 = Holding \<and> sp_pc s 5 \<noteq> Holding"
proof -
  have "spin_step new_spin (if True then [Acquire 3] else [])
      (new_spin\<lparr>sp_flag := True, sp_pc := (sp_pc new_spin)(3 := if True then Holding else Out)\<rparr>)"
    by (rule spin_step.attempt) (simp_all add: new_spin_def try_lock_def test_and_set_def)
  then have run: "spin_run [Acquire 3] (new_spin\<lparr>sp_flag := True, sp_pc := (sp_pc new_spin)(3 := Holding)\<rparr>)"
    using spin_run.step [OF spin_run.init] by fastforce
  let ?s = "new_spin\<lparr>sp_flag := True, sp_pc := (sp_pc new_spin)(3 := Holding)\<rparr>"
  obtain h where h: "holder_after [Acquire 3] = Some h" "\<forall>t. sp_pc ?s t = Holding \<longleftrightarrow> h = Some t"
    using spin_mutex_is_a_lock [OF run] by (elim exE conjE) (rule that)
  have "h = Some 3" using h(1) by (simp add: holder_after_def)
  then have "sp_pc ?s 3 = Holding \<and> sp_pc ?s 5 \<noteq> Holding"
    using spec [OF h(2), of 3] spec [OF h(2), of 5] by (simp del: fun_upd_apply spin.simps)
  then show ?thesis using run by (intro exI [of _ ?s]) simp
qed

section \<open>Mutual exclusion\<close>

text \<open>
  The contract of a lock with its users: the threads in the critical section are exactly the holder.
  The arena's lock and the locks of its shards meet it in \<open>ConcArena\<close>, where they are their holder.
\<close>

locale mutual_exclusion =
  fixes reachable :: "'s \<Rightarrow> bool" and holder :: "'s \<Rightarrow> nat option" and inside :: "'s \<Rightarrow> nat \<Rightarrow> bool"
  assumes inside_iff: "reachable s \<Longrightarrow> inside s t \<longleftrightarrow> holder s = Some t"
begin

lemma exclusive: "reachable s \<Longrightarrow> inside s t \<Longrightarrow> inside s u \<Longrightarrow> t = u"
  by (simp add: inside_iff)

lemma free: "reachable s \<Longrightarrow> holder s = None \<Longrightarrow> \<not> inside s t"
  by (simp add: inside_iff)

end

interpretation spin_lock: mutual_exclusion "\<lambda>(es, s). spin_run es s"
    "\<lambda>(es, s). Option.bind (holder_after es) (\<lambda>h. h)" "\<lambda>(es, s) t. sp_pc s t = Holding"
  by unfold_locales (auto dest!: spin_run_holds simp: spin_holds_def)

interpretation arena_lock: mutual_exclusion lock_inv arena_lock "\<lambda>c t. holds_arena (c_pc c t)"
  by unfold_locales (simp add: lock_inv_def)

end
