(* ===== verification/Launch.thy ===== *)
theory Launch
  imports Client ChatClient
begin

text \<open>
  The main programs of the two servers (\<open>converse/exe_server/src/main.cpp\<close>,
  \<open>mousedb/server/exe_server/src/server_main.cpp\<close>): reading the address to join, subcommands and exit codes; and of
  the two clients (\<open>mousedb/client/src/client_main.cpp\<close>, \<open>converse/exe_client/src/main.cpp\<close>).
  \<open>boost::program_options\<close>, Qt and the servers themselves are parameters.
\<close>

section \<open>Strings and numbers\<close>

text \<open>\<open>std::string::find\<close>, with \<open>npos\<close> as the largest \<open>size_t\<close>, and \<open>substr\<close> for a position in range.\<close>

definition find_char :: "byte \<Rightarrow> bytes \<Rightarrow> u64" where
  "find_char c s =
     (let n = length (takeWhile (\<lambda>b. b \<noteq> c) s) in if n < length s then word_of_nat n else - 1)"

definition substr :: "u64 \<Rightarrow> u64 \<Rightarrow> bytes \<Rightarrow> bytes" where
  "substr pos len s = take (unat len) (drop (unat pos) s)"

datatype exn = Invalid_Argument | Out_Of_Range | Parse_Error | System_Error

text \<open>\<open>std::stoi\<close>: blanks, a sign, digits; what follows the digits is ignored.\<close>

definition is_blank :: "byte \<Rightarrow> bool" where
  "is_blank b \<longleftrightarrow> b = 32 \<or> 9 \<le> b \<and> b \<le> 13"

definition is_digit :: "byte \<Rightarrow> bool" where
  "is_digit b \<longleftrightarrow> 48 \<le> b \<and> b \<le> 57"

definition stoi :: "bytes \<Rightarrow> exn + int" where
  "stoi s =
     (let s = dropWhile is_blank s;
          negative = (s \<noteq> [] \<and> hd s = 45);
          s = (if s \<noteq> [] \<and> (hd s = 45 \<or> hd s = 43) then tl s else s);
          digits = takeWhile is_digit s;
          i = (if negative then - int (undecimal 0 digits) else int (undecimal 0 digits))
      in if digits = [] then Inl Invalid_Argument
         else if - (2 ^ 31) \<le> i \<and> i < 2 ^ 31 then Inr i else Inl Out_Of_Range)"

section \<open>The address to join\<close>

text \<open>\<open>Address::operator std::string\<close>.\<close>

definition address_text :: "server_address \<Rightarrow> bytes" where
  "address_text a = fst a @ [58] @ to_string (snd a)"

text \<open>The chat server does not ask whether there is a colon.\<close>

definition chat_join :: "bytes \<Rightarrow> exn + server_address option" where
  "chat_join text =
     (if text = [] then Inr None
      else
        (let h = substr 0 (find_char 58 text) text
         in case stoi (substr (find_char 58 text + 1) (word_of_nat (length text)) text) of
              Inl e \<Rightarrow> Inl e
            | Inr p \<Rightarrow> Inr (Some (h, p))))"

text \<open>The key-value server does, but lets the exception of \<open>stoi\<close> end the program.\<close>

datatype exit = Exit int | Terminate exn

definition kv_join :: "bytes option \<Rightarrow> exit + address option" where
  "kv_join join =
     (case join of
        None \<Rightarrow> Inr None
      | Some text \<Rightarrow>
          if find_char 58 text = - 1 then Inl (Exit 1)
          else
            (case stoi (substr (find_char 58 text + 1) (- 1) text) of
               Inl e \<Rightarrow> Inl (Terminate e)
             | Inr p \<Rightarrow> Inr (Some \<lparr>host = substr 0 (find_char 58 text) text, port = p\<rparr>)))"

section \<open>The main programs\<close>

record serve_options =
  so_help :: bool
  so_name :: bytes
  so_host :: bytes
  so_port :: int
  so_join :: bytes

text \<open>\<open>server\<close>: the server of a name and an address; it returns or throws when it stops.\<close>

definition handle_serve ::
    "(bytes \<Rightarrow> server_address \<Rightarrow> server_address option \<Rightarrow> exn option) \<Rightarrow> serve_options \<Rightarrow> exn option" where
  "handle_serve server vm =
     (case chat_join (so_join vm) of
        Inl e \<Rightarrow> Some e
      | Inr join_address \<Rightarrow>
          (case server (so_name vm) (so_host vm, so_port vm) join_address of
             Some e \<Rightarrow> None
           | None \<Rightarrow> None))"

definition chat_main ::
    "(bytes list \<Rightarrow> exn + serve_options) \<Rightarrow>
      (bytes \<Rightarrow> server_address \<Rightarrow> server_address option \<Rightarrow> exn option) \<Rightarrow> bytes list \<Rightarrow> int" where
  "chat_main parse server argv =
     (let (subcommand, sub_args) =
            (if length argv < 2 then ([115, 101, 114, 118, 101], []) else (argv ! 1, drop 2 argv))
      in if subcommand = [115, 101, 114, 118, 101]
         then
           (case parse sub_args of
              Inl e \<Rightarrow> 1
            | Inr vm \<Rightarrow>
                if so_help vm then 0
                else (case handle_serve server vm of Some e \<Rightarrow> 1 | None \<Rightarrow> 0))
         else 1)"

record kv_options =
  ko_port :: int
  ko_host :: bytes
  ko_join :: "bytes option"

definition kv_main ::
    "(bytes list \<Rightarrow> exn + kv_options) \<Rightarrow> bytes list \<Rightarrow> exit + address \<times> address option" where
  "kv_main parse argv =
     (case parse argv of
        Inl e \<Rightarrow> Inl (Exit 1)
      | Inr vm \<Rightarrow>
          (case kv_join (ko_join vm) of
             Inl x \<Rightarrow> Inl x
           | Inr join_addr \<Rightarrow> Inr (\<lparr>host = ko_host vm, port = ko_port vm\<rparr>, join_addr)))"

text \<open>How many threads run the event loop, for what \<open>hardware_concurrency\<close> returns.\<close>

definition event_threads :: "nat \<Rightarrow> nat" where
  "event_threads n = length [1..<n] + 1"

section \<open>The clients\<close>

text \<open>
  The loop of the key-value client for the random choices so far, on all bytes that the server sends before it closes
  the connection: what is logged, and whether the loop goes on. A read past the last byte throws, and nothing catches
  it; a length in the body of an answer that is too large is read past the end of the body, unchecked.
\<close>

datatype client_state = Goes_On | Ended exit | Out_Of_Bounds

fun client_loop :: "roll list \<Rightarrow> bytes \<Rightarrow> Client.outcome list \<times> client_state" where
  "client_loop [] inbuf = ([], Goes_On)"
| "client_loop (r # rs) inbuf =
     (case read_msg inbuf of
        None \<Rightarrow> ([], Ended (Terminate System_Error))
      | Some (m, inbuf) \<Rightarrow>
          (case client_outcome r m of
             None \<Rightarrow> ([], Out_Of_Bounds)
           | Some out \<Rightarrow> (let (outs, st) = client_loop rs inbuf in (out # outs, st))))"

record kv_client_options =
  kc_host :: bytes
  kc_port :: int

text \<open>\<open>connect\<close> resolves and connects; what it returns is what the server will send.\<close>

definition kv_client_main ::
    "(bytes list \<Rightarrow> exn + kv_client_options) \<Rightarrow> (bytes \<Rightarrow> bytes \<Rightarrow> exn + bytes) \<Rightarrow> roll list \<Rightarrow> bytes list \<Rightarrow>
      Client.outcome list \<times> client_state" where
  "kv_client_main parse connect rolls argv =
     (case parse argv of
        Inl e \<Rightarrow> ([], Ended (Exit 1))
      | Inr vm \<Rightarrow>
          (case connect (kc_host vm) (to_string (kc_port vm)) of
             Inl e \<Rightarrow> ([], Ended (Terminate e))
           | Inr inbuf \<Rightarrow> client_loop rolls inbuf))"

text \<open>
  The chat client. \<open>process\<close> is \<open>QCommandLineParser::process\<close>, which may end the program; \<open>toInt\<close> gives 0 for what is
  not a number; \<open>loaded\<close> says whether the interface has a root object; \<open>exec\<close> is the event loop.
\<close>

record qt_options =
  qo_host :: bytes
  qo_port :: bytes

definition qt_main ::
    "(bytes list \<Rightarrow> int + qt_options) \<Rightarrow> (bytes \<Rightarrow> int option) \<Rightarrow> bool \<Rightarrow> (client \<Rightarrow> int) \<Rightarrow> bytes list \<Rightarrow> int" where
  "qt_main process to_int loaded exec argv =
     (case process argv of
        Inl exit_code \<Rightarrow> exit_code
      | Inr vm \<Rightarrow>
          (let backend = new_client (qo_host vm, case to_int (qo_port vm) of Some p \<Rightarrow> p | None \<Rightarrow> 0)
           in if \<not> loaded then - 1 else exec backend))"

text \<open>On frames that are answers the key-value client logs each of them and goes on; when the server then closes the
  connection the next round ends the program by an exception.\<close>

lemma client_loop_answers:
  assumes "list_all (\<lambda>(r, m). sendable m \<and> client_outcome r m \<noteq> None) rms"
  shows "client_loop (map fst rms @ rs) (concat (map (to_buffers \<circ> snd) rms)) =
    (map (\<lambda>(r, m). the (client_outcome r m)) rms, if rs = [] then Goes_On else Ended (Terminate System_Error))"
  using assms
proof (induction rms)
  case Nil
  have "read_msg [] = None" by (simp add: read_msg_def get_u32_def take_field_def)
  then show ?case by (cases rs) simp_all
qed (auto simp: codec_simps)

text \<open>A port that is not a number starts the chat client on port 0.\<close>

lemma qt_main_port:
  "process argv = Inr vm \<Longrightarrow> to_int (qo_port vm) = None \<Longrightarrow>
     qt_main process to_int True exec argv = exec (new_client (qo_host vm, 0))"
  by (simp add: qt_main_def)

section \<open>Properties\<close>

lemma is_digit_iff: "is_digit b \<longleftrightarrow> 48 \<le> unat b \<and> unat b < 58"
  by (auto simp: is_digit_def word_le_nat_alt)

lemma decimal_all_digits: "\<forall>b\<in>set (decimal n). is_digit b"
  using decimal_digits by (auto simp: is_digit_iff)

lemma takeWhile_decimal [simp]: "takeWhile is_digit (decimal n) = decimal n"
  by (rule takeWhile_eq_all_conv [THEN iffD2, OF decimal_all_digits])

lemma npos: "unat (- 1 :: u64) = 2 ^ 64 - 1"
  by (simp add: unsigned_minus_1_eq_mask mask_eq_exp_minus_1)

lemma stoi_decimal:
  assumes "int n < 2 ^ 31"
  shows "stoi (decimal n) = Inr (int n)"
proof -
  have hd: "is_digit (hd (decimal n))" using decimal_all_digits [of n] by (cases "decimal n") simp_all
  then have "\<not> is_blank (hd (decimal n))" "hd (decimal n) \<noteq> 45" "hd (decimal n) \<noteq> 43"
    by (auto simp: is_digit_def is_blank_def word_le_nat_alt)
  moreover from this(1) have "dropWhile is_blank (decimal n) = decimal n" by (cases "decimal n") simp_all
  ultimately show ?thesis using assms by (simp add: stoi_def Let_def)
qed

lemma stoi_to_string:
  assumes "- (2 ^ 31) \<le> i" "i < 2 ^ 31"
  shows "stoi (to_string i) = Inr i"
proof (cases "i < 0")
  case True
  then show ?thesis using assms by (simp add: stoi_def to_string_def is_blank_def Let_def)
next
  case False
  then show ?thesis using stoi_decimal [of "nat i"] assms by (simp add: to_string_def)
qed

lemma find_char_first:
  assumes "c \<notin> set h" "length h < 2 ^ 63"
  shows "find_char c (h @ c # r) = word_of_nat (length h)" "find_char c (h @ c # r) \<noteq> - 1"
    "substr 0 (find_char c (h @ c # r)) (h @ c # r) = h"
    "unat (find_char c (h @ c # r) + 1) = Suc (length h)"
proof -
  have "takeWhile (\<lambda>b. b \<noteq> c) (h @ c # r) = h" using assms(1) by (subst takeWhile_append2) auto
  then show f: "find_char c (h @ c # r) = word_of_nat (length h)" by (simp add: find_char_def)
  have u: "unat (word_of_nat (length h) :: u64) = length h" using assms(2) by (simp add: unat_of_nat)
  show "find_char c (h @ c # r) \<noteq> - 1"
  proof
    assume "find_char c (h @ c # r) = - 1"
    then have "unat (- 1 :: u64) = length h" using u unfolding f by metis
    then show False using assms(2) unfolding npos by simp
  qed
  show "substr 0 (find_char c (h @ c # r)) (h @ c # r) = h" unfolding f by (simp add: substr_def u)
  have "word_of_nat (length h) + 1 = (word_of_nat (Suc (length h)) :: u64)" by simp
  then show "unat (find_char c (h @ c # r) + 1) = Suc (length h)"
    unfolding f using assms(2) by (simp only: unat_of_nat) simp
qed

lemma find_char_none: "c \<notin> set s \<Longrightarrow> find_char c s = - 1"
proof -
  assume "c \<notin> set s"
  then have "length (takeWhile (\<lambda>b. b \<noteq> c) s) = length s" by (subst takeWhile_eq_all_conv [THEN iffD2]) auto
  then show ?thesis by (simp add: find_char_def Let_def)
qed

lemma substr_all:
  assumes "length s < 2 ^ 63"
  shows "unat n = k \<Longrightarrow> substr n (word_of_nat (length s)) s = drop k s" "unat n = k \<Longrightarrow> substr n (- 1) s = drop k s"
proof -
  have "unat (word_of_nat (length s) :: u64) = length s" using assms by (simp add: unat_of_nat)
  then show "unat n = k \<Longrightarrow> substr n (word_of_nat (length s)) s = drop k s" by (simp add: substr_def)
  show "unat n = k \<Longrightarrow> substr n (- 1) s = drop k s" using assms by (simp add: substr_def npos)
qed

text \<open>An address that is written out as \<open>host:port\<close> is read back by both servers, whatever host without a
  colon and \<open>int\<close> port. Of a text without a colon the chat server takes all for the host and all for the port,
  because the position after \<open>npos\<close> is 0, so a bare port is joined as a host of that name; the key-value
  server ends with exit code 1.\<close>

theorem join_address_roundtrip:
  assumes "58 \<notin> set h" "length (address_text (h, p)) < 2 ^ 63" "- (2 ^ 31) \<le> p" "p < 2 ^ 31"
    and "58 \<notin> set s" "s \<noteq> []" "length s < 2 ^ 63"
  shows "chat_join (address_text (h, p)) = Inr (Some (h, p)) \<and>
    kv_join (Some (address_text (h, p))) = Inr (Some \<lparr>host = h, port = p\<rparr>) \<and>
    chat_join s = (case stoi s of Inl e \<Rightarrow> Inl e | Inr q \<Rightarrow> Inr (Some (s, q))) \<and>
    kv_join (Some s) = Inl (Exit 1)"
proof -
  have shown: "address_text (h, p) = h @ 58 # to_string p" by (simp add: address_text_def)
  have len: "length h < 2 ^ 63" "length (h @ 58 # to_string p) < 2 ^ 63" using assms(2) by (simp_all add: shown)
  note f = find_char_first [OF assms(1) len(1), of "to_string p"]
  have sub: "substr (find_char 58 (h @ 58 # to_string p) + 1) (word_of_nat (length (h @ 58 # to_string p)))
      (h @ 58 # to_string p) = to_string p"
    "substr (find_char 58 (h @ 58 # to_string p) + 1) (- 1) (h @ 58 # to_string p) = to_string p"
    using substr_all [OF len(2) f(4)] by simp_all
  note st = stoi_to_string [OF assms(3,4)]
  have "substr 0 (- 1) s = s" using substr_all(2) [OF assms(7), of 0 0] by simp
  then have "chat_join s = (case stoi s of Inl e \<Rightarrow> Inl e | Inr q \<Rightarrow> Inr (Some (s, q)))"
    using assms(6) substr_all(1) [OF assms(7), of 0 0]
    by (simp add: chat_join_def find_char_none [OF assms(5)] Let_def)
  moreover have "chat_join (address_text (h, p)) = Inr (Some (h, p))"
    unfolding shown chat_join_def Let_def sub(1) f(3) st by simp
  moreover have "kv_join (Some (address_text (h, p))) = Inr (Some \<lparr>host = h, port = p\<rparr>)"
    unfolding shown kv_join_def option.case sub(2) f(3) st using f(2) by simp
  moreover have "kv_join (Some s) = Inl (Exit 1)" by (simp add: kv_join_def find_char_none [OF assms(5)])
  ultimately show ?thesis by blast
qed

theorem join_address_roundtrip_witness:
  "chat_join (address_text ([49, 48], 50051)) = Inr (Some ([49, 48], 50051)) \<and>
   chat_join [53, 48] = Inr (Some ([53, 48], 50)) \<and> kv_join (Some [53, 48]) = Inl (Exit 1)"
proof -
  have "to_string 50051 = [53, 48, 48, 53, 49]" by (simp add: to_string_def decimal.simps)
  moreover have "stoi [53, 48] = Inr 50" using stoi_decimal [of 50] by (simp add: decimal.simps)
  ultimately show ?thesis
    using join_address_roundtrip [of "[49, 48]" 50051 "[53, 48]"] by (simp add: address_text_def)
qed

text \<open>When the server stops with an exception, the chat program ends with exit code 0 all the same; only a bad
  command line or address gives 1.\<close>

lemma exit_hides_failure:
  "parse (drop 2 argv) = Inr vm \<Longrightarrow> chat_join (so_join vm) = Inr j \<Longrightarrow> 2 \<le> length argv \<Longrightarrow>
     argv ! 1 = [115, 101, 114, 118, 101] \<Longrightarrow> chat_main parse server argv = 0"
  by (auto simp: chat_main_def handle_serve_def Let_def split: option.splits)

end
