(* ===== verification/Logging.thy ===== *)
theory Logging
  imports Main
begin

text \<open>
  The logging library of the chat (\<open>converse/lib_logging/src/converse/logging/core.{hpp,cpp}\<close>), its health
  service, and the log file of the clock simulation (\<open>tempus/src/logger.{hpp,cpp}\<close>).
\<close>

section \<open>Severities\<close>

text \<open>The numbers of \<open>boost::log::trivial\<close>, of which the library uses four.\<close>

datatype level = Trace | Debug | Info | Error

fun underlying :: "level \<Rightarrow> int" where
  "underlying Trace = 0"
| "underlying Debug = 1"
| "underlying Info = 2"
| "underlying Error = 4"

datatype sink_type = Null_Sink | File_Sink | Console_Sink

datatype sink = To_File string | To_Console

record log_core =
  lc_filter :: int
  lc_sinks :: "sink list"

definition log_init :: "level \<Rightarrow> sink_type \<Rightarrow> string \<Rightarrow> log_core \<Rightarrow> log_core" where
  "log_init lvl t name core =
     (let core = core\<lparr>lc_sinks := []\<rparr>;
          core = core\<lparr>lc_filter := underlying lvl\<rparr>
      in case t of
           Null_Sink \<Rightarrow> core
         | File_Sink \<Rightarrow> core\<lparr>lc_sinks := lc_sinks core @ [To_File name]\<rparr>
         | Console_Sink \<Rightarrow> core\<lparr>lc_sinks := lc_sinks core @ [To_Console]\<rparr>)"

text \<open>
  What a call writes, and to which sinks. \<open>default_sinks\<close> are those to which \<open>boost::log\<close> gives a record when
  no sink is registered.
\<close>

definition log_write :: "sink list \<Rightarrow> level \<Rightarrow> string \<Rightarrow> log_core \<Rightarrow> (sink \<times> int \<times> string) list" where
  "log_write default_sinks lvl message core =
     (if lc_filter core \<le> underlying lvl
      then map (\<lambda>s. (s, underlying lvl, message @ [CHR 0x0A]))
        (if lc_sinks core = [] then default_sinks else lc_sinks core)
      else [])"

text \<open>Whatever was set up before, the last \<open>init\<close> counts: less severe records are dropped, the others go to its one
  sink. With the null sink no sink is left, so the records are not dropped but go to the default sinks.\<close>

lemma log_write_after_init:
  "log_write d lvl msg (log_init l Console_Sink name core) =
     (if underlying l \<le> underlying lvl then [(To_Console, underlying lvl, msg @ [CHR 0x0A])] else [])"
  "log_write d lvl msg (log_init l File_Sink name core) =
     (if underlying l \<le> underlying lvl then [(To_File name, underlying lvl, msg @ [CHR 0x0A])] else [])"
  "log_write d lvl msg (log_init l Null_Sink name core) =
     (if underlying l \<le> underlying lvl then map (\<lambda>s. (s, underlying lvl, msg @ [CHR 0x0A])) d else [])"
  by (simp_all add: log_write_def log_init_def)

section \<open>Health\<close>

datatype health_status = Health_OK

definition health_check :: "sink list \<Rightarrow> log_core \<Rightarrow> health_status \<times> (sink \<times> int \<times> string) list" where
  "health_check default_sinks core = (Health_OK, log_write default_sinks Info ''HealthCheck'' core)"

section \<open>Log files of the simulation\<close>

text \<open>
  A log is written by several threads: each takes the mutex, writes its line in two pieces (the text and the end
  of the line) and releases the mutex.
\<close>

datatype line_pc = L_Lock string | L_Text string | L_End | L_Unlock

record log_file =
  lf_file :: "string"
  lf_mutex :: "nat option"
  lf_pcs :: "nat \<Rightarrow> line_pc option"

definition new_log :: log_file where
  "new_log = \<lparr>lf_file = ''[INIT]'' @ [CHR 0x0A], lf_mutex = None, lf_pcs = (\<lambda>_. None)\<rparr>"

definition write_turn :: "nat \<Rightarrow> log_file \<Rightarrow> log_file" where
  "write_turn t l =
     (case lf_pcs l t of
        None \<Rightarrow> l
      | Some (L_Lock line) \<Rightarrow>
          (if lf_mutex l = None then l\<lparr>lf_mutex := Some t, lf_pcs := (lf_pcs l)(t \<mapsto> L_Text line)\<rparr> else l)
      | Some (L_Text line) \<Rightarrow> l\<lparr>lf_file := lf_file l @ line, lf_pcs := (lf_pcs l)(t \<mapsto> L_End)\<rparr>
      | Some L_End \<Rightarrow> l\<lparr>lf_file := lf_file l @ [CHR 0x0A], lf_pcs := (lf_pcs l)(t \<mapsto> L_Unlock)\<rparr>
      | Some L_Unlock \<Rightarrow> l\<lparr>lf_mutex := None, lf_pcs := (lf_pcs l)(t := None)\<rparr>)"

text \<open>A thread that is not writing begins a line.\<close>

definition write_call :: "nat \<Rightarrow> string \<Rightarrow> log_file \<Rightarrow> log_file" where
  "write_call t line l = (if lf_pcs l t = None then l\<lparr>lf_pcs := (lf_pcs l)(t \<mapsto> L_Lock line)\<rparr> else l)"

fun run_log :: "(nat \<times> string option) list \<Rightarrow> log_file \<Rightarrow> log_file" where
  "run_log [] l = l"
| "run_log ((t, Some line) # es) l = run_log es (write_call t line l)"
| "run_log ((t, None) # es) l = run_log es (write_turn t l)"

definition terminated :: "string list \<Rightarrow> string" where
  "terminated lines = concat (map (\<lambda>line. line @ [CHR 0x0A]) lines)"

fun inside :: "line_pc option \<Rightarrow> bool" where
  "inside None = False"
| "inside (Some (L_Lock line)) = False"
| "inside _ = True"

text \<open>The file is terminated lines, and after them possibly the text of the line of the thread inside.\<close>

definition log_ok :: "string set \<Rightarrow> log_file \<Rightarrow> bool" where
  "log_ok S l \<longleftrightarrow>
     (\<forall>t. lf_mutex l = Some t \<longleftrightarrow> inside (lf_pcs l t)) \<and>
     (\<forall>t line. lf_pcs l t = Some (L_Lock line) \<or> lf_pcs l t = Some (L_Text line) \<longrightarrow> line \<in> S) \<and>
     (\<exists>ls. set ls \<subseteq> S \<and>
        (case lf_mutex l of
           Some t \<Rightarrow>
             (if lf_pcs l t = Some L_End then \<exists>line\<in>S. lf_file l = terminated ls @ line
              else lf_file l = terminated ls)
         | None \<Rightarrow> lf_file l = terminated ls))"

lemma terminated_snoc [simp]: "terminated (ls @ [line]) = terminated ls @ line @ [CHR 0x0A]"
  by (simp add: terminated_def)

lemma write_turn_ok:
  assumes "log_ok S l"
  shows "log_ok S (write_turn t l)"
proof -
  from assms obtain ls where mutex: "\<forall>u. lf_mutex l = Some u \<longleftrightarrow> inside (lf_pcs l u)"
    and lines: "\<forall>u line. lf_pcs l u = Some (L_Lock line) \<or> lf_pcs l u = Some (L_Text line) \<longrightarrow> line \<in> S"
    and ls: "set ls \<subseteq> S" "case lf_mutex l of
           Some t \<Rightarrow>
             (if lf_pcs l t = Some L_End then \<exists>line\<in>S. lf_file l = terminated ls @ line
              else lf_file l = terminated ls)
         | None \<Rightarrow> lf_file l = terminated ls"
    unfolding log_ok_def by blast
  have others: "u \<noteq> t \<Longrightarrow> inside (lf_pcs l t) \<Longrightarrow> \<not> inside (lf_pcs l u)" for u
    using mutex by (metis option.inject)
  show ?thesis
  proof (cases "lf_pcs l t")
    case None
    then show ?thesis using assms by (simp add: write_turn_def)
  next
    case (Some pc)
    show ?thesis
    proof (cases pc)
      case (L_Lock line)
      have "lf_mutex l = None \<Longrightarrow> \<not> inside (lf_pcs l u)" for u using mutex by (metis option.distinct(1))
      then show ?thesis
        using assms Some L_Lock lines ls by (auto simp: write_turn_def log_ok_def)
    next
      case (L_Text line)
      then have m: "lf_mutex l = Some t" using mutex Some by simp
      then have "lf_file l = terminated ls" "line \<in> S" using ls(2) lines Some L_Text by auto
      then show ?thesis
        using Some L_Text ls(1) lines others m by (auto simp: write_turn_def log_ok_def)
    next
      case L_End
      then have m: "lf_mutex l = Some t" using mutex Some by simp
      then obtain line where line: "line \<in> S" "lf_file l = terminated ls @ line" using ls(2) Some L_End by auto
      then have "\<exists>ls. set ls \<subseteq> S \<and> lf_file l @ [CHR 0x0A] = terminated ls"
        using ls(1) by (intro exI [of _ "ls @ [line]"]) simp
      then show ?thesis
        using Some L_End lines mutex m others by (auto simp: write_turn_def log_ok_def)
    next
      case L_Unlock
      then have m: "lf_mutex l = Some t" using mutex Some by simp
      then have "lf_file l = terminated ls" using ls(2) Some L_Unlock by simp
      then show ?thesis
        using Some L_Unlock lines others m ls(1) by (auto simp: write_turn_def log_ok_def)
    qed
  qed
qed

lemma write_call_ok: "log_ok S l \<Longrightarrow> line \<in> S \<Longrightarrow> log_ok S (write_call t line l)"
  unfolding log_ok_def write_call_def by (cases "lf_mutex l") (auto split: if_splits)

lemma run_log_ok:
  "log_ok S l \<Longrightarrow> (\<forall>(t, line) \<in> set es. set_option line \<subseteq> S) \<Longrightarrow> log_ok S (run_log es l)"
  by (induction es l rule: run_log.induct) (auto intro: write_turn_ok write_call_ok)

text \<open>However the threads interleave, no line is torn: whenever the mutex is free, the file is a sequence of whole
  lines, each of which some thread asked for or is the first one.\<close>

lemma log_lines_whole:
  assumes "\<forall>(t, line) \<in> set es. set_option line \<subseteq> S" "lf_mutex (run_log es new_log) = None"
  shows "\<exists>ls. set ls \<subseteq> insert ''[INIT]'' S \<and> lf_file (run_log es new_log) = terminated ls"
proof -
  have "log_ok (insert ''[INIT]'' S) new_log"
    by (auto simp: log_ok_def new_log_def terminated_def intro!: exI [of _ "[''[INIT]'']"])
  from run_log_ok [OF this] have "log_ok (insert ''[INIT]'' S) (run_log es new_log)" using assms(1) by blast
  then show ?thesis using assms(2) by (auto simp: log_ok_def)
qed

end
