(* ===== verification/KvTalk.thy ===== *)
theory KvTalk
  imports Client
begin

text \<open>
  The demonstration client and the server together, over the byte streams between them: what the client logs,
  as long as no other session introduces itself. Once one does, the client takes the PEER frame for an answer
  (\<open>client_takes_peer_for_answer\<close> in \<open>Client\<close>).
\<close>

section \<open>The composed system\<close>

text \<open>
  \<open>tk_pc\<close> is the request whose answer the client waits for, \<open>tk_out\<close> what it has sent and the server has not read,
  \<open>tk_read\<close> how many of the bytes that the server has sent it has read. The rest records what happened: the writes
  that the server has handled, whether it has handled the introduction, the writes at the time it handled the last
  request of the client, and the outcomes, with the writes at that time.
\<close>

record 'b talk =
  tk_mgr :: "'b manager"
  tk_pc :: "roll option"
  tk_out :: bytes
  tk_read :: nat
  tk_writes :: "db_write list"
  tk_known :: bool
  tk_at :: "db_write list"
  tk_log :: "(roll \<times> outcome \<times> db_write list) list"

fun roll_ok :: "roll \<Rightarrow> bool" where
  "roll_ok (Put_Roll k v) \<longleftrightarrow> k \<le> 9 \<and> v \<le> 100"
| "roll_ok (Get_Roll k) \<longleftrightarrow> k \<le> 9"

definition inbox :: "nat \<Rightarrow> 'b talk \<Rightarrow> bytes" where
  "inbox sid s =
     (case map_of (m_sessions (tk_mgr s)) sid of None \<Rightarrow> [] | Some ss \<Rightarrow> drop (tk_read s) (s_sent ss))"

text \<open>The connection is accepted and the client has sent its introduction.\<close>

definition talk_start :: "nat \<Rightarrow> int \<Rightarrow> 'b manager \<Rightarrow> db_write list \<Rightarrow> 'b talk" where
  "talk_start sid junk mgr ws =
     \<lparr>tk_mgr = mgr\<lparr>m_sessions := m_sessions mgr @ [(sid, session_start (m_self mgr) (new_session junk False))]\<rparr>,
      tk_pc = None, tk_out = client_to_buffers client_identify, tk_read = 0, tk_writes = ws, tk_known = False, tk_at = [],
      tk_log = []\<rparr>"

text \<open>What else may happen at the server: sessions come, go and send requests, but none introduces itself, and
  before the client has done so nobody else comes and no heartbeat goes out.\<close>

fun foreign :: "nat \<Rightarrow> 'b talk \<Rightarrow> server_event \<Rightarrow> bool" where
  "foreign sid s (Accepted i junk) \<longleftrightarrow> tk_known s \<and> i \<notin> fst ` set (m_sessions (tk_mgr s))"
| "foreign sid s (Dialed a i junk) \<longleftrightarrow> tk_known s \<and> i \<notin> fst ` set (m_sessions (tk_mgr s))"
| "foreign sid s (Dial_Failed a) \<longleftrightarrow> True"
| "foreign sid s (Received t busy now i m) \<longleftrightarrow>
     i \<noteq> sid \<and> i \<in> fst ` set (m_sessions (tk_mgr s)) \<and> msg_type m \<noteq> type_code IDENTIFY"
| "foreign sid s (Bad_Frame i) \<longleftrightarrow> i \<noteq> sid"
| "foreign sid s (First_Read_Failed i) \<longleftrightarrow> True"
| "foreign sid s (Read_Failed i) \<longleftrightarrow> i \<noteq> sid"
| "foreign sid s (Written i) \<longleftrightarrow> i \<noteq> sid"
| "foreign sid s (Write_Failed i) \<longleftrightarrow> i \<noteq> sid"
| "foreign sid s Heartbeat \<longleftrightarrow> tk_known s"
| "foreign sid s Taken \<longleftrightarrow> True"

text \<open>\<open>Own\<close> steps are those of the client and of the server for it.\<close>

datatype talk_kind = Own | Foreign

inductive talk_step :: "nat \<Rightarrow> talk_kind \<Rightarrow> 'b talk \<Rightarrow> 'b talk \<Rightarrow> bool" for sid where
  ask: "tk_pc s = None \<Longrightarrow> roll_ok r \<Longrightarrow>
     talk_step sid Own s (s\<lparr>tk_pc := Some r, tk_out := tk_out s @ client_to_buffers (client_request r)\<rparr>)"
| handled: "read_frame (tk_out s) = Frame m zs \<Longrightarrow> ev = Received t busy now sid m \<Longrightarrow>
     event_ok ev (tk_mgr s) (tk_writes s) \<Longrightarrow> server_step ev (tk_mgr s) = Some mgr' \<Longrightarrow>
     ws = event_writes ev (tk_mgr s) @ tk_writes s \<Longrightarrow>
     talk_step sid Own s (s\<lparr>tk_mgr := mgr', tk_out := zs, tk_writes := ws, tk_known := True, tk_at := ws\<rparr>)"
| refused: "read_frame (tk_out s) = Bad_Length \<Longrightarrow> server_step (Bad_Frame sid) (tk_mgr s) = Some mgr' \<Longrightarrow>
     talk_step sid Own s (s\<lparr>tk_mgr := mgr', tk_out := []\<rparr>)"
| written: "map_of (m_sessions (tk_mgr s)) sid = Some ss \<Longrightarrow> s_write_q ss \<noteq> [] \<Longrightarrow>
     server_step (Written sid) (tk_mgr s) = Some mgr' \<Longrightarrow>
     talk_step sid Own s (s\<lparr>tk_mgr := mgr'\<rparr>)"
| answer: "tk_pc s = Some r \<Longrightarrow> client_round r (inbox sid s) = Some (out, zs) \<Longrightarrow>
     talk_step sid Own s (s\<lparr>tk_pc := None, tk_read := tk_read s + (length (inbox sid s) - length zs),
       tk_log := tk_log s @ [(r, out, tk_at s)]\<rparr>)"
| other: "foreign sid s ev \<Longrightarrow> event_ok ev (tk_mgr s) (tk_writes s) \<Longrightarrow> server_step ev (tk_mgr s) = Some mgr' \<Longrightarrow>
     talk_step sid Foreign s (s\<lparr>tk_mgr := mgr', tk_writes := event_writes ev (tk_mgr s) @ tk_writes s\<rparr>)"

inductive talk_run :: "nat \<Rightarrow> 'b talk \<Rightarrow> 'b talk \<Rightarrow> bool" for sid where
  nil: "talk_run sid s s"
| snoc: "talk_run sid s s' \<Longrightarrow> talk_step sid e s' s'' \<Longrightarrow> talk_run sid s s''"

section \<open>What the client should log\<close>

text \<open>For a GET the last write of the key when the server handled it, with a zero stamp; for a PUT success, and the
  write is the last one.\<close>

fun logged_right :: "roll \<times> outcome \<times> db_write list \<Rightarrow> bool" where
  "logged_right (Put_Roll k v, out, ws) \<longleftrightarrow>
     out = Put_Logged True \<and> last_write ws (client_key k) = Some (decimal v)"
| "logged_right (Get_Roll k, out, ws) \<longleftrightarrow>
     out = Get_Logged (case last_write ws (client_key k) of None \<Rightarrow> Not_Found | Some v \<Rightarrow> Got_Value v (HLC 0 0 0))"

fun answer_to :: "roll \<Rightarrow> db_write list \<Rightarrow> message" where
  "answer_to (Put_Roll k v) ws = message_of WRITE_RESP [0]"
| "answer_to (Get_Roll k) ws =
     message_of READ_RESP (read_resp (map_option (\<lambda>v. (v, HLC 0 0 0)) (last_write ws (client_key k))))"

text \<open>The bytes for the client that it has not read, and the frames that are still queued.\<close>

definition coming :: "'b talk \<Rightarrow> session \<Rightarrow> bytes \<times> message list" where
  "coming s ss = (drop (tk_read s) (s_sent ss), s_write_q ss)"

text \<open>The invariant. The streams never hold more than the introduction and one request, or one answer.\<close>

definition asked :: "roll option \<Rightarrow> bytes" where
  "asked pc = (case pc of None \<Rightarrow> [] | Some r \<Rightarrow> to_buffers (client_request r))"

definition stream_ok :: "'b talk \<Rightarrow> session \<Rightarrow> bool" where
  "stream_ok s ss \<longleftrightarrow>
     (case tk_pc s of
        None \<Rightarrow> tk_out s = [] \<and> coming s ss = ([], [])
      | Some r \<Rightarrow>
          roll_ok r \<and>
          (tk_out s = to_buffers (client_request r) \<and> coming s ss = ([], []) \<or>
           tk_out s = [] \<and>
           (coming s ss = ([], [answer_to r (tk_at s)]) \<or> coming s ss = (to_buffers (answer_to r (tk_at s)), [])) \<and>
           (\<forall>k v. r = Put_Roll k v \<longrightarrow> last_write (tk_at s) (client_key k) = Some (decimal v))))"

definition small_values :: "db_write list \<Rightarrow> bool" where
  "small_values ws \<longleftrightarrow> list_all (\<lambda>(k, c, v). length v < 2 ^ 20) ws"

definition store_ok :: "'b talk \<Rightarrow> bool" where
  "store_ok s \<longleftrightarrow>
     server_inv (tk_mgr s) (tk_writes s) \<and> small_values (tk_writes s) \<and> small_values (tk_at s) \<and>
     distinct (map fst (m_sessions (tk_mgr s))) \<and> list_all logged_right (tk_log s)"

definition session_ok :: "nat \<Rightarrow> 'b talk \<Rightarrow> session \<Rightarrow> bool" where
  "session_ok sid s ss \<longleftrightarrow>
     tk_read s \<le> length (s_sent ss) \<and>
     (if tk_known s then port (s_remote ss) = 0 \<and> stream_ok s ss
      else m_sessions (tk_mgr s) = [(sid, ss)] \<and> coming s ss = ([], []) \<and>
        tk_out s = to_buffers client_identify @ asked (tk_pc s) \<and>
        (case tk_pc s of None \<Rightarrow> True | Some r \<Rightarrow> roll_ok r))"

definition talk_ok :: "nat \<Rightarrow> 'b talk \<Rightarrow> bool" where
  "talk_ok sid s \<longleftrightarrow> store_ok s \<and> (\<exists>ss. map_of (m_sessions (tk_mgr s)) sid = Some ss \<and> session_ok sid s ss)"

section \<open>Frames of the client\<close>

lemma sendable_client:
  "sendable client_identify" "roll_ok r \<Longrightarrow> sendable (client_request r)"
proof -
  show "sendable client_identify"
    by (simp add: sendable_def client_identify_def message_of_def address_payload_def client_tag_def)
  assume "roll_ok r"
  then show "sendable (client_request r)"
  proof (cases r)
    case (Put_Roll k v)
    then show ?thesis using length_decimal [of v] client_key_length [of k] \<open>roll_ok r\<close>
      by (simp add: sendable_def message_of_def write_req_def)
  next
    case (Get_Roll k)
    then show ?thesis using client_key_length [of k] \<open>roll_ok r\<close>
      by (simp add: sendable_def message_of_def read_req_def)
  qed
qed

lemma read_msg_long:
  assumes "length (payload m) < 2 ^ 31"
  shows "read_msg (to_buffers m @ zs) = Some (m, zs)"
proof -
  have "unat (of_nat (length (payload m) + 4) :: u32) = length (payload m) + 4"
    using assms by (subst unat_of_nat) simp
  moreover from this have "unat ((of_nat (length (payload m) + 4) :: u32) - 4) = length (payload m)"
    using unat_sub [of 4 "of_nat (length (payload m) + 4) :: u32"] by (simp only: word_le_nat_alt) simp
  ultimately show ?thesis
    by (simp add: read_msg_def to_buffers_def get_be_append
        take_field_append [of 2 "[0, 0]", simplified] take_field_append del: of_nat_add)
qed

lemma last_write_small: "small_values ws \<Longrightarrow> last_write ws key = Some v \<Longrightarrow> length v < 2 ^ 20"
  by (auto simp: small_values_def last_write_def list_all_iff find_Some_iff split: option.splits if_splits)
    (metis case_prodD nth_mem)

lemma answer_payload: "small_values ws \<Longrightarrow> length (payload (answer_to r ws)) < 2 ^ 31"
  by (cases r) (auto simp: message_of_def read_resp_def dest: last_write_small split: option.splits)

lemma answer_read:
  assumes "small_values ws" "\<forall>k v. r = Put_Roll k v \<longrightarrow> last_write ws (client_key k) = Some (decimal v)"
  shows "\<exists>out. client_round r (to_buffers (answer_to r ws)) = Some (out, []) \<and> logged_right (r, out, ws)"
proof (cases r)
  case (Put_Roll k v)
  then show ?thesis
    using read_msg_long [OF answer_payload [OF assms(1), of r], of "[]"] assms(2)
    by (simp add: client_round_def message_of_def parse_write_resp_def)
next
  case (Get_Roll k)
  have "parse_read_resp (answer_to r ws) =
    Some (case last_write ws (client_key k) of None \<Rightarrow> Not_Found | Some v \<Rightarrow> Got_Value v (HLC 0 0 0))"
  proof (cases "last_write ws (client_key k)")
    case None
    then show ?thesis by (simp add: Get_Roll message_of_def parse_read_resp_def read_resp_def)
  next
    case (Some v)
    then show ?thesis
      using last_write_small [OF assms(1) Some] unat_of_length(2) [of v]
      by (simp add: Get_Roll message_of_def parse_read_resp_def read_resp_def get_be_append take_field_append
          decode_encode_hlc [of _ "[]", simplified])
  qed
  then show ?thesis
    using read_msg_long [OF answer_payload [OF assms(1), of r], of "[]"]
    by (simp add: Get_Roll client_round_def)
qed

section \<open>Sessions\<close>

lemma map_of_sessions:
  "map_of (map (\<lambda>(i, s). (i, g i s)) ss) sid = map_option (g sid) (map_of ss sid)"
  by (induction ss) auto

lemma map_of_on_session:
  "map_of (m_sessions (on_session i f mgr)) sid = map_option (if i = sid then f else id) (map_of (m_sessions mgr) sid)"
  unfolding on_session_def by (simp add: map_of_sessions cong: map_option_cong)

lemma ids_sessions [simp]:
  "map fst (m_sessions (on_session i f mgr)) = map fst (m_sessions mgr)"
  "map fst (m_sessions (send i m mgr)) = map fst (m_sessions mgr)"
  by (simp_all add: on_session_def send_def comp_def case_prod_beta)

lemma map_of_forget: "i \<noteq> sid \<Longrightarrow> map_of (m_sessions (forget i mgr)) sid = map_of (m_sessions mgr) sid"
proof -
  have "i \<noteq> sid \<Longrightarrow> map_of (filter (\<lambda>(j, s). j \<noteq> i) ss) sid = map_of ss sid" for ss :: "(nat \<times> session) list"
    by (induction ss) auto
  then show "i \<noteq> sid \<Longrightarrow> ?thesis" by (simp add: forget_def)
qed

text \<open>What a message of another session does to this one.\<close>

lemma received_sessions:
  assumes "handle_message t busy now i m mgr = Some mgr'" "msg_type m \<noteq> type_code IDENTIFY"
  shows "m_sessions mgr' = m_sessions mgr \<or> (\<exists>f. m_sessions mgr' = m_sessions (on_session i f mgr))"
  using assms
  by (auto simp: handle_message_def send_def kv_put_def connect_to_def on_session_def
      split: if_splits Option.bind_splits prod.splits)

text \<open>No foreign event touches the client's session.\<close>

lemma foreign_session:
  assumes foreign: "foreign sid s ev" and step: "server_step ev (tk_mgr s) = Some mgr'"
    and ss: "map_of (m_sessions (tk_mgr s)) sid = Some ss" and port: "tk_known s \<Longrightarrow> port (s_remote ss) = 0"
    and ids: "distinct (map fst (m_sessions (tk_mgr s)))"
  shows "map_of (m_sessions mgr') sid = Some ss \<and> distinct (map fst (m_sessions mgr')) \<and>
    (\<not> tk_known s \<longrightarrow> m_sessions (tk_mgr s) = [(sid, ss)] \<longrightarrow> m_sessions mgr' = [(sid, ss)])"
proof (cases ev)
  case (Accepted i junk)
  then show ?thesis using foreign step ss ids by (auto simp: image_iff dest: map_of_SomeD)
next
  case (Dialed a i junk)
  then show ?thesis using foreign step ss ids by (auto simp: image_iff dest: map_of_SomeD)
next
  case (Received t busy now i m)
  then have "i \<noteq> sid" "handle_message t busy now i m (tk_mgr s) = Some mgr'" "msg_type m \<noteq> type_code IDENTIFY"
    using foreign step by simp_all
  with received_sessions consider "m_sessions mgr' = m_sessions (tk_mgr s)"
    | f where "m_sessions mgr' = m_sessions (on_session i f (tk_mgr s))" by blast
  then show ?thesis
  proof cases
    case (2 f)
    have "map_of (m_sessions mgr') sid = Some ss" unfolding 2 map_of_on_session using ss \<open>i \<noteq> sid\<close> by simp
    moreover have "distinct (map fst (m_sessions mgr'))" unfolding 2 using ids by simp
    moreover have "m_sessions (tk_mgr s) = [(sid, ss)] \<Longrightarrow> m_sessions mgr' = [(sid, ss)]"
      unfolding 2 using \<open>i \<noteq> sid\<close> by (simp add: on_session_def)
    ultimately show ?thesis by blast
  qed (use ss ids in simp)
next
  case Heartbeat
  then have "mgr' = send_all (message_of HEARTBEAT []) (tk_mgr s)" "\<not> is_server_peer ss"
    using step foreign port by (simp_all add: is_server_peer_def)
  then show ?thesis
    using ss ids foreign Heartbeat
    by (simp add: send_all_def map_of_sessions [where g = "\<lambda>i s. if is_server_peer s then _ s else s"] comp_def case_prod_beta)
next
  case (Bad_Frame i)
  then show ?thesis using foreign step ss ids
    by (auto simp: map_of_forget) (auto simp: forget_def distinct_map intro: inj_on_subset)
next
  case (Read_Failed i)
  then show ?thesis using foreign step ss ids
    by (auto simp: map_of_forget) (auto simp: forget_def distinct_map intro: inj_on_subset)
next
  case (Write_Failed i)
  then show ?thesis using foreign step ss ids
    by (auto simp: map_of_forget) (auto simp: forget_def distinct_map intro: inj_on_subset)
next
  case (Written i)
  then show ?thesis using foreign step ss ids
    by (auto simp: map_of_on_session) (auto simp: on_session_def)
qed (use step ss ids in \<open>auto simp: worker_take_def split: list.splits\<close>)

lemma event_writes_small: "event_ok ev mgr ws \<Longrightarrow> small_values (event_writes ev mgr)"
proof (cases ev)
  case (Received t busy now sid m)
  assume "event_ok ev mgr ws"
  then have "length (payload m) < 2 ^ 20" using Received by simp
  then show ?thesis using parse_write_req_length [of "payload m"]
    by (fastforce simp: Received small_values_def split: option.splits)
qed (simp_all add: small_values_def)

lemma small_values_append [simp]: "small_values (ws @ ws') \<longleftrightarrow> small_values ws \<and> small_values ws'"
  by (simp add: small_values_def)

section \<open>Requests of the client\<close>

lemma client_identify_type [simp]: "client_identify\<lparr>msg_type := type_code IDENTIFY\<rparr> = client_identify"
  by (simp add: client_identify_def message_of_def)

lemma identify_alone:
  assumes "m_sessions mgr = [(sid, ss)]" "handle_message t busy now sid client_identify mgr = Some mgr'"
  shows "m_sessions mgr' = [(sid, ss\<lparr>s_remote := client_tag\<rparr>)]"
  using identify_introduces [OF _ parse_client_identify, of mgr t busy now sid] assms by (auto simp: introduced_def)

lemma request_handled:
  assumes inv: "server_inv mgr ws" and r: "roll_ok r"
    and ws': "ws' = event_writes (Received t busy now sid (client_request r)) mgr @ ws"
  shows "\<exists>mgr'. handle_message t busy now sid (client_request r) mgr = Some mgr' \<and>
    m_sessions mgr' = m_sessions (send sid (answer_to r ws') mgr) \<and>
    (\<forall>k v. r = Put_Roll k v \<longrightarrow> last_write ws' (client_key k) = Some (decimal v))"
proof (cases r)
  case (Put_Roll k v)
  then have parse: "parse_write_req (payload (client_request (Put_Roll k v))) = Some (client_key k, decimal v, HLC 0 0 0)"
    using r by (intro parse_client_request) auto
  obtain merged hlc' where merge: "recv_and_merge (m_hlc mgr) now (HLC 0 0 0) = (merged, hlc')" by fastforce
  have "ws' = (client_key k, merged, decimal v) # ws" using ws' Put_Roll parse merge by (simp add: message_of_def)
  then have "last_write ws' (client_key k) = Some (decimal v)" by (simp add: last_write_def)
  then show ?thesis
    using Put_Roll parse merge by (simp add: handle_message_def message_of_def send_def on_session_def kv_put_def)
next
  case (Get_Roll k)
  then have parse: "parse_read_req (payload (client_request (Get_Roll k))) = Some (client_key k)"
    using r by (intro parse_client_request) auto
  have "ws' = ws" using ws' Get_Roll by (simp add: message_of_def type_code_def)
  then show ?thesis
    using Get_Roll parse server_find [OF inv, of "client_key k"]
    by (simp add: handle_message_def message_of_def kv_get_def type_code_def send_def on_session_def)
qed

lemma read_frame_nil [simp]: "read_frame [] = Need_More"
  by (simp add: read_frame_def get_u32_def take_field_def)

lemma read_client_frame:
  "read_frame (to_buffers client_identify @ zs) = Frame client_identify zs"
  "roll_ok r \<Longrightarrow> read_frame (to_buffers (client_request r) @ zs) = Frame (client_request r) zs"
  "roll_ok r \<Longrightarrow> read_frame (to_buffers (client_request r)) = Frame (client_request r) []"
  using read_frame_append [OF sendable_client(1)] read_frame_append [OF sendable_client(2)]
    read_frame_append [OF sendable_client(2), of r "[]"] by simp_all

section \<open>The invariant holds\<close>

lemma talk_ok_other:
  assumes ok: "talk_ok sid s" and foreign: "foreign sid s ev" and ev: "event_ok ev (tk_mgr s) (tk_writes s)"
    and step: "server_step ev (tk_mgr s) = Some mgr'"
  shows "talk_ok sid (s\<lparr>tk_mgr := mgr', tk_writes := event_writes ev (tk_mgr s) @ tk_writes s\<rparr>)"
proof -
  from ok obtain ss where o: "store_ok s" "map_of (m_sessions (tk_mgr s)) sid = Some ss" "session_ok sid s ss"
    unfolding talk_ok_def by blast
  have port: "tk_known s \<Longrightarrow> port (s_remote ss) = 0" using o(3) by (simp add: session_ok_def)
  have ids: "distinct (map fst (m_sessions (tk_mgr s)))" using o(1) by (simp add: store_ok_def)
  note f = foreign_session [OF foreign step o(2) port ids]
  have "server_inv mgr' (event_writes ev (tk_mgr s) @ tk_writes s)"
    using o(1) by (intro server_inv_step [OF _ ev step]) (simp add: store_ok_def)
  then have "store_ok (s\<lparr>tk_mgr := mgr', tk_writes := event_writes ev (tk_mgr s) @ tk_writes s\<rparr>)"
    using o(1) f event_writes_small [OF ev] by (simp add: store_ok_def)
  moreover have "session_ok sid (s\<lparr>tk_mgr := mgr', tk_writes := event_writes ev (tk_mgr s) @ tk_writes s\<rparr>) ss"
    using o(3) f by (cases "tk_pc s") (auto simp: session_ok_def stream_ok_def coming_def)
  ultimately show ?thesis using f by (auto simp: talk_ok_def)
qed

lemma talk_ok_ask:
  assumes ok: "talk_ok sid s" and pc: "tk_pc s = None" and r: "roll_ok r"
  shows "talk_ok sid (s\<lparr>tk_pc := Some r, tk_out := tk_out s @ client_to_buffers (client_request r)\<rparr>)"
  using assms unfolding talk_ok_def client_to_buffers_eq
  by (auto simp: store_ok_def session_ok_def stream_ok_def coming_def asked_def)

lemma talk_ok_handled:
  assumes ok: "talk_ok sid s" and frame: "read_frame (tk_out s) = Frame m zs"
    and ev: "ev = Received t busy now sid m" "event_ok ev (tk_mgr s) (tk_writes s)"
    and step: "server_step ev (tk_mgr s) = Some mgr'" and ws: "ws = event_writes ev (tk_mgr s) @ tk_writes s"
  shows "talk_ok sid (s\<lparr>tk_mgr := mgr', tk_out := zs, tk_writes := ws, tk_known := True, tk_at := ws\<rparr>)"
proof -
  from ok obtain ss where o: "store_ok s" "map_of (m_sessions (tk_mgr s)) sid = Some ss" "session_ok sid s ss"
    unfolding talk_ok_def by blast
  have inv: "server_inv (tk_mgr s) (tk_writes s)" using o(1) by (simp add: store_ok_def)
  have inv': "server_inv mgr' ws" using server_inv_step [OF inv ev(2) step] ws by simp
  have small: "small_values ws" using event_writes_small [OF ev(2)] o(1) ws by (simp add: store_ok_def)
  have handle: "handle_message t busy now sid m (tk_mgr s) = Some mgr'" using step ev(1) by simp
  show ?thesis
  proof (cases "tk_known s")
    case False
    then have alone: "m_sessions (tk_mgr s) = [(sid, ss)]" "coming s ss = ([], [])"
      "tk_out s = to_buffers client_identify @ asked (tk_pc s)" "case tk_pc s of None \<Rightarrow> True | Some r \<Rightarrow> roll_ok r"
      using o(3) by (simp_all add: session_ok_def)
    then have m: "m = client_identify" "zs = asked (tk_pc s)" using frame read_client_frame(1) by simp_all
    have sessions: "m_sessions mgr' = [(sid, ss\<lparr>s_remote := client_tag\<rparr>)]"
      using identify_alone [OF alone(1)] handle m(1) by simp
    have "port client_tag = 0" by (simp add: client_tag_def)
    then show ?thesis
      using inv' small o(1,3) alone(2,4) m(2) sessions
      by (auto simp: talk_ok_def store_ok_def session_ok_def stream_ok_def coming_def asked_def split: option.splits)
  next
    case True
    then have str: "stream_ok s ss" "port (s_remote ss) = 0" using o(3) by (simp_all add: session_ok_def)
    have "tk_out s \<noteq> []" using frame by auto
    then obtain r where r: "tk_pc s = Some r" "roll_ok r" "tk_out s = to_buffers (client_request r)" "coming s ss = ([], [])"
      using str(1) by (auto simp: stream_ok_def split: option.splits)
    have m: "m = client_request r" "zs = []" using frame read_client_frame(3) [OF r(2)] r(3) by simp_all
    obtain mgr1 where "handle_message t busy now sid (client_request r) (tk_mgr s) = Some mgr1"
      "m_sessions mgr1 = m_sessions (send sid (answer_to r ws) (tk_mgr s))"
      and last: "\<forall>k v. r = Put_Roll k v \<longrightarrow> last_write ws (client_key k) = Some (decimal v)"
      using request_handled [OF inv r(2), of ws t busy now sid] ws ev(1) m(1) by blast
    then have sessions: "m_sessions mgr' = m_sessions (send sid (answer_to r ws) (tk_mgr s))" using handle m(1) by simp
    have "map_of (m_sessions mgr') sid = Some (session_send (answer_to r ws) ss)"
      unfolding sessions send_def map_of_on_session using o(2) by simp
    moreover have "distinct (map fst (m_sessions mgr'))" unfolding sessions using o(1) by (simp add: store_ok_def)
    ultimately show ?thesis
      using inv' small o(1,3) True str(2) r m(2) last
      by (auto simp: talk_ok_def store_ok_def session_ok_def stream_ok_def coming_def session_send_def)
  qed
qed

lemma talk_ok_written:
  assumes ok: "talk_ok sid s" and step: "server_step (Written sid) (tk_mgr s) = Some mgr'"
  shows "talk_ok sid (s\<lparr>tk_mgr := mgr'\<rparr>)"
proof -
  from ok obtain ss where o: "store_ok s" "map_of (m_sessions (tk_mgr s)) sid = Some ss" "session_ok sid s ss"
    unfolding talk_ok_def by blast
  have mgr': "mgr' = on_session sid write_done (tk_mgr s)" using step by simp
  have inv: "server_inv mgr' (tk_writes s)"
    using o(1) by (simp add: mgr' store_ok_def server_inv_same [OF same_store_session(1)])
  have here: "map_of (m_sessions mgr') sid = Some (write_done ss)"
    unfolding mgr' map_of_on_session using o(2) by simp
  show ?thesis
  proof (cases "s_write_q ss")
    case Nil
    then have same: "write_done ss = ss" by (simp add: write_done_def)
    have "m_sessions (tk_mgr s) = [(sid, ss)] \<Longrightarrow> m_sessions mgr' = [(sid, ss)]" by (simp add: mgr' on_session_def same)
    then have "session_ok sid (s\<lparr>tk_mgr := mgr'\<rparr>) ss"
      using o(3) by (cases "tk_pc s") (auto simp: session_ok_def stream_ok_def coming_def)
    then show ?thesis using here same inv o(1) by (auto simp: talk_ok_def store_ok_def mgr')
  next
    case (Cons m ms)
    then have known: "tk_known s" "port (s_remote ss) = 0" "stream_ok s ss" using o(3)
      by (auto simp: session_ok_def coming_def split: if_splits)
    then obtain r where r: "tk_pc s = Some r" "roll_ok r" "tk_out s = []" "s_write_q ss = [answer_to r (tk_at s)]"
      "drop (tk_read s) (s_sent ss) = []" "\<forall>k v. r = Put_Roll k v \<longrightarrow> last_write (tk_at s) (client_key k) = Some (decimal v)"
      using Cons by (auto simp: stream_ok_def coming_def split: option.splits)
    then have "session_ok sid (s\<lparr>tk_mgr := mgr'\<rparr>) (write_done ss)"
      using o(3) known(1,2) by (auto simp: session_ok_def stream_ok_def coming_def write_done_def)
    then show ?thesis using here inv o(1) by (auto simp: talk_ok_def store_ok_def mgr')
  qed
qed

lemma client_round_nil: "client_round r [] = None"
  by (simp add: client_round_def read_msg_def get_u32_def take_field_def)

lemma talk_ok_answer:
  assumes ok: "talk_ok sid s" and pc: "tk_pc s = Some r" and round: "client_round r (inbox sid s) = Some (out, zs)"
  shows "talk_ok sid (s\<lparr>tk_pc := None, tk_read := tk_read s + (length (inbox sid s) - length zs),
    tk_log := tk_log s @ [(r, out, tk_at s)]\<rparr>)"
proof -
  from ok obtain ss where o: "store_ok s" "map_of (m_sessions (tk_mgr s)) sid = Some ss" "session_ok sid s ss"
    unfolding talk_ok_def by blast
  have inbox: "inbox sid s = drop (tk_read s) (s_sent ss)" using o(2) by (simp add: inbox_def)
  have some: "drop (tk_read s) (s_sent ss) \<noteq> []" using round client_round_nil by (auto simp: inbox)
  then have known: "tk_known s" "port (s_remote ss) = 0" "stream_ok s ss"
    using o(3) by (auto simp: session_ok_def coming_def split: if_splits)
  then have a: "drop (tk_read s) (s_sent ss) = to_buffers (answer_to r (tk_at s))" "s_write_q ss = []" "tk_out s = []"
    "\<forall>k v. r = Put_Roll k v \<longrightarrow> last_write (tk_at s) (client_key k) = Some (decimal v)"
    using some pc by (auto simp: stream_ok_def coming_def)
  have "small_values (tk_at s)" using o(1) by (simp add: store_ok_def)
  from answer_read [OF this a(4)] have right: "zs = []" "logged_right (r, out, tk_at s)" using round inbox a(1) by auto
  have "session_ok sid (s\<lparr>tk_pc := None, tk_read := tk_read s + (length (inbox sid s) - length zs),
      tk_log := tk_log s @ [(r, out, tk_at s)]\<rparr>) ss"
    using o(3) known a(2,3) right(1) by (simp add: session_ok_def stream_ok_def coming_def inbox)
  then show ?thesis using o(1,2) right(2) by (auto simp: talk_ok_def store_ok_def)
qed

text \<open>The server refuses no frame of the client.\<close>

lemma talk_never_refused:
  assumes "talk_ok sid s"
  shows "read_frame (tk_out s) \<noteq> Bad_Length"
proof -
  from assms obtain ss where o: "session_ok sid s ss" unfolding talk_ok_def by blast
  then show ?thesis
    using read_client_frame(1) read_client_frame(3)
    by (cases "tk_pc s") (auto simp: session_ok_def stream_ok_def split: if_splits)
qed

lemma talk_ok_step: "talk_step sid e s s' \<Longrightarrow> talk_ok sid s \<Longrightarrow> talk_ok sid s'"
proof (induction rule: talk_step.induct)
  case (ask s r)
  then show ?case using talk_ok_ask by blast
next
  case (handled s m zs ev t busy now mgr' ws)
  then show ?case using talk_ok_handled by blast
next
  case (refused s mgr')
  then show ?case using talk_never_refused by blast
next
  case (written s ss mgr')
  then show ?case using talk_ok_written by blast
next
  case (answer s r out zs)
  then show ?case using talk_ok_answer by blast
next
  case (other s ev mgr')
  then show ?case using talk_ok_other by blast
qed

lemma talk_run_ok: "talk_run sid s s' \<Longrightarrow> talk_ok sid s \<Longrightarrow> talk_ok sid s'"
  by (induction rule: talk_run.induct) (auto intro: talk_ok_step)

lemma server_run_small: "server_run pf threshold mgr ws \<Longrightarrow> small_values ws"
proof (induction rule: server_run.induct)
  case init
  show ?case by (simp add: small_values_def)
qed (simp add: event_writes_small)

lemma talk_start_ok:
  assumes "server_run pf threshold mgr ws" "0 < pf_align pf" "pf_cpus pf \<noteq> 0" "m_sessions mgr = []"
  shows "talk_ok sid (talk_start sid junk mgr ws)"
proof -
  have "server_inv mgr ws" using server_run_inv [OF assms(1-3)] .
  moreover have "server_inv (mgr\<lparr>m_sessions := ss\<rparr>) ws = server_inv mgr ws" for ss by (simp add: server_inv_def)
  ultimately show ?thesis
    using server_run_small [OF assms(1)] assms(4)
    by (simp add: talk_ok_def store_ok_def session_ok_def talk_start_def coming_def asked_def session_start_def
        new_session_def client_to_buffers_eq small_values_def)
qed

section \<open>Progress\<close>

text \<open>How many own steps are left until the answer.\<close>

definition own_left :: "nat \<Rightarrow> 'b talk \<Rightarrow> nat" where
  "own_left sid s =
     (if tk_known s then 0 else 1) +
     (case tk_pc s of
        None \<Rightarrow> 0
      | Some r \<Rightarrow>
          if tk_out s = []
          then (case map_of (m_sessions (tk_mgr s)) sid of
                  Some ss \<Rightarrow> (if s_write_q ss = [] then 1 else 2)
                | None \<Rightarrow> 0)
          else 3)"

lemma to_buffers_not_Nil [simp]: "to_buffers m \<noteq> []"
proof
  assume "to_buffers m = []"
  then have "length (to_buffers m) = 0" by simp
  then show False by (simp add: to_buffers_def)
qed

lemma waiting_goes_on:
  assumes ok: "talk_ok sid s" and pc: "tk_pc s = Some r"
    and clock: "tk_out s = [] \<or> clock_ok (m_hlc (tk_mgr s)) (tk_writes s) now (HLC 0 0 0)"
  shows "\<exists>s'. talk_step sid Own s s' \<and>
    (tk_pc s' = None \<and> (\<exists>out. tk_log s' = tk_log s @ [(r, out, tk_at s)]) \<or>
     tk_pc s' = Some r \<and> tk_log s' = tk_log s \<and>
       (tk_out s' = [] \<or> clock_ok (m_hlc (tk_mgr s')) (tk_writes s') now (HLC 0 0 0)))"
proof -
  from ok obtain ss where o: "store_ok s" "map_of (m_sessions (tk_mgr s)) sid = Some ss" "session_ok sid s ss"
    unfolding talk_ok_def by blast
  have inv: "server_inv (tk_mgr s) (tk_writes s)" using o(1) by (simp add: store_ok_def)
  consider "\<not> tk_known s" | "tk_known s" "tk_out s = to_buffers (client_request r)" "roll_ok r"
    | "s_write_q ss \<noteq> []" | "tk_known s" "inbox sid s = to_buffers (answer_to r (tk_at s))"
      "\<forall>k v. r = Put_Roll k v \<longrightarrow> last_write (tk_at s) (client_key k) = Some (decimal v)"
    using o(2,3) pc
    by (cases "tk_known s") (auto simp: session_ok_def stream_ok_def coming_def inbox_def)
  then show ?thesis
  proof cases
    case 1
    then have out: "tk_out s = to_buffers client_identify @ asked (tk_pc s)" and alone: "m_sessions (tk_mgr s) = [(sid, ss)]"
      using o(3) by (simp_all add: session_ok_def)
    let ?ev = "Received 0 None now sid client_identify"
    obtain mgr' where mgr': "handle_message 0 None now sid client_identify (tk_mgr s) = Some mgr'"
      "m_hlc mgr' = m_hlc (tk_mgr s)"
      using identify_introduces [OF _ parse_client_identify, of "tk_mgr s" 0 None now sid] alone by auto
    have type: "msg_type client_identify \<noteq> type_code WRITE_REQ"
      by (simp add: client_identify_def message_of_def type_code_def)
    have "event_ok ?ev (tk_mgr s) (tk_writes s)"
      using sendable_client(1) type by (simp add: sendable_def)
    then have "talk_step sid Own s (s\<lparr>tk_mgr := mgr', tk_out := asked (tk_pc s), tk_writes := tk_writes s,
        tk_known := True, tk_at := tk_writes s\<rparr>)" (is "talk_step _ _ _ ?s")
      using talk_step.handled [of s client_identify "asked (tk_pc s)" ?ev 0 None now sid mgr' "tk_writes s"]
        read_client_frame(1) out mgr'(1) type by simp
    moreover have "clock_ok (m_hlc (tk_mgr s)) (tk_writes s) now (HLC 0 0 0)" using clock out by simp
    ultimately show ?thesis using pc mgr'(2) by (intro exI [of _ ?s]) simp
  next
    case 2
    let ?ev = "Received 0 None now sid (client_request r)"
    obtain mgr' where mgr': "handle_message 0 None now sid (client_request r) (tk_mgr s) = Some mgr'"
      using request_handled [OF inv 2(3) refl] by blast
    have "clock_ok (m_hlc (tk_mgr s)) (tk_writes s) now (HLC 0 0 0)" using clock 2(2) by simp
    then have "event_ok ?ev (tk_mgr s) (tk_writes s)"
      using sendable_client(2) [OF 2(3)] parse_client_request(1) 2(3)
      by (cases r) (auto simp: sendable_def message_of_def type_code_def)
    then show ?thesis
      using talk_step.handled [of s "client_request r" "[]" ?ev 0 None now sid mgr' _] read_client_frame(3) [OF 2(3)]
        2(2) mgr' pc
      by (intro exI conjI) (auto simp del: event_writes.simps)
  next
    case 3
    then have "tk_out s = []"
      using o(3) pc by (auto simp: session_ok_def stream_ok_def coming_def split: if_splits)
    then show ?thesis using talk_step.written [OF o(2) 3, of "on_session sid write_done (tk_mgr s)"] pc by force
  next
    case 4
    have "small_values (tk_at s)" using o(1) by (simp add: store_ok_def)
    then obtain out where "client_round r (inbox sid s) = Some (out, [])" using answer_read [OF _ 4(3)] 4(2) by auto
    then show ?thesis using talk_step.answer [OF pc] by force
  qed
qed

lemma own_step_nearer:
  "talk_step sid e s s' \<Longrightarrow> e = Own \<Longrightarrow> talk_ok sid s \<Longrightarrow> tk_pc s = Some r \<Longrightarrow> own_left sid s' < own_left sid s"
proof (induction rule: talk_step.induct)
  case (handled s m zs ev t busy now mgr' ws)
  from handled.prems(2) obtain ss where o: "session_ok sid s ss" unfolding talk_ok_def by blast
  have out: "tk_out s \<noteq> []" using handled.hyps(1) by auto
  show ?case
  proof (cases "tk_known s")
    case False
    then have "zs = asked (Some r)"
      using o handled.hyps(1) handled.prems(3) read_client_frame(1) by (simp add: session_ok_def)
    then show ?thesis using False out handled.prems(3) by (simp add: own_left_def asked_def)
  next
    case True
    then have "zs = []"
      using o out handled.hyps(1) handled.prems(3) read_client_frame(3) by (auto simp: session_ok_def stream_ok_def)
    then show ?thesis using True out handled.prems(3) by (simp add: own_left_def split: option.splits)
  qed
next
  case (refused s mgr')
  then show ?case using talk_never_refused by blast
next
  case (written s ss mgr')
  from written.prems(2) written.hyps(1) have o: "session_ok sid s ss" by (auto simp: talk_ok_def)
  have known: "tk_known s" "stream_ok s ss"
    using o written.hyps(2) by (auto simp: session_ok_def coming_def split: if_splits)
  then have q: "tk_out s = []" "s_write_q ss = [answer_to r (tk_at s)]"
    using written.hyps(2) written.prems(3) by (auto simp: stream_ok_def coming_def)
  have "map_of (m_sessions mgr') sid = Some (write_done ss)"
    using written.hyps(1,3) map_of_on_session [of sid write_done "tk_mgr s" sid] by auto
  then show ?case using known q written.hyps(1) written.prems(3) by (simp add: own_left_def write_done_def)
next
  case (answer s r' out zs)
  from answer.prems(2) obtain ss where "map_of (m_sessions (tk_mgr s)) sid = Some ss" unfolding talk_ok_def by blast
  then show ?case using answer.hyps(1) by (simp add: own_left_def)
qed simp_all

lemma own_left_bound: "own_left sid s \<le> 4"
  by (simp add: own_left_def split: option.splits)

lemma talk_run_first: "talk_run sid s' s'' \<Longrightarrow> talk_step sid e s s' \<Longrightarrow> talk_run sid s s''"
  by (induction rule: talk_run.induct) (blast intro: talk_run.intros)+

lemma talk_run_trans: "talk_run sid s' s'' \<Longrightarrow> talk_run sid s s' \<Longrightarrow> talk_run sid s s''"
  by (induction rule: talk_run.induct) (blast intro: talk_run.intros)+

text \<open>So the answer can come, if the clock goes on.\<close>

lemma answer_comes:
  "talk_ok sid s \<Longrightarrow> tk_pc s = Some r \<Longrightarrow>
     tk_out s = [] \<or> clock_ok (m_hlc (tk_mgr s)) (tk_writes s) now (HLC 0 0 0) \<Longrightarrow>
   \<exists>s' out ws. talk_run sid s s' \<and> tk_pc s' = None \<and> tk_log s' = tk_log s @ [(r, out, ws)]"
proof (induction "own_left sid s" arbitrary: s rule: less_induct)
  case less
  obtain s1 where s1: "talk_step sid Own s s1"
    "tk_pc s1 = None \<and> (\<exists>out. tk_log s1 = tk_log s @ [(r, out, tk_at s)]) \<or>
     tk_pc s1 = Some r \<and> tk_log s1 = tk_log s \<and>
       (tk_out s1 = [] \<or> clock_ok (m_hlc (tk_mgr s1)) (tk_writes s1) now (HLC 0 0 0))"
    using waiting_goes_on [OF less.prems] by blast
  show ?case
  proof (cases "tk_pc s1")
    case None
    then show ?thesis using s1 talk_run_first [OF talk_run.nil s1(1)] by auto
  next
    case (Some r')
    then have "tk_pc s1 = Some r" "tk_log s1 = tk_log s"
      "tk_out s1 = [] \<or> clock_ok (m_hlc (tk_mgr s1)) (tk_writes s1) now (HLC 0 0 0)" using s1(2) by auto
    with less.hyps [OF own_step_nearer [OF s1(1) refl less.prems(1,2)] talk_ok_step [OF s1(1) less.prems(1)]]
    show ?thesis using talk_run_first [OF _ s1(1)] by metis
  qed
qed

section \<open>Properties\<close>



end
