(* ===== verification/Spec2Isabelle.thy ===== *)
theory Spec2Isabelle
  imports Prelude Hlc Memtable Rng Sstable Pool Client Mesh ChatRace ChatTalk Reader Sql Failover SpinMutex Launch Logging KvTalk
begin

text \<open>
  The repository holds three programs. \<^bold>\<open>mousedb\<close> is a key-value store: a database library
  (\<open>src/mousedb/server/lib_database\<close>), a server of several nodes around it
  (\<open>src/mousedb/server/exe_server\<close>) and a client (\<open>src/mousedb/client\<close>). \<^bold>\<open>tempus\<close> simulates
  virtual machines with logical clocks. \<^bold>\<open>converse\<close> is a chat server with replicas
  (\<open>src/converse/exe_server\<close>) and a Qt client. This development models the core of the three and
  proves what makes it correct; where the code does not do what it means to, the theorem says what
  it does, and the manifest lists it as a finding.

  \<^bold>\<open>The database library.\<close> A write gets a time stamp, is appended to a write-ahead log, and goes into
  the memtable; a full memtable is queued, and a worker writes it to disk and compacts. A look-up
  asks the memtable and the queue.
  \<^item> \<open>Prelude\<close>: byte images of integers, decimal notation, lemmas and collections shared by all.
  \<^item> \<open>Arena\<close>, \<open>ConcArena\<close> (\<open>arena.{hpp,cpp}\<close>): the bump allocator, and the one with shards behind
    spin locks as an inductive step relation whose steps lie between the lock operations of
    \<open>allocate\<close>. The locale \<open>allocator\<close> is their common contract, interpreted for both: regions
    are disjoint. Progress is a lemma of its own: no deadlock, eight steps per call.
  \<^item> \<open>SpinMutex\<close> (\<open>spin_mutex.hpp\<close>): the atomic flag; the locale \<open>mutual_exclusion\<close> is what a lock promises,
    interpreted for the spin mutex and for the lock that \<open>ConcArena\<close> takes for granted.
  \<^item> \<open>Memtable\<close> (\<open>memtable.{hpp,cpp}\<close>): varints, records in arena memory, the index, the table. The
    locale \<open>kv_map\<close> is the concept \<open>KVMap\<close> of the code, interpreted for the table over the
    concurrent arena; look-ups refine a map from keys to lists of values.
  \<^item> \<open>BloomFilter\<close> (\<open>filter.{hpp,cpp}\<close>), over \<open>Stdio\<close>, files as bytes and a position: no false
    negatives, saving and loading. \<open>boost::dynamic_bitset\<close> and \<open>std::hash\<close> are parameters.
  \<^item> \<open>Rng\<close> (\<open>random.{hpp,cpp}\<close>): equal to the Park-Miller generator; one generator per thread.
  \<^item> \<open>Hlc\<close> (\<open>hlc.hpp\<close>, \<open>hlce.hpp\<close>, \<open>lww.hpp\<close>): the packed hybrid clock, its compare-exchange loop as a
    step relation over threads, and the last-writer-wins selection.
  \<^item> \<open>Wal\<close>, \<open>Database\<close>, \<open>Sstable\<close> (\<open>mousedb/database/core.{hpp,cpp}\<close>): the format of the logs and their
    replay, the operations of \<open>Database\<close> and its queue, flushing and compaction.
  \<^item> \<open>Pool\<close> (the same files): the worker threads of the queue, its mutex, condition variable and destructor
    as a step relation. The measure \<open>pool_left\<close> bounds the steps to the end of a shutdown.

  \<^bold>\<open>The server and its client.\<close> \<open>Wire\<close> has the frames and requests of both sides, on the locale
  \<open>prefix_codec\<close> (a stream of encoded items is decoded item by item), interpreted for the server's
  reader and for the client's. \<open>Server\<close> (\<open>server.{hpp,cpp}\<close>) has the sessions, the gossip of
  addresses and the requests: one event per completion handler of Boost.Asio, and runs as sequences of
  events. \<open>Client\<close> (\<open>client_main.cpp\<close>) has a round of the client's loop, and the client's own encoders,
  equal to the server's. \<open>KvTalk\<close> composes the client and the server over the byte streams between them, as a step
  relation in which other sessions come, write and go: what the client logs is what was last written.

  \<^bold>\<open>The simulation.\<close> \<open>Tempus\<close> (\<open>logic.{hpp,cpp}\<close>, \<open>main.cpp\<close>) has the clock, the decision of a round, the
  receiver's reassembly of messages from a byte stream, the table of channels and the loop of a node.
  A step relation composes the nodes; happened-before is an inductive relation on its traces. \<open>Mesh\<close>
  (\<open>main.cpp\<close>) has how the processes find each other: fork, listening, connecting with retries, the
  exchange of ranks and the failing calls; a rank passes in one segment.

  \<^bold>\<open>The chat server.\<close> \<open>ChatDb\<close> (\<open>main.sql\<close>, \<open>database.{hpp,cpp}\<close> and the SQL texts) has the tables, a
  definition per SQL statement, and transactions. \<open>ChatService\<close> (\<open>service/main/impl.{hpp,cpp}\<close>) has the
  remote procedures: errors are the reply \<open>Internal_Error\<close> of the catch block, or \<open>Escaped\<close> when the
  catch block itself throws. \<open>Sql\<close> (the class \<open>Db\<close>, \<open>sql.hpp\<close>) has how a statement is bound and stepped, the
  set-up of a new file, and the texts that are built at run time. \<open>ChatRace\<close> cuts the procedures with transactions at every statement and lets
  calls interleave on the shared connection. \<open>ChatLink\<close> (\<open>service/link/impl.{hpp,cpp}\<close>, \<open>server.{hpp,cpp}\<close>) has what
  replicas are told, how they replay it, and how the next leader is chosen. \<open>Failover\<close> (\<open>server.{hpp,cpp}\<close>) has the
  constructor of a server, and composes a leader and its replicas: through failures they answer like one server
  that never stops. \<open>Reader\<close> (\<open>reader.{hpp,cpp}\<close> of
  server and client) has the readers of streams, with gRPC's thread and the thread that waits; the locale
  \<open>read_reactor\<close> is interpreted for the four classes.

  \<^bold>\<open>The chat client.\<close> \<open>ChatModels\<close> (the data and list classes of \<open>exe_client/src/backend.{hpp,cpp}\<close>) has the
  list models and the changes they announce; the locale \<open>announcing_model\<close> is the contract with a view,
  interpreted for all three. \<open>ChatClient\<close> (the class \<open>Backend\<close>, the connections in \<open>main.cpp\<close>, the callbacks
  of \<open>reader.cpp\<close>) has the requests, the streams and the reconnection, on a network of services of
  \<open>ChatService\<close>; a request ends in \<open>Returns\<close>, \<open>Deadlocks\<close> or \<open>Crashes\<close>. \<open>ChatTalk\<close> joins client and
  server: what the client shows of the server's tables, and a message on its way.

  \<^bold>\<open>Programs and logs.\<close> \<open>Launch\<close> (\<open>main.cpp\<close> of the chat server and its client, \<open>server_main.cpp\<close>,
  \<open>client_main.cpp\<close>) has the subcommands, the address to join, the exit codes and the loop of the key-value client. \<open>Logging\<close> (\<open>lib_logging\<close>, the health service, \<open>tempus/src/logger\<close>) has
  filters and sinks, and the lines that threads write under a mutex.

  \<^bold>\<open>Bounds and termination.\<close> Machine integers have the width of the code: \<open>u64\<close>, \<open>u32\<close>, \<open>u16\<close> and
  \<open>byte\<close> are words, and lengths that the code keeps in 64 bits are words or have their bound in
  the theorem. No definition takes fuel. The loops of \<open>encode_varint\<close>, \<open>smear\<close>, the log replay and the
  decoding of streams have measures; two loops may run for ever and are \<open>partial_function (option)\<close>:
  \<open>decode_loop\<close>, which is shown to return on encoded numbers, and the loop of a node, which is
  shown to return after at most 360 rounds (60 seconds at a rate of at most 6) if the clock does not
  run behind the times slept for. Step relations have measures where they are shown to end (\<open>Pool\<close>,
  \<open>ConcArena\<close>). A worker that blocks for ever has the result \<open>Stuck\<close>.

  \<^bold>\<open>Atomicity.\<close> The arena, the spin mutex and the clock are modelled between their atomic operations, the
  workers and the readers between the operations of their locks. The operations of
  \<open>Database\<close> are atomic at their critical sections. A handler of the server, a procedure of
  the chat service (but in \<open>ChatRace\<close>) and a callback of its client run to their end before the next
  begins.

  \<^bold>\<open>Not modelled.\<close>
  \<^item> Code outside the repository is a parameter: bit sets, hashes, the processor number, SQLite's LIKE
    and order of rows, Argon2. What is relied on is a hypothesis (\<open>engine_ok\<close> and the like).
  \<^item> Locks between the connections of the chat service; \<open>SQLITE_BUSY\<close> and \<open>SQLITE_FULL\<close>.
  \<^item> The user interface in QML, which is the source of the client's events, and Qt itself; the reference
    counts of the stream readers.
  \<^item> gRPC and option parsing (\<open>boost::program_options\<close>, \<open>QCommandLineParser\<close>): parameters, or the source of
    events. Generated code, tests and benchmarks.
  \<^item> What is written to logs, other than the lines of a round in \<open>Tempus\<close>; the log back ends.
  \<^item> The iterators into the deque of tables in work, which other workers may invalidate: a worker of
    \<open>Pool\<close> removes its own table.
  \<^item> \<open>sstable.{hpp,cpp}\<close>: declarations that nothing defines or uses.
\<close>

end
